(* ===== verification/KCPQ_Prelude.thy ===== *)
theory KCPQ_Prelude
  imports Complex_Main "HOL-Library.Word" "HOL-Library.AList" "HOL-Library.Multiset"
    "HOL-Library.Sublist" "HOL-Library.Monad_Syntax"
begin

unbundle bit_operations_syntax

text \<open>
  The prelude of the KCPQ development: the parts of the Go language and of its standard
  library that the components share, and the lemmas about them.
  \<^item> Go values: bytes are \<^typ>\<open>8 word\<close>; a Go string is a byte sequence, written as a
    \<^typ>\<open>string\<close> (a \<^typ>\<open>char\<close> is exactly one byte); the conversions \<open>[]byte(s)\<close> and
    \<open>string(b)\<close> are \<open>bytes_of\<close> and \<open>string_of\<close>; 64-bit signed arithmetic wraps by
    \<open>wrap64\<close>; panics are \<^const>\<open>None\<close> of an option type.
  \<^item> \<open>encoding/binary\<close>: big-endian reads and writes of 16-, 32- and 64-bit values.
  \<^item> Slices: the in-place filter idiom \<open>filtered := xs[:0]\<close>.
  \<^item> Maps: association lists with distinct keys; the list order stands for the iteration
    order that the Go runtime picks.
  \<^item> Buffered channels, with the interface of a bounded queue that they implement.
  \<^item> Transition systems: reachable states and invariants.
\<close>

section \<open>Named collections\<close>

named_theorems go_defs \<open>definitions of the modelled Go library, to be unfolded on closed terms\<close>
named_theorems split_simps \<open>how string operations act on the segments of a subject\<close>
named_theorems inv_intros \<open>operations that keep an invariant\<close>

section \<open>Bytes, strings and integers\<close>

type_synonym byte = "8 word"
type_synonym bytes = "byte list"

text \<open>The Go conversions between \<open>string\<close> and \<open>[]byte\<close>.\<close>

definition byte_of_char :: "char \<Rightarrow> byte" where
  "byte_of_char c = word_of_nat (of_char c)"

definition char_of_byte :: "byte \<Rightarrow> char" where
  "char_of_byte b = char_of (unat b)"

definition bytes_of :: "string \<Rightarrow> bytes" where
  "bytes_of s = map byte_of_char s"

definition string_of :: "bytes \<Rightarrow> string" where
  "string_of b = map char_of_byte b"

lemma char_of_byte_of_char [simp]: "char_of_byte (byte_of_char c) = c"
  by (simp add: char_of_byte_def byte_of_char_def unat_of_nat)

lemma byte_of_char_of_byte [simp]: "byte_of_char (char_of_byte b) = b"
proof -
  have "unat b < 256"
    using unsigned_less [of b] by simp
  then show ?thesis
    by (simp add: char_of_byte_def byte_of_char_def)
qed

lemma string_of_bytes_of [simp]: "string_of (bytes_of s) = s"
  by (simp add: string_of_def bytes_of_def comp_def)

lemma bytes_of_string_of [simp]: "bytes_of (string_of b) = b"
  by (simp add: string_of_def bytes_of_def comp_def)

lemma length_bytes_of [simp]: "length (bytes_of s) = length s"
  by (simp add: bytes_of_def)

lemma length_string_of [simp]: "length (string_of b) = length b"
  by (simp add: string_of_def)

text \<open>Signed 64-bit arithmetic: results outside the range wrap around.\<close>

definition wrap64 :: "int \<Rightarrow> int" where
  "wrap64 x = signed_take_bit 63 x"

lemma wrap64_id: "- (2 ^ 63) \<le> x \<Longrightarrow> x < 2 ^ 63 \<Longrightarrow> wrap64 x = x"
  by (simp add: wrap64_def signed_take_bit_int_eq_self)

lemma wrap64_id_nonneg [simp]: "0 \<le> x \<Longrightarrow> x \<le> 9223372036854775807 \<Longrightarrow> wrap64 x = x"
  by (rule wrap64_id) simp_all

section \<open>Big-endian integers (encoding/binary)\<close>

definition PutUint16 :: "16 word \<Rightarrow> bytes" where
  "PutUint16 v = [ucast (drop_bit 8 v), ucast v]"

definition PutUint32 :: "32 word \<Rightarrow> bytes" where
  "PutUint32 v = [ucast (drop_bit 24 v), ucast (drop_bit 16 v), ucast (drop_bit 8 v), ucast v]"

text \<open>The readers look at the first bytes of their argument, as the Go functions do.\<close>

fun Uint16 :: "bytes \<Rightarrow> 16 word" where
  "Uint16 (a # b # _) = push_bit 8 (ucast a) OR ucast b"
| "Uint16 _ = 0"

fun Uint32 :: "bytes \<Rightarrow> 32 word" where
  "Uint32 (a # b # c # d # _) =
     push_bit 24 (ucast a) OR push_bit 16 (ucast b) OR push_bit 8 (ucast c) OR ucast d"
| "Uint32 _ = 0"

lemma length_PutUint16 [simp]: "length (PutUint16 v) = 2"
  by (simp add: PutUint16_def)

lemma length_PutUint32 [simp]: "length (PutUint32 v) = 4"
  by (simp add: PutUint32_def)

lemma Uint16_PutUint16 [simp]: "Uint16 (PutUint16 v @ xs) = v"
  unfolding PutUint16_def by (auto intro!: bit_word_eqI simp: bit_simps)

lemma Uint32_PutUint32 [simp]: "Uint32 (PutUint32 v @ xs) = v"
proof (rule bit_word_eqI)
  fix n
  assume "n < LENGTH(32)"
  then consider "n < 8" | "8 \<le> n" "n < 16" | "16 \<le> n" "n < 24" | "24 \<le> n" "n < 32"
    by fastforce
  then show "bit (Uint32 (PutUint32 v @ xs)) n = bit v n"
    by cases (auto simp: PutUint32_def bit_simps)
qed

lemma bit_byte_beyond: "8 \<le> n \<Longrightarrow> \<not> bit (b :: byte) n"
  using bit_imp_le_length [of b n] by auto

lemma PutUint16_Uint16:
  assumes "length xs = 2"
  shows "PutUint16 (Uint16 xs) = xs"
proof -
  from assms obtain a b where xs: "xs = [a, b]"
    by (auto simp: length_Suc_conv numeral_2_eq_2)
  show ?thesis
    unfolding xs PutUint16_def
    by (auto intro!: bit_word_eqI simp: bit_simps bit_byte_beyond)
qed

lemma PutUint32_Uint32:
  assumes "length xs = 4"
  shows "PutUint32 (Uint32 xs) = xs"
proof -
  from assms obtain a b c d where xs: "xs = [a, b, c, d]"
    by (auto simp: length_Suc_conv numeral_eq_Suc)
  show ?thesis
    unfolding xs PutUint32_def
    by (auto intro!: bit_word_eqI simp: bit_simps bit_byte_beyond)
qed

text \<open>The 64-bit versions are two 32-bit halves.\<close>

definition PutUint64 :: "64 word \<Rightarrow> bytes" where
  "PutUint64 v = PutUint32 (ucast (drop_bit 32 v)) @ PutUint32 (ucast v)"

definition Uint64 :: "bytes \<Rightarrow> 64 word" where
  "Uint64 b = push_bit 32 (ucast (Uint32 b)) OR ucast (Uint32 (drop 4 b))"

lemma length_PutUint64 [simp]: "length (PutUint64 v) = 8"
  by (simp add: PutUint64_def)

lemma Uint64_PutUint64 [simp]: "Uint64 (PutUint64 v @ xs) = v"
proof (rule bit_word_eqI)
  fix n
  assume "n < LENGTH(64)"
  then show "bit (Uint64 (PutUint64 v @ xs)) n = bit v n"
    using Uint32_PutUint32 [of "ucast v" xs] by (auto simp: Uint64_def PutUint64_def bit_simps)
qed

lemma drop_PutUint64 [simp]: "drop 8 (PutUint64 v @ xs) = xs"
  by simp

section \<open>Slices\<close>

text \<open>
  The Go idiom for filtering a slice without allocating:
  \<^verbatim>\<open>
  filtered := xs[:0]
  for _, x := range xs { if keep(x) { filtered = append(filtered, x) } }
  \<close>
  The slice \<open>filtered\<close> shares the array of \<open>xs\<close>, so each \<open>append\<close> overwrites the array that
  the loop is reading. Here \<open>arr\<close> is the shared array, \<open>i\<close> the read index and \<open>j\<close> the
  length of \<open>filtered\<close>.
\<close>

function filter_loop :: "('a \<Rightarrow> bool) \<Rightarrow> 'a list \<Rightarrow> nat \<Rightarrow> nat \<Rightarrow> 'a list \<times> nat" where
  "filter_loop keep arr i j =
     (if i < length arr
      then if keep (arr ! i)
           then filter_loop keep (arr[j := arr ! i]) (Suc i) (Suc j)
           else filter_loop keep arr (Suc i) j
      else (arr, j))"
  by pat_completeness auto
termination
  by (relation "measure (\<lambda>(keep, arr, i, j). length arr - i)") auto

declare filter_loop.simps [simp del]

definition filter_in_place :: "('a \<Rightarrow> bool) \<Rightarrow> 'a list \<Rightarrow> 'a list" where
  "filter_in_place keep xs = (case filter_loop keep xs 0 0 of (arr, j) \<Rightarrow> take j arr)"

text \<open>
  The write index never passes the read index, so the unread part of the array is intact and
  the loop computes the ordinary filter.
\<close>

lemma filter_loop_correct:
  assumes "j \<le> i" and "i \<le> length arr"
  shows "(case filter_loop keep arr i j of (a, k) \<Rightarrow> take k a)
    = take j arr @ filter keep (drop i arr)"
  using assms
proof (induction keep arr i j rule: filter_loop.induct)
  case (1 keep arr i j)
  show ?case
  proof (cases "i < length arr")
    case False
    with "1.prems" have "i = length arr" by simp
    with "1.prems" show ?thesis
      by (simp add: filter_loop.simps)
  next
    case True
    then have dr: "drop i arr = arr ! i # drop (Suc i) arr"
      by (rule Cons_nth_drop_Suc [symmetric])
    have tk: "take (Suc j) (arr[j := arr ! i]) = take j arr @ [arr ! i]"
      using True "1.prems" by (simp add: take_Suc_conv_app_nth)
    have un: "drop (Suc i) (arr[j := arr ! i]) = drop (Suc i) arr"
      using "1.prems" by simp
    show ?thesis
      using True "1.prems" "1.IH" dr tk un
      by (simp add: filter_loop.simps [of keep arr i j])
  qed
qed

lemma filter_in_place_eq [simp]: "filter_in_place keep xs = filter keep xs"
  using filter_loop_correct [of 0 0 xs keep] by (simp add: filter_in_place_def)

text \<open>
  \<^verbatim>\<open>for i, x := range xs { if x == y { xs = append(xs[:i], xs[i+1:]...); break } }\<close>
  removes the first occurrence of \<open>y\<close>.
\<close>

fun delete_first :: "nat \<Rightarrow> 'a \<Rightarrow> 'a list \<Rightarrow> 'a list \<Rightarrow> 'a list" where
  "delete_first i y xs [] = xs"
| "delete_first i y xs (x # rest) =
     (if x = y then take i xs @ drop (Suc i) xs else delete_first (Suc i) y xs rest)"

lemma delete_first_eq: "delete_first (length ps) y (ps @ rest) rest = ps @ remove1 y rest"
proof (induction rest arbitrary: ps)
  case Nil
  then show ?case by simp
next
  case (Cons x rest)
  show ?case
    using Cons.IH [of "ps @ [x]"] by simp
qed

lemma delete_first_remove1 [simp]: "delete_first 0 y xs xs = remove1 y xs"
  using delete_first_eq [of "[]" y xs] by simp

lemma filter_neq_id: "y \<notin> set xs \<Longrightarrow> filter (\<lambda>x. x \<noteq> y) xs = xs"
  by (induction xs) auto

lemma remove1_filter_neq: "distinct xs \<Longrightarrow> remove1 y xs = filter (\<lambda>x. x \<noteq> y) xs"
  by (induction xs) (auto simp: filter_neq_id)

text \<open>\<open>copy(out[off:], src)\<close>: overwrite from an offset, at most to the end.\<close>

definition copy_at :: "nat \<Rightarrow> 'a list \<Rightarrow> 'a list \<Rightarrow> 'a list" where
  "copy_at off src dst =
     take off dst @ take (length dst - off) src @ drop (off + length src) dst"

section \<open>Division\<close>

text \<open>Go's integer division truncates towards zero.\<close>

definition go_div :: "int \<Rightarrow> int \<Rightarrow> int" where
  "go_div a b = sgn a * sgn b * (\<bar>a\<bar> div \<bar>b\<bar>)"

lemma go_div_nonneg: "0 \<le> a \<Longrightarrow> 0 < b \<Longrightarrow> go_div a b = a div b"
  by (cases "a = 0") (simp_all add: go_div_def)

section \<open>Maps\<close>

text \<open>
  A Go map is an association list with distinct keys: \<open>m[k] = v\<close> is \<^const>\<open>AList.update\<close>,
  \<open>delete(m, k)\<close> is \<^const>\<open>AList.delete\<close>, a lookup is \<^const>\<open>map_of\<close>. A \<open>range\<close> loop visits the
  entries in list order, which stands for the unspecified order of the Go runtime.
\<close>

type_synonym ('k, 'v) gomap = "('k \<times> 'v) list"

abbreviation keys :: "('k, 'v) gomap \<Rightarrow> 'k list" where
  "keys m \<equiv> map fst m"

text \<open>Indexing a map with a missing key gives the zero value of the element type.\<close>

definition map_index :: "'v \<Rightarrow> ('k, 'v) gomap \<Rightarrow> 'k \<Rightarrow> 'v" where
  "map_index zero m k = (case map_of m k of None \<Rightarrow> zero | Some v \<Rightarrow> v)"

lemma map_of_update [simp]: "map_of (AList.update k v m) = (map_of m)(k \<mapsto> v)"
  by (rule update_conv')

lemma map_of_delete [simp]: "map_of (AList.delete k m) = (map_of m)(k := None)"
  by (rule delete_conv')

declare map_of_eq_Some_iff [simp del] Some_eq_map_of_iff [simp del]

lemma distinct_keys_update [simp]: "distinct (keys m) \<Longrightarrow> distinct (keys (AList.update k v m))"
  by (rule distinct_update)

lemma distinct_keys_delete [simp]: "distinct (keys m) \<Longrightarrow> distinct (keys (AList.delete k m))"
  by (rule distinct_delete)

section \<open>Buffered channels\<close>

record 'a chan =
  chan_buf :: "'a list"
  chan_cap :: nat
  chan_closed :: bool

datatype send_result = Sent | Full | SendPanic

definition make_chan :: "nat \<Rightarrow> 'a chan" where
  "make_chan n = \<lparr>chan_buf = [], chan_cap = n, chan_closed = False\<rparr>"

text \<open>
  \<^verbatim>\<open>select { case ch <- v: ... default: ... }\<close>: a send that never blocks. It panics on a
  closed channel.
\<close>

definition try_send :: "'a \<Rightarrow> 'a chan \<Rightarrow> 'a chan \<times> send_result" where
  "try_send v c =
     (if chan_closed c then (c, SendPanic)
      else if length (chan_buf c) < chan_cap c
      then (c\<lparr>chan_buf := chan_buf c @ [v]\<rparr>, Sent)
      else (c, Full))"

text \<open>A receive takes the oldest value; \<^const>\<open>None\<close> when the buffer is empty.\<close>

definition try_recv :: "'a chan \<Rightarrow> ('a \<times> 'a chan) option" where
  "try_recv c = (case chan_buf c of [] \<Rightarrow> None | v # vs \<Rightarrow> Some (v, c\<lparr>chan_buf := vs\<rparr>))"

definition chan_ok :: "'a chan \<Rightarrow> bool" where
  "chan_ok c \<longleftrightarrow> length (chan_buf c) \<le> chan_cap c"

text \<open>What a client of a bounded queue relies on.\<close>

locale bounded_fifo =
  fixes send :: "'a \<Rightarrow> 'q \<Rightarrow> 'q \<times> send_result"
    and recv :: "'q \<Rightarrow> ('a \<times> 'q) option"
    and contents :: "'q \<Rightarrow> 'a list"
    and bound :: "'q \<Rightarrow> nat"
    and ok :: "'q \<Rightarrow> bool"
  assumes send_sent: "send v q = (q', Sent) \<Longrightarrow> contents q' = contents q @ [v]"
    and send_other: "send v q = (q', r) \<Longrightarrow> r \<noteq> Sent \<Longrightarrow> q' = q"
    and send_ok: "ok q \<Longrightarrow> send v q = (q', r) \<Longrightarrow> ok q' \<and> bound q' = bound q"
    and recv_some: "recv q = Some (v, q') \<Longrightarrow> contents q = v # contents q'"
    and recv_none: "recv q = None \<longleftrightarrow> contents q = []"
    and recv_ok: "ok q \<Longrightarrow> recv q = Some (v, q') \<Longrightarrow> ok q' \<and> bound q' = bound q"
    and ok_bound: "ok q \<Longrightarrow> length (contents q) \<le> bound q"
begin

text \<open>A script of sends (\<^term>\<open>Some v\<close>) and receives (\<^const>\<open>None\<close>): what was accepted, what came out.\<close>

fun run :: "'a option list \<Rightarrow> 'q \<Rightarrow> 'a list \<times> 'a list \<times> 'q" where
  "run [] q = ([], [], q)"
| "run (Some v # ops) q =
     (case send v q of (q', r) \<Rightarrow>
      case run ops q' of (acc, out, q'') \<Rightarrow> (if r = Sent then v # acc else acc, out, q''))"
| "run (None # ops) q =
     (case recv q of
        None \<Rightarrow> run ops q
      | Some (v, q') \<Rightarrow> case run ops q' of (acc, out, q'') \<Rightarrow> (acc, v # out, q''))"

lemma run_fifo:
  "run ops q = (acc, out, q') \<Longrightarrow> contents q @ acc = out @ contents q'"
proof (induction ops q arbitrary: acc out rule: run.induct)
  case (1 q)
  then show ?case by simp
next
  case (2 v ops q)
  obtain q1 r where s: "send v q = (q1, r)" by fastforce
  obtain a o1 q2 where rn: "run ops q1 = (a, o1, q2)" by (cases "run ops q1") auto
  have ih: "contents q1 @ a = o1 @ contents q2"
    using "2.IH" [OF s [symmetric]] rn s "2.prems" by simp
  show ?case
    using "2.prems" ih s rn send_sent [of v q q1] send_other [of v q q1 r]
    by (auto split: if_splits)
next
  case (3 ops q)
  show ?case
  proof (cases "recv q")
    case None
    with 3 show ?thesis by simp
  next
    case (Some p)
    then obtain v q1 where s: "recv q = Some (v, q1)" by (cases p) auto
    obtain a o1 q2 where rn: "run ops q1 = (a, o1, q2)" by (cases "run ops q1") auto
    have "contents q1 @ a = o1 @ contents q2"
      using "3.IH"(2) [OF s refl] rn s "3.prems" by simp
    with "3.prems" s rn recv_some [OF s] show ?thesis by auto
  qed
qed

lemma run_bounded:
  "ok q \<Longrightarrow> run ops q = (acc, out, q') \<Longrightarrow> length (contents q') \<le> bound q"
proof (induction ops q arbitrary: acc out rule: run.induct)
  case (1 q)
  then show ?case by (simp add: ok_bound)
next
  case (2 v ops q)
  then show ?case
    by (auto split: prod.splits dest: send_ok)
next
  case (3 ops q)
  then show ?case
    by (auto split: prod.splits option.splits dest: recv_ok)
qed

end

interpretation ch: bounded_fifo try_send try_recv chan_buf chan_cap chan_ok
  by unfold_locales
    (auto simp: try_send_def try_recv_def chan_ok_def split: if_splits list.splits)

section \<open>Transition systems and invariants\<close>

inductive reach :: "('s \<Rightarrow> bool) \<Rightarrow> ('s \<Rightarrow> 's \<Rightarrow> bool) \<Rightarrow> 's \<Rightarrow> bool"
  for start :: "'s \<Rightarrow> bool" and step :: "'s \<Rightarrow> 's \<Rightarrow> bool" where
  reach_start: "start s \<Longrightarrow> reach start step s"
| reach_step: "reach start step s \<Longrightarrow> step s t \<Longrightarrow> reach start step t"

lemma reach_steps: "step\<^sup>*\<^sup>* s t \<Longrightarrow> reach start step s \<Longrightarrow> reach start step t"
  by (induction rule: rtranclp_induct) (auto intro: reach_step)

text \<open>An inductive invariant of a transition system holds in every reachable state.\<close>

locale invariant_system =
  fixes start :: "'s \<Rightarrow> bool" and step :: "'s \<Rightarrow> 's \<Rightarrow> bool" and inv :: "'s \<Rightarrow> bool"
  assumes inv_start: "start s \<Longrightarrow> inv s"
    and inv_step: "inv s \<Longrightarrow> step s t \<Longrightarrow> inv t"
begin

lemma reach_inv: "reach start step s \<Longrightarrow> inv s"
  by (induction rule: reach.induct) (auto intro: inv_start inv_step)

lemma steps_inv: "step\<^sup>*\<^sup>* s t \<Longrightarrow> inv s \<Longrightarrow> inv t"
  by (induction rule: rtranclp_induct) (auto intro: inv_step)

end

end
