(* ===== verification/Go_Strings.thy ===== *)
theory Go_Strings
  imports KCPQ_Prelude
begin

text \<open>
  The functions of the Go packages \<open>strings\<close> and \<open>fmt\<close> that KCPQ uses, and the view of a
  subject as its list of dot-separated segments: \<open>Split\<close> is a bijection between strings and
  non-empty lists of dot-free segments, and prefix and suffix tests on strings become prefix
  and suffix tests on segment lists.
\<close>

section \<open>The package strings\<close>

definition HasPrefix :: "string \<Rightarrow> string \<Rightarrow> bool" where
  "HasPrefix s p \<longleftrightarrow> length p \<le> length s \<and> take (length p) s = p"

definition HasSuffix :: "string \<Rightarrow> string \<Rightarrow> bool" where
  "HasSuffix s p \<longleftrightarrow> length p \<le> length s \<and> drop (length s - length p) s = p"

definition TrimPrefix :: "string \<Rightarrow> string \<Rightarrow> string" where
  "TrimPrefix s p = (if HasPrefix s p then drop (length p) s else s)"

definition TrimSuffix :: "string \<Rightarrow> string \<Rightarrow> string" where
  "TrimSuffix s p = (if HasSuffix s p then take (length s - length p) s else s)"

fun Contains :: "string \<Rightarrow> string \<Rightarrow> bool" where
  "Contains [] p = (p = [])"
| "Contains (c # s) p = (HasPrefix (c # s) p \<or> Contains s p)"

text \<open>\<open>strings.Split(s, sep)\<close> for a separator of one byte.\<close>

fun Split :: "string \<Rightarrow> char \<Rightarrow> string list" where
  "Split [] sep = [[]]"
| "Split (c # s) sep =
     (if c = sep then [] # Split s sep
      else case Split s sep of [] \<Rightarrow> [[c]] | t # ts \<Rightarrow> (c # t) # ts)"

abbreviation dot :: char where
  "dot \<equiv> CHR ''.''"

abbreviation segments :: "string \<Rightarrow> string list" where
  "segments s \<equiv> Split s dot"

lemma HasPrefix_iff: "HasPrefix s p \<longleftrightarrow> (\<exists>t. s = p @ t)"
  unfolding HasPrefix_def by (metis append_eq_conv_conj append_take_drop_id linorder_le_cases
      take_all_iff length_append le_add1)

lemma HasSuffix_iff: "HasSuffix s p \<longleftrightarrow> (\<exists>t. s = t @ p)"
proof
  assume "HasSuffix s p"
  then show "\<exists>t. s = t @ p"
    unfolding HasSuffix_def by (metis append_take_drop_id)
qed (auto simp: HasSuffix_def)

lemma TrimPrefix_append [simp]: "TrimPrefix (p @ s) p = s"
  by (simp add: TrimPrefix_def HasPrefix_def)

lemma TrimSuffix_append [simp]: "TrimSuffix (s @ p) p = s"
  by (simp add: TrimSuffix_def HasSuffix_def)

lemma HasPrefix_append [simp]: "HasPrefix (p @ s) p"
  by (simp add: HasPrefix_def)

lemma HasSuffix_append [simp]: "HasSuffix (s @ p) p"
  by (simp add: HasSuffix_def)

lemma Contains_iff: "Contains s p \<longleftrightarrow> (\<exists>u v. s = u @ p @ v)"
proof (induction s p rule: Contains.induct)
  case (1 p)
  then show ?case by auto
next
  case (2 c s p)
  show ?case
    using "2" by (auto simp: HasPrefix_iff Cons_eq_append_conv)
qed

lemma Contains_char: "Contains s [c] \<longleftrightarrow> c \<in> set s"
  unfolding Contains_iff by (simp add: in_set_conv_decomp)

section \<open>Segments\<close>

lemma Split_nonempty [simp]: "Split s sep \<noteq> []"
  by (induction s) (auto split: list.splits)

lemma length_Split_pos [simp]: "0 < length (Split s sep)"
  by simp

lemma Split_append_sep [split_simps]: "Split (a @ sep # b) sep = Split a sep @ Split b sep"
  by (induction a) (auto split: list.splits)

lemma Split_no_sep [split_simps]: "sep \<notin> set s \<Longrightarrow> Split s sep = [s]"
  by (induction s) auto

fun join :: "char \<Rightarrow> string list \<Rightarrow> string" where
  "join sep [] = []"
| "join sep [t] = t"
| "join sep (t # u # ts) = t @ sep # join sep (u # ts)"

lemma join_Split [simp]: "join sep (Split s sep) = s"
proof (induction s)
  case Nil
  then show ?case by simp
next
  case (Cons c s)
  obtain t ts where s: "Split s sep = t # ts"
    by (cases "Split s sep") auto
  with Cons show ?case by (cases ts) auto
qed

lemma Split_inject [simp]: "Split s sep = Split t sep \<longleftrightarrow> s = t"
  by (metis join_Split)

lemma segment_no_sep: "t \<in> set (Split s sep) \<Longrightarrow> sep \<notin> set t"
proof (induction s arbitrary: t)
  case Nil
  then show ?case by simp
next
  case (Cons c s)
  obtain u us where s: "Split s sep = u # us"
    by (cases "Split s sep") auto
  with Cons show ?case by (auto split: if_splits)
qed

lemma join_append:
  "xs \<noteq> [] \<Longrightarrow> ys \<noteq> [] \<Longrightarrow> join sep (xs @ ys) = join sep xs @ sep # join sep ys"
proof (induction xs)
  case Nil
  then show ?case by simp
next
  case (Cons x xs)
  then show ?case by (cases xs; cases ys) auto
qed

text \<open>A subject extends another by whole segments exactly when its segment list does.\<close>

lemma prefix_segments_iff [split_simps]:
  "prefix (Split p sep) (Split s sep) \<longleftrightarrow> s = p \<or> HasPrefix s (p @ [sep])"
proof
  assume "prefix (Split p sep) (Split s sep)"
  then obtain zs where zs: "Split s sep = Split p sep @ zs" by (auto elim: prefixE)
  show "s = p \<or> HasPrefix s (p @ [sep])"
  proof (cases zs)
    case Nil
    with zs show ?thesis by simp
  next
    case (Cons z zs')
    have "s = join sep (Split p sep @ zs)"
      using zs by (metis join_Split)
    also have "\<dots> = p @ sep # join sep zs"
      using Cons by (simp add: join_append)
    finally show ?thesis by (simp add: HasPrefix_iff)
  qed
next
  assume "s = p \<or> HasPrefix s (p @ [sep])"
  then show "prefix (Split p sep) (Split s sep)"
    by (auto simp: HasPrefix_iff Split_append_sep)
qed

lemma HasSuffix_multi_iff [split_simps]:
  "HasSuffix p ''.>'' \<longleftrightarrow> 2 \<le> length (segments p) \<and> last (segments p) = ''>''"
proof
  assume "HasSuffix p ''.>''"
  then obtain q where "p = q @ ''.>''" by (auto simp: HasSuffix_iff)
  then have "segments p = segments q @ [''>'']"
    using Split_append_sep [of q dot "''>''"] by simp
  then show "2 \<le> length (segments p) \<and> last (segments p) = ''>''"
    using length_Split_pos [of q dot] by (simp del: length_Split_pos length_greater_0_conv)
next
  assume h: "2 \<le> length (segments p) \<and> last (segments p) = ''>''"
  then have ne: "butlast (segments p) \<noteq> []"
    by (cases "segments p") auto
  have "segments p = butlast (segments p) @ [''>'']"
    using h by (metis Split_nonempty append_butlast_last_id)
  then have "p = join dot (butlast (segments p) @ [''>''])"
    by (metis join_Split)
  also have "\<dots> = join dot (butlast (segments p)) @ ''.>''"
    using ne by (simp add: join_append)
  finally show "HasSuffix p ''.>''"
    by (metis HasSuffix_append)
qed

lemma segments_TrimSuffix_multi [split_simps]:
  assumes "HasSuffix p ''.>''"
  shows "segments (TrimSuffix p ''.>'') = butlast (segments p)"
proof -
  from assms obtain q where q: "p = q @ ''.>''" by (auto simp: HasSuffix_iff)
  then have "segments p = segments q @ [''>'']"
    using Split_append_sep [of q dot "''>''"] by simp
  then show ?thesis
    using q by (simp add: butlast_append)
qed

lemma Contains_segment: "c \<noteq> sep \<Longrightarrow> [c] \<in> set (Split s sep) \<Longrightarrow> Contains s [c]"
proof (induction s)
  case Nil
  then show ?case by simp
next
  case (Cons d s)
  obtain u us where s: "Split s sep = u # us"
    by (cases "Split s sep") auto
  with Cons show ?case by (auto simp: Contains_char split: if_splits)
qed

section \<open>Decimal printing\<close>

fun dec :: "nat \<Rightarrow> string" where
  "dec n = (if n < 10 then [char_of (48 + n)] else dec (n div 10) @ [char_of (48 + n mod 10)])"

declare dec.simps [simp del]

lemma dec_nonempty [simp]: "dec n \<noteq> []"
  by (subst dec.simps) simp

text \<open>The verb \<open>%d\<close> on a signed integer.\<close>

definition dec_int :: "int \<Rightarrow> string" where
  "dec_int n = (if n < 0 then ''-'' @ dec (nat (- n)) else dec (nat n))"

end
