(* ===== verification/Echo_Test.thy ===== *)
theory Echo_Test
  imports Go_Strings
begin

text \<open>
  The two programs of \<open>src/test_simple\<close>, an echo server and its client over a bare KCP connection. The
  connection belongs to package kcp: what each \<open>Read\<close> and \<open>Write\<close> returns is an argument, in the order of
  the calls, a successful read giving the bytes \<open>buf[:n]\<close>. Arguments that run out stand for a call that is
  still blocked.
\<close>

section \<open>Definitions\<close>

text \<open>The settings of a connection: those of \<open>SetNoDelay\<close>, \<open>SetWindowSize\<close>, \<open>SetWriteDelay\<close> and \<open>SetStreamMode\<close>.\<close>

record kcp_options =
  noDelay :: "int \<times> int \<times> int \<times> int"
  windowSize :: "int \<times> int"
  writeDelay :: bool
  streamMode :: bool

definition echo_options :: kcp_options where
  "echo_options = \<lparr>noDelay = (1, 20, 2, 1), windowSize = (128, 128), writeDelay = False, streamMode = False\<rparr>"

record echo_conn =
  options :: kcp_options
  written :: "bytes list"
  printed :: "string list"
  conn_open :: bool

abbreviation say :: "string \<Rightarrow> echo_conn \<Rightarrow> echo_conn" where
  "say line c \<equiv> c\<lparr>printed := printed c @ [line]\<rparr>"

text \<open>The server's loop on one connection; leaving it runs the deferred \<open>conn.Close\<close>.\<close>

fun handleConnection :: "((string + bytes) \<times> string option) list \<Rightarrow> echo_conn \<Rightarrow> echo_conn" where
  "handleConnection [] c = c"
| "handleConnection ((Inl err, _) # rs) c = (say (''Read error: '' @ err) c)\<lparr>conn_open := False\<rparr>"
| "handleConnection ((Inr dat, writeErr) # rs) c =
     (let n = length dat;
          c1 = say (''[SERVER] Received '' @ dec n @ '' bytes: '' @ string_of dat) c
      in case writeErr of
           Some err \<Rightarrow> (say (''Write error: '' @ err) c1)\<lparr>conn_open := False\<rparr>
         | None \<Rightarrow> handleConnection rs (say (''[SERVER] Echoed '' @ dec n @ '' bytes'') (c1\<lparr>written := written c1 @ [dat]\<rparr>)))"

text \<open>
  The server's main function: every accepted connection gets the options and its own goroutine, whose calls
  are the argument; an error of \<open>AcceptKCP\<close> is logged and the loop goes on.
\<close>

fun echo_accept :: "(string + ((string + bytes) \<times> string option) list) list \<Rightarrow> echo_conn list \<times> string list \<Rightarrow>
    echo_conn list \<times> string list" where
  "echo_accept [] st = st"
| "echo_accept (Inl err # as) (conns, logged) = echo_accept as (conns, logged @ [''Accept error: '' @ err])"
| "echo_accept (Inr rs # as) (conns, logged) =
     echo_accept as
       (conns @ [handleConnection rs \<lparr>options = echo_options, written = [], printed = [], conn_open = True\<rparr>], logged)"

definition echo_server_main :: "string + unit \<Rightarrow> (string + ((string + bytes) \<times> string option) list) list \<Rightarrow>
    string + echo_conn list \<times> string list" where
  "echo_server_main listen accepts =
     (case listen of
        Inl err \<Rightarrow> Inl err
      | Inr _ \<Rightarrow> Inr (echo_accept accepts ([], [''KCP Echo Server listening on :4000''])))"

section \<open>The client\<close>

definition echo_messages :: "string list" where
  "echo_messages = [''Hello KCP!'', ''Test message 2'', ''Test message 3'']"

text \<open>
  The loop over the messages; each round has the error of its \<open>Write\<close> and the result of its \<open>Read\<close>. The
  result is \<^const>\<open>None\<close> for a run that still waits, and otherwise says whether the test completed.
\<close>

fun echo_loop :: "string list \<Rightarrow> (string option \<times> (string + bytes)) list \<Rightarrow> echo_conn \<Rightarrow> bool option \<times> echo_conn" where
  "echo_loop [] rs c = (Some True, (say ''Test completed'' c)\<lparr>conn_open := False\<rparr>)"
| "echo_loop (msg # ms) [] c = (None, c)"
| "echo_loop (msg # ms) ((writeErr, result) # rs) c =
     (let dat = bytes_of msg;
          c1 = say (''[CLIENT] Sending: '' @ msg @ '' ('' @ dec (length dat) @ '' bytes)'') c
      in case writeErr of
           Some err \<Rightarrow> (Some False, (say (''Write error: '' @ err) c1)\<lparr>conn_open := False\<rparr>)
         | None \<Rightarrow>
             let c2 = say (''[CLIENT] Wrote '' @ dec (length dat) @ '' bytes'') (c1\<lparr>written := written c1 @ [dat]\<rparr>)
             in case result of
                  Inl err \<Rightarrow> (Some False, (say (''Read error: '' @ err) c2)\<lparr>conn_open := False\<rparr>)
                | Inr buf \<Rightarrow>
                    echo_loop ms rs
                      (say ''---'' (say (''[CLIENT] Received echo: '' @ string_of buf @ '' ('' @ dec (length buf) @ '' bytes)'') c2)))"

definition echo_client_main :: "string + unit \<Rightarrow> (string option \<times> (string + bytes)) list \<Rightarrow> string + bool option \<times> echo_conn" where
  "echo_client_main dialed rs =
     (case dialed of
        Inl err \<Rightarrow> Inl err
      | Inr _ \<Rightarrow>
          Inr (echo_loop echo_messages rs
                 \<lparr>options = echo_options, written = [], printed = [''Connected to server''], conn_open = True\<rparr>))"

section \<open>The echo\<close>

text \<open>The server writes what it read, in that order, up to the first error.\<close>

fun echoed :: "((string + bytes) \<times> string option) list \<Rightarrow> bytes list" where
  "echoed ((Inr dat, None) # rs) = dat # echoed rs"
| "echoed _ = []"

lemma handleConnection_written: "written (handleConnection rs c) = written c @ echoed rs"
  by (induction rs c rule: handleConnection.induct) (simp_all add: Let_def split: option.split)

lemma handleConnection_open:
  "conn_open c \<Longrightarrow> conn_open (handleConnection rs c) \<longleftrightarrow> list_all (\<lambda>(r, e). isl r = False \<and> e = None) rs"
  by (induction rs c rule: handleConnection.induct) (simp_all add: Let_def split: option.split)

lemma echoed_reliable: "echoed (map (\<lambda>d. (Inr d, None)) ds) = ds"
  by (induction ds) simp_all

text \<open>The client writes its messages in order, and stops with the first error.\<close>

lemma echo_loop_written:
  "\<exists>k. written (snd (echo_loop ms rs c)) = written c @ map bytes_of (take k ms)"
proof (induction ms rs c rule: echo_loop.induct)
  case (3 msg ms writeErr result rs c)
  show ?case
  proof (cases writeErr)
    case (Some err)
    then show ?thesis by (auto simp: Let_def intro: exI [of _ 0])
  next
    case None
    show ?thesis
    proof (cases result)
      case (Inl err)
      then show ?thesis using None by (auto simp: Let_def intro: exI [of _ 1])
    next
      case (Inr buf)
      obtain k where "written (snd (echo_loop (msg # ms) ((writeErr, result) # rs) c)) =
          written c @ bytes_of msg # map bytes_of (take k ms)"
        using 3 [OF refl refl None refl Inr] None Inr by (auto simp: Let_def)
      then show ?thesis by (intro exI [of _ "Suc k"]) simp
    qed
  qed
qed (auto intro: exI [of _ 0])

text \<open>The lines that a round of the client prints when the echo is right.\<close>

definition round_lines :: "string \<Rightarrow> string list" where
  "round_lines msg =
     [''[CLIENT] Sending: '' @ msg @ '' ('' @ dec (length msg) @ '' bytes)'',
      ''[CLIENT] Wrote '' @ dec (length msg) @ '' bytes'',
      ''[CLIENT] Received echo: '' @ msg @ '' ('' @ dec (length msg) @ '' bytes)'', ''---'']"

lemma echo_loop_reliable:
  "echo_loop ms (map (\<lambda>d. (None, Inr d)) (map bytes_of ms)) c =
     (Some True, c\<lparr>written := written c @ map bytes_of ms,
        printed := printed c @ concat (map round_lines ms) @ [''Test completed''], conn_open := False\<rparr>)"
  by (induction ms arbitrary: c) (simp_all add: Let_def round_lines_def)

text \<open>
  Over a connection that delivers what is written, whole and in order, the two programs complete: the
  server's reads are the client's messages, its writes are what the client reads, and the client prints
  every message as its own echo.
\<close>

lemma echo_round_trip:
  "\<exists>srv cli. echo_server_main (Inr ()) [Inr (map (\<lambda>d. (Inr d, None)) (map bytes_of echo_messages))] =
       Inr ([srv], [''KCP Echo Server listening on :4000'']) \<and>
     echo_client_main (Inr ()) (map (\<lambda>d. (None, Inr d)) (written srv)) = Inr (Some True, cli) \<and>
     written cli = map bytes_of echo_messages \<and> conn_open srv \<and> \<not> conn_open cli \<and>
     printed cli = ''Connected to server'' # concat (map round_lines echo_messages) @ [''Test completed'']"
proof -
  let ?c = "\<lparr>options = echo_options, written = [], printed = [], conn_open = True\<rparr>"
  let ?rs = "map (\<lambda>d. (Inr d :: string + bytes, None :: string option)) (map bytes_of echo_messages)"
  have w: "written (handleConnection ?rs ?c) = map bytes_of echo_messages"
    unfolding handleConnection_written echoed_reliable by simp
  have o: "conn_open (handleConnection ?rs ?c)"
    by (subst handleConnection_open) (simp_all add: list_all_iff)
  show ?thesis
    using w o echo_loop_reliable [of echo_messages]
    by (simp add: echo_server_main_def echo_client_main_def del: map_map)
qed

end
