(* ===== verification/Protocol.thy ===== *)
theory Protocol
  imports Go_Strings
begin

text \<open>
  The wire protocol, \<open>src/protocol/protocol.go\<close>: the commands, the message struct, its
  encoder and the two parsers (\<open>ParseWithRemaining\<close> on a slice, \<open>ParseFromReader\<close> on a
  stream). Slices carry their backing array, so that a slice expression that reaches past
  the length but not past the capacity is what it is in Go, and one past the capacity is a
  panic. The lemmas show that encoding and parsing are inverse to each other, that the two
  parsers agree, that no input makes them panic, and that a stream of messages is cut back
  into those messages.
\<close>

section \<open>Constants and messages\<close>

definition MaxSubjectLen :: nat where
  "MaxSubjectLen = 4 * 1024"

definition MaxBodyLen :: nat where
  "MaxBodyLen = 8 * 1024 * 1024"

definition CmdSub :: byte where "CmdSub = 0x01"
definition CmdUnsub :: byte where "CmdUnsub = 0x02"
definition CmdPub :: byte where "CmdPub = 0x03"
definition CmdMsg :: byte where "CmdMsg = 0x04"
definition CmdPing :: byte where "CmdPing = 0x05"
definition CmdPong :: byte where "CmdPong = 0x06"
definition CmdOk :: byte where "CmdOk = 0x07"
definition CmdErr :: byte where "CmdErr = 0x08"

lemmas cmd_defs = CmdSub_def CmdUnsub_def CmdPub_def CmdMsg_def CmdPing_def CmdPong_def
  CmdOk_def CmdErr_def

record message =
  Command :: byte
  Subject :: string
  Payload :: bytes

definition NewMessageCmd :: "byte \<Rightarrow> string \<Rightarrow> bytes \<Rightarrow> message" where
  "NewMessageCmd command subject payload =
     \<lparr>Command = command, Subject = subject, Payload = payload\<rparr>"

definition cmdStringToByte :: "string \<Rightarrow> byte" where
  "cmdStringToByte cmdStr =
     (if cmdStr = ''SUB'' then CmdSub
      else if cmdStr = ''UNSUB'' then CmdUnsub
      else if cmdStr = ''PUB'' then CmdPub
      else if cmdStr = ''MSG'' then CmdMsg
      else if cmdStr = ''PING'' then CmdPing
      else if cmdStr = ''PONG'' then CmdPong
      else if cmdStr = ''OK'' then CmdOk
      else if cmdStr = ''ERR'' then CmdErr
      else 0)"

definition NewMessage :: "string \<Rightarrow> string \<Rightarrow> bytes \<Rightarrow> message" where
  "NewMessage commandStr subject payload =
     (let cmd = cmdStringToByte commandStr in NewMessageCmd cmd subject payload)"

definition cmdByteToString :: "byte \<Rightarrow> string" where
  "cmdByteToString cmd =
     (if cmd = CmdSub then ''SUB''
      else if cmd = CmdUnsub then ''UNSUB''
      else if cmd = CmdPub then ''PUB''
      else if cmd = CmdMsg then ''MSG''
      else if cmd = CmdPing then ''PING''
      else if cmd = CmdPong then ''PONG''
      else if cmd = CmdOk then ''OK''
      else if cmd = CmdErr then ''ERR''
      else ''UNKNOWN('' @ dec (unat cmd) @ '')'')"

definition message_String :: "message \<Rightarrow> string" where
  "message_String m =
     ''['' @ cmdByteToString (Command m) @ ''] '' @ Subject m @
     '' ('' @ dec (length (Payload m)) @ '' bytes)''"

section \<open>Encoding\<close>

text \<open>
  The buffer is allocated with its final length and filled field by field. The conversions
  \<open>uint32(bodyLen)\<close> and \<open>uint16(subjectLen)\<close> keep the low bits only.
\<close>

definition Encode :: "message \<Rightarrow> bytes" where
  "Encode m =
     (let subjectBytes = bytes_of (Subject m);
          subjectLen = length subjectBytes;
          payloadLen = length (Payload m);
          bodyLen = 1 + 2 + subjectLen + payloadLen;
          totalLen = 4 + bodyLen;
          out = replicate totalLen 0;
          out = copy_at 0 (PutUint32 (word_of_nat bodyLen)) out;
          out = out[4 := Command m];
          out = copy_at 5 (PutUint16 (word_of_nat subjectLen)) out;
          out = copy_at 7 subjectBytes out
      in copy_at (7 + subjectLen) (Payload m) out)"

definition body_len :: "message \<Rightarrow> nat" where
  "body_len m = 3 + length (Subject m) + length (Payload m)"

lemma Encode_eq:
  "Encode m = PutUint32 (word_of_nat (body_len m)) @ [Command m] @
     PutUint16 (word_of_nat (length (Subject m))) @ bytes_of (Subject m) @ Payload m"
proof -
  have r: "replicate (4 + (1 + 2 + a + b)) (0::byte) =
      replicate 4 0 @ [0] @ replicate 2 0 @ replicate a 0 @ replicate b 0" for a b
    by (simp add: replicate_add [symmetric] flip: replicate_Suc)
  show ?thesis
    unfolding Encode_def Let_def length_bytes_of r
    by (simp add: copy_at_def body_len_def nth_append list_update_append numeral_eq_Suc
        add.commute add.left_commute)
qed

lemma length_Encode [simp]: "length (Encode m) = 4 + body_len m"
  by (simp add: Encode_eq body_len_def)

text \<open>The messages whose lengths fit the limits of the protocol.\<close>

definition valid_message :: "message \<Rightarrow> bool" where
  "valid_message m \<longleftrightarrow> length (Subject m) \<le> MaxSubjectLen \<and> body_len m \<le> MaxBodyLen"

section \<open>Slices\<close>

text \<open>A Go slice is a window of an array: it starts at \<open>lo\<close> and ends before \<open>hi\<close>.\<close>

record slice =
  arr :: bytes
  lo :: nat
  hi :: nat

definition slice_ok :: "slice \<Rightarrow> bool" where
  "slice_ok s \<longleftrightarrow> lo s \<le> hi s \<and> hi s \<le> length (arr s)"

definition slice_len :: "slice \<Rightarrow> nat" where
  "slice_len s = hi s - lo s"

definition slice_cap :: "slice \<Rightarrow> nat" where
  "slice_cap s = length (arr s) - lo s"

definition slice_bytes :: "slice \<Rightarrow> bytes" where
  "slice_bytes s = take (slice_len s) (drop (lo s) (arr s))"

text \<open>The slice of a whole array.\<close>

definition slice_of :: "bytes \<Rightarrow> slice" where
  "slice_of b = \<lparr>arr = b, lo = 0, hi = length b\<rparr>"

text \<open>\<open>s[i:j]\<close> panics unless \<open>i \<le> j\<close> and \<open>j\<close> is within the capacity; \<open>s[i]\<close> panics outside the length.\<close>

definition subslice :: "slice \<Rightarrow> nat \<Rightarrow> nat \<Rightarrow> slice option" where
  "subslice s i j =
     (if i \<le> j \<and> j \<le> slice_cap s then Some (s\<lparr>lo := lo s + i, hi := lo s + j\<rparr>) else None)"

definition slice_index :: "slice \<Rightarrow> nat \<Rightarrow> byte option" where
  "slice_index s i = (if i < slice_len s then Some (arr s ! (lo s + i)) else None)"

lemmas slice_defs = slice_ok_def slice_len_def slice_cap_def slice_bytes_def

lemma length_slice_bytes [simp]: "slice_ok s \<Longrightarrow> length (slice_bytes s) = slice_len s"
  by (auto simp: slice_defs min_def)

lemma slice_of_ok [simp]: "slice_ok (slice_of b)"
  and slice_bytes_slice_of [simp]: "slice_bytes (slice_of b) = b"
  and slice_len_slice_of [simp]: "slice_len (slice_of b) = length b"
  by (simp_all add: slice_of_def slice_defs)

text \<open>Within its length, a subslice shows the corresponding bytes.\<close>

lemma subslice_within:
  assumes "slice_ok s" and "i \<le> j" and "j \<le> slice_len s"
  obtains t where "subslice s i j = Some t" and "slice_ok t" and "slice_len t = j - i"
    and "slice_bytes t = take (j - i) (drop i (slice_bytes s))"
    and "slice_cap t = slice_cap s - i"
proof
  let ?t = "s\<lparr>lo := lo s + i, hi := lo s + j\<rparr>"
  show "subslice s i j = Some ?t"
    using assms by (auto simp: subslice_def slice_defs)
  show "slice_ok ?t" and "slice_len ?t = j - i" and "slice_cap ?t = slice_cap s - i"
    using assms by (auto simp: slice_defs)
  show "slice_bytes ?t = take (j - i) (drop i (slice_bytes s))"
    using assms by (auto simp: slice_defs drop_take add.commute min_def)
qed

lemma subslice_to_end:
  assumes "slice_ok s" and "i \<le> slice_len s"
  shows "\<exists>t. subslice s i (slice_len s) = Some t \<and> slice_bytes t = drop i (slice_bytes s)"
  using subslice_within [OF assms order_refl] assms(1)
  by (metis length_drop length_slice_bytes order_refl take_all)

lemma slice_index_within:
  "slice_ok s \<Longrightarrow> i < slice_len s \<Longrightarrow> slice_index s i = Some (slice_bytes s ! i)"
  by (auto simp: slice_index_def slice_defs)

section \<open>Parsing a slice\<close>

text \<open>The errors of both parsers, with the numbers their texts print.\<close>

datatype read_error = EOF | ErrUnexpectedEOF | OtherReadError string

datatype proto_error =
    DataTooShort
  | InvalidBodyLength nat
  | IncompleteMessage nat nat
  | InvalidSubjectLength nat int
  | FailedToReadLength read_error
  | FailedToReadMessageData read_error
  | EmptyMessageBody
  | MessageTooShortForSubjectLength

text \<open>
  The result is the message or the error, with the remaining slice; \<^const>\<open>None\<close> is a panic.
  The comparison \<open>subjectLen < 0\<close> of the source is false for a value converted from
  \<open>uint16\<close>, and \<open>bodyLen <= 0\<close> is \<open>bodyLen = 0\<close> for one converted from \<open>uint32\<close>.
\<close>

definition ParseWithRemaining :: "slice \<Rightarrow> ((proto_error + message) \<times> slice) option" where
  "ParseWithRemaining data =
     (if slice_len data < 7 then Some (Inl DataTooShort, data)
      else do {
        hdr \<leftarrow> subslice data 0 4;
        let bodyLen = unat (Uint32 (slice_bytes hdr));
        if bodyLen \<le> 0 \<or> bodyLen > MaxBodyLen
        then Some (Inl (InvalidBodyLength bodyLen), data)
        else let totalPacketLen = bodyLen + 4 in
          if slice_len data < totalPacketLen
          then Some (Inl (IncompleteMessage totalPacketLen (slice_len data)), data)
          else do {
            msgData \<leftarrow> subslice data 4 totalPacketLen;
            let offset = 0;
            cmd \<leftarrow> slice_index msgData offset;
            let offset = offset + 1;
            lenBytes \<leftarrow> subslice msgData offset (offset + 2);
            let subjectLen = unat (Uint16 (slice_bytes lenBytes));
            let offset = offset + 2;
            if subjectLen > MaxSubjectLen \<or> offset + subjectLen > slice_len msgData
            then Some (Inl (InvalidSubjectLength subjectLen
                   (int (slice_len msgData) - int offset)), data)
            else do {
              subjectBytes \<leftarrow> subslice msgData offset (offset + subjectLen);
              let subject = string_of (slice_bytes subjectBytes);
              let offset = offset + subjectLen;
              payload \<leftarrow> subslice msgData offset (slice_len msgData);
              remaining \<leftarrow> subslice data totalPacketLen (slice_len data);
              Some (Inr \<lparr>Command = cmd, Subject = subject, Payload = slice_bytes payload\<rparr>,
                    remaining)
            }
          }
      })"

definition Parse :: "slice \<Rightarrow> (proto_error + message) option" where
  "Parse data = map_option fst (ParseWithRemaining data)"

section \<open>Parsing a stream\<close>

text \<open>
  A reader is the bytes that will arrive and the error that ends the stream.
  \<open>io.ReadFull\<close> reads exactly \<open>n\<close> bytes, or everything that is left and an error:
  \<open>io.EOF\<close> becomes \<open>io.ErrUnexpectedEOF\<close> when some bytes had been read.
\<close>

record reader =
  avail :: bytes
  ending :: read_error

definition ReadFull :: "nat \<Rightarrow> reader \<Rightarrow> (read_error + bytes) \<times> reader" where
  "ReadFull n r =
     (if n \<le> length (avail r) then (Inr (take n (avail r)), r\<lparr>avail := drop n (avail r)\<rparr>)
      else (Inl (if ending r = EOF \<and> avail r \<noteq> [] then ErrUnexpectedEOF else ending r),
            r\<lparr>avail := []\<rparr>))"

definition ParseFromReader :: "reader \<Rightarrow> (proto_error + message) \<times> reader" where
  "ParseFromReader reader0 =
     (case ReadFull 4 reader0 of
        (Inl err, reader1) \<Rightarrow> (Inl (FailedToReadLength err), reader1)
      | (Inr lengthBuf, reader1) \<Rightarrow>
          let bodyLen = unat (Uint32 lengthBuf) in
          if bodyLen \<le> 0 \<or> bodyLen > MaxBodyLen
          then (Inl (InvalidBodyLength bodyLen), reader1)
          else (case ReadFull bodyLen reader1 of
              (Inl err, reader2) \<Rightarrow> (Inl (FailedToReadMessageData err), reader2)
            | (Inr msgData, reader2) \<Rightarrow>
                if 0 \<ge> length msgData then (Inl EmptyMessageBody, reader2)
                else let cmd = msgData ! 0 in
                  if 1 + 2 > length msgData
                  then (Inl MessageTooShortForSubjectLength, reader2)
                  else let subjectLen = unat (Uint16 (take 2 (drop 1 msgData))) in
                    if subjectLen > MaxSubjectLen \<or> 3 + subjectLen > length msgData
                    then (Inl (InvalidSubjectLength subjectLen
                            (int (length msgData) - 3)), reader2)
                    else (Inr \<lparr>Command = cmd,
                               Subject = string_of (take subjectLen (drop 3 msgData)),
                               Payload = drop (3 + subjectLen) msgData\<rparr>, reader2)))"

section \<open>Encoding and parsing are inverse\<close>

lemma max_lens: "MaxSubjectLen = 4096" "MaxBodyLen = 8388608"
  by (simp_all add: MaxSubjectLen_def MaxBodyLen_def)

lemma valid_lengths:
  assumes "valid_message m"
  shows "unat (word_of_nat (body_len m) :: 32 word) = body_len m"
    and "unat (word_of_nat (length (Subject m)) :: 16 word) = length (Subject m)"
  using assms by (simp_all add: valid_message_def max_lens unat_of_nat take_bit_eq_mod)

text \<open>The part of the encoding after the length prefix.\<close>

definition body :: "message \<Rightarrow> bytes" where
  "body m = [Command m] @ PutUint16 (word_of_nat (length (Subject m))) @
     bytes_of (Subject m) @ Payload m"

lemma Encode_body: "Encode m = PutUint32 (word_of_nat (body_len m)) @ body m"
  by (simp add: Encode_eq body_def)

lemma length_body [simp]: "length (body m) = body_len m"
  by (simp add: body_def body_len_def)

lemma body_len_ge_3: "3 \<le> body_len m"
  by (simp add: body_len_def)

text \<open>Reading the fields off the body of a valid message gives them back.\<close>

lemma body_fields:
  assumes "valid_message m"
  shows "body m ! 0 = Command m"
    and "unat (Uint16 (take 2 (drop 1 (body m)))) = length (Subject m)"
    and "string_of (take (length (Subject m)) (drop 3 (body m))) = Subject m"
    and "drop (3 + length (Subject m)) (body m) = Payload m"
proof -
  have "Uint16 (take 2 (drop 1 (body m))) = word_of_nat (length (Subject m))"
    using Uint16_PutUint16 [of "word_of_nat (length (Subject m))" "[]"] by (simp add: body_def)
  then show "unat (Uint16 (take 2 (drop 1 (body m)))) = length (Subject m)"
    using valid_lengths(2) [OF assms] by simp
qed (simp_all add: body_def numeral_eq_Suc)

text \<open>Any three or more bytes whose length field fits are the body of the message read off them.\<close>

lemma body_of_fields:
  assumes len: "3 + L \<le> length b" and L: "L = unat (Uint16 (take 2 (drop 1 b)))"
    and m: "m = \<lparr>Command = b ! 0, Subject = string_of (take L (drop 3 b)),
                 Payload = drop (3 + L) b\<rparr>"
  shows "body m = b" and "length (Subject m) = L" and "body_len m = length b"
proof -
  show l: "length (Subject m) = L" and "body_len m = length b"
    using len by (simp_all add: m body_len_def)
  have "word_of_nat L = Uint16 (take 2 (drop 1 b))"
    by (simp add: L)
  then have p: "PutUint16 (word_of_nat L) = take 2 (drop 1 b)"
    using len by (simp add: PutUint16_Uint16)
  have "b = take 1 b @ take 2 (drop 1 b) @ take L (drop 3 b) @ drop (3 + L) b"
    by (metis append_take_drop_id drop_drop add.commute numeral_3_eq_3 numeral_2_eq_2
        One_nat_def plus_1_eq_Suc)
  moreover have "take 1 b = [b ! 0]"
    using len by (cases b) auto
  ultimately show "body m = b"
    using p l by (simp add: body_def m)
qed

lemma take4_split:
  "4 \<le> length xs \<Longrightarrow> PutUint32 (word_of_nat (unat (Uint32 (take 4 xs)))) = take 4 xs"
  by (simp add: PutUint32_Uint32)

lemma ReadFull_Inr_iff:
  "ReadFull n r = (Inr b, r') \<longleftrightarrow>
     length b = n \<and> avail r = b @ avail r' \<and> r' = r\<lparr>avail := avail r'\<rparr>"
  unfolding ReadFull_def
  by (cases r; cases r') (auto simp: append_eq_conv_conj)

text \<open>
  The stream parser succeeds exactly on the encodings of valid messages, consumes exactly the
  encoding and leaves the rest of the stream.
\<close>

lemma ParseFromReader_encode:
  assumes v: "valid_message m" and r: "avail r = Encode m @ rest"
  shows "ParseFromReader r = (Inr m, r\<lparr>avail := rest\<rparr>)"
proof -
  let ?h = "PutUint32 (word_of_nat (body_len m))"
  let ?r1 = "r\<lparr>avail := body m @ rest\<rparr>"
  have h: "ReadFull 4 r = (Inr ?h, ?r1)"
    unfolding ReadFull_Inr_iff by (simp add: r Encode_body)
  have n: "unat (Uint32 ?h) = body_len m"
    using Uint32_PutUint32 [of "word_of_nat (body_len m)" "[]"] valid_lengths(1) [OF v] by simp
  have b: "ReadFull (body_len m) ?r1 = (Inr (body m), r\<lparr>avail := rest\<rparr>)"
    unfolding ReadFull_Inr_iff by simp
  have bl: "0 < body_len m" "body_len m \<le> MaxBodyLen"
    "length (Subject m) \<le> MaxSubjectLen" "3 + length (Subject m) \<le> body_len m"
    using v by (simp_all add: valid_message_def body_len_def)
  show ?thesis
    unfolding ParseFromReader_def h
    using n b bl body_fields [OF v] body_len_ge_3 [of m]
    by (simp add: Let_def)
qed

lemma ParseFromReader_success:
  assumes "ParseFromReader r = (Inr m, r')"
  shows "valid_message m \<and> avail r = Encode m @ avail r' \<and> ending r' = ending r"
proof -
  obtain h r1 where h: "ReadFull 4 r = (Inr h, r1)"
    using assms by (auto simp: ParseFromReader_def split: prod.splits sum.splits)
  let ?n = "unat (Uint32 h)"
  have n: "0 < ?n" "?n \<le> MaxBodyLen"
    using assms h by (auto simp: ParseFromReader_def Let_def split: if_splits)
  obtain b where b: "ReadFull ?n r1 = (Inr b, r')"
    using assms h n
    by (auto simp: ParseFromReader_def Let_def split: if_splits prod.splits sum.splits)
  let ?L = "unat (Uint16 (take 2 (drop 1 b)))"
  have L: "?L \<le> MaxSubjectLen" "3 + ?L \<le> length b"
    and m: "m = \<lparr>Command = b ! 0, Subject = string_of (take ?L (drop 3 b)),
                 Payload = drop (3 + ?L) b\<rparr>"
    using assms h n b by (auto simp: ParseFromReader_def Let_def split: if_splits)
  note f = body_of_fields [OF L(2) refl m]
  have lb: "length b = ?n" and a1: "avail r1 = b @ avail r'" and e1: "ending r' = ending r1"
    using b unfolding ReadFull_Inr_iff by (auto, metis reader.select_convs(2) reader.surjective
        reader.update_convs(1))
  have lh: "length h = 4" and a0: "avail r = h @ avail r1" and e0: "ending r1 = ending r"
    using h unfolding ReadFull_Inr_iff by (auto, metis reader.select_convs(2) reader.surjective
        reader.update_convs(1))
  have "Encode m = h @ b"
    using f lb lh by (simp add: Encode_body PutUint32_Uint32)
  then show ?thesis
    using a0 a1 e0 e1 f L n lb by (simp add: valid_message_def)
qed

subsection \<open>The slice parser\<close>

text \<open>
  What the slice parser computes, written over the bytes of the slice. The two bytes of the
  subject length are always there, even when the declared body is shorter than three bytes:
  the slice expression \<open>msgData[1:3]\<close> is then within the capacity, which the minimum length of
  seven guarantees.
\<close>

definition parse_bytes :: "slice \<Rightarrow> (proto_error + message) \<times> slice" where
  "parse_bytes s =
     (let d = slice_bytes s; n = unat (Uint32 (take 4 d)); L = unat (Uint16 (take 2 (drop 5 d)));
          b = take n (drop 4 d) in
      if length d < 7 then (Inl DataTooShort, s)
      else if n = 0 \<or> n > MaxBodyLen then (Inl (InvalidBodyLength n), s)
      else if length d < n + 4 then (Inl (IncompleteMessage (n + 4) (length d)), s)
      else if L > MaxSubjectLen \<or> 3 + L > n then (Inl (InvalidSubjectLength L (int n - 3)), s)
      else (Inr \<lparr>Command = b ! 0, Subject = string_of (take L (drop 3 b)),
                 Payload = drop (3 + L) b\<rparr>, s\<lparr>lo := lo s + (n + 4)\<rparr>))"

lemma subslice_cap:
  assumes "slice_ok s" and "7 \<le> slice_len s" and "subslice s 4 (n + 4) = Some t"
  shows "\<exists>u. subslice t 1 3 = Some u \<and> slice_bytes u = take 2 (drop 5 (slice_bytes s))"
  using assms by (auto simp: subslice_def slice_defs drop_take add.commute min_def
      split: if_splits)

lemma ParseWithRemaining_eval:
  assumes ok: "slice_ok s"
  shows "ParseWithRemaining s = Some (parse_bytes s)"
proof -
  let ?d = "slice_bytes s" and ?n = "unat (Uint32 (take 4 (slice_bytes s)))"
  have ld [simp]: "length ?d = slice_len s" using ok by simp
  have offs: "(0::nat) + 1 = 1" "(1::nat) + 2 = 3" by simp_all
  show ?thesis
  proof (cases "slice_len s < 7")
    case True
    then show ?thesis by (simp add: ParseWithRemaining_def parse_bytes_def Let_def)
  next
    case False
    then obtain h where h: "subslice s 0 4 = Some h" "slice_bytes h = take 4 ?d"
      using subslice_within [OF ok, of 0 4] by auto
    show ?thesis
    proof (cases "?n = 0 \<or> ?n > MaxBodyLen \<or> slice_len s < ?n + 4")
      case True
      then show ?thesis
        using False h by (auto simp: ParseWithRemaining_def parse_bytes_def Let_def)
    next
      case n: False
      obtain t where t: "subslice s 4 (?n + 4) = Some t" "slice_ok t" "slice_len t = ?n"
        "slice_bytes t = take ?n (drop 4 ?d)"
        using subslice_within [OF ok, of 4 "?n + 4"] n by auto
      obtain u where u: "subslice t 1 3 = Some u" "slice_bytes u = take 2 (drop 5 ?d)"
        using subslice_cap [OF ok _ t(1)] False by auto
      have c: "slice_index t 0 = Some (take ?n (drop 4 ?d) ! 0)"
        using slice_index_within [OF t(2), of 0] t n by simp
      let ?L = "unat (Uint16 (take 2 (drop 5 ?d)))"
      show ?thesis
      proof (cases "?L > MaxSubjectLen \<or> 3 + ?L > ?n")
        case True
        then show ?thesis
          unfolding ParseWithRemaining_def parse_bytes_def Let_def offs
          using False n h t u c by (simp del: One_nat_def)
      next
        case L: False
        obtain v where v: "subslice t 3 (3 + ?L) = Some v"
          "slice_bytes v = take ?L (drop 3 (take ?n (drop 4 ?d)))"
          using subslice_within [OF t(2), of 3 "3 + ?L"] L t by auto
        obtain w where w: "subslice t (3 + ?L) (slice_len t) = Some w"
          "slice_bytes w = drop (3 + ?L) (take ?n (drop 4 ?d))"
          using subslice_to_end [OF t(2), of "3 + ?L"] L t(3,4) by auto
        have x: "subslice s (?n + 4) (slice_len s) = Some (s\<lparr>lo := lo s + (?n + 4)\<rparr>)"
          using n ok by (auto simp: subslice_def slice_defs)
        show ?thesis
          unfolding ParseWithRemaining_def parse_bytes_def Let_def offs
          using False n L h t u c v w x by (simp del: One_nat_def)
      qed
    qed
  qed
qed

lemma parse_bytes_success:
  assumes ok: "slice_ok s" and p: "parse_bytes s = (Inr m, s')"
  shows "valid_message m \<and> slice_bytes s = Encode m @ slice_bytes s' \<and>
    s' = s\<lparr>lo := lo s + length (Encode m)\<rparr>"
proof -
  let ?d = "slice_bytes s"
  let ?n = "unat (Uint32 (take 4 ?d))" and ?L = "unat (Uint16 (take 2 (drop 5 ?d)))"
  let ?b = "take ?n (drop 4 ?d)"
  have g: "7 \<le> length ?d" "?n \<le> MaxBodyLen" "?n + 4 \<le> length ?d" "?L \<le> MaxSubjectLen"
    "3 + ?L \<le> ?n"
    and m: "m = \<lparr>Command = ?b ! 0, Subject = string_of (take ?L (drop 3 ?b)),
                 Payload = drop (3 + ?L) ?b\<rparr>"
    and s': "s' = s\<lparr>lo := lo s + (?n + 4)\<rparr>"
    using p by (auto simp: parse_bytes_def Let_def split: if_splits)
  have lb: "length ?b = ?n" using g by simp
  have L: "?L = unat (Uint16 (take 2 (drop 1 ?b)))"
    using g by (simp add: drop_take min_def)
  note f = body_of_fields [OF _ L m, unfolded lb, OF g(5)]
  have e: "Encode m = take 4 ?d @ ?b"
    using f g take4_split [of ?d] by (simp add: Encode_body)
  have "slice_bytes s' = drop (4 + ?n) ?d"
    using ok g(3) by (auto simp: s' slice_defs drop_take min_def add.commute add.left_commute)
  moreover have "drop 4 ?d = ?b @ drop (4 + ?n) ?d"
    using append_take_drop_id [of ?n "drop 4 ?d"] by (simp add: add.commute)
  then have "?d = take 4 ?d @ ?b @ drop (4 + ?n) ?d"
    using append_take_drop_id [of 4 ?d] by simp
  ultimately have "?d = Encode m @ slice_bytes s'"
    using e by simp
  moreover have "length (Encode m) = ?n + 4"
    using f by simp
  ultimately show ?thesis
    using f g s' by (simp add: valid_message_def)
qed

lemma parse_bytes_encode:
  assumes ok: "slice_ok s" and v: "valid_message m" and d: "slice_bytes s = Encode m @ rest"
  shows "parse_bytes s = (Inr m, s\<lparr>lo := lo s + length (Encode m)\<rparr>)"
proof -
  let ?n = "body_len m"
  have "take 4 (slice_bytes s) = PutUint32 (word_of_nat ?n)"
    by (simp add: d Encode_body)
  then have n: "unat (Uint32 (take 4 (slice_bytes s))) = ?n"
    using Uint32_PutUint32 [of "word_of_nat ?n" "[]"] valid_lengths(1) [OF v] by simp
  have b: "take ?n (drop 4 (slice_bytes s)) = body m"
    by (simp add: d Encode_body)
  have "take 2 (drop 5 (slice_bytes s)) = take 2 (drop 1 (body m))"
    by (simp add: d Encode_body body_def)
  then have L: "unat (Uint16 (take 2 (drop 5 (slice_bytes s)))) = length (Subject m)"
    using body_fields(2) [OF v] by simp
  have g: "0 < ?n" "?n \<le> MaxBodyLen" "length (Subject m) \<le> MaxSubjectLen"
    "3 + length (Subject m) \<le> ?n" "7 \<le> length (slice_bytes s)" "?n + 4 \<le> length (slice_bytes s)"
    using v by (simp_all add: valid_message_def body_len_def d)
  show ?thesis
    unfolding parse_bytes_def Let_def n L b
    using g body_fields [OF v] by (simp add: add.commute)
qed

section \<open>Framing: cutting a stream into messages\<close>

text \<open>
  What the users of a parser rely on: it accepts exactly the encodings of valid messages.
  Inside the locale: encodings are prefix-free, a concatenation of encodings is cut back into
  its messages, and it makes no difference in which chunks the bytes arrive.
\<close>

locale framing =
  fixes enc :: "'m \<Rightarrow> bytes"
    and next_message :: "bytes \<Rightarrow> ('m \<times> bytes) option"
    and valid :: "'m \<Rightarrow> bool"
  assumes next_iff: "next_message b = Some (m, r) \<longleftrightarrow> valid m \<and> b = enc m @ r"
    and enc_nonempty: "enc m \<noteq> []"
begin

lemma prefix_free: "valid m \<Longrightarrow> valid m' \<Longrightarrow> enc m @ r = enc m' @ r' \<Longrightarrow> m = m' \<and> r = r'"
  by (metis next_iff option.inject prod.inject)

function all_messages :: "bytes \<Rightarrow> 'm list \<times> bytes" where
  "all_messages b =
     (case next_message b of
        None \<Rightarrow> ([], b)
      | Some (m, r) \<Rightarrow> (case all_messages r of (ms, t) \<Rightarrow> (m # ms, t)))"
  by pat_completeness auto
termination
  by (relation "measure length") (auto simp: next_iff enc_nonempty)

declare all_messages.simps [simp del]

lemma all_messages_cons: "valid m \<Longrightarrow>
    all_messages (enc m @ r) = (case all_messages r of (ms, t) \<Rightarrow> (m # ms, t))"
  by (subst all_messages.simps) (simp add: next_iff [THEN iffD2])

lemma all_messages_concat:
  assumes "list_all valid ms" and "next_message t = None"
  shows "all_messages (concat (map enc ms) @ t) = (ms, t)"
  using assms(1)
proof (induction ms)
  case Nil
  then show ?case
    using assms(2) by (simp add: all_messages.simps [of t])
next
  case (Cons m ms)
  then show ?case by (simp add: all_messages_cons)
qed

lemma all_messages_sound:
  "all_messages b = (ms, t) \<Longrightarrow>
     list_all valid ms \<and> b = concat (map enc ms) @ t \<and> next_message t = None"
proof (induction b arbitrary: ms rule: all_messages.induct)
  case (1 b)
  show ?case
  proof (cases "next_message b")
    case None
    with "1.prems" show ?thesis by (simp add: all_messages.simps [of b])
  next
    case (Some p)
    then obtain m r where nm: "next_message b = Some (m, r)" by (cases p) auto
    obtain ms' t' where r: "all_messages r = (ms', t')" by fastforce
    have ms: "ms = m # ms'" "t = t'"
      using "1.prems" nm r by (simp_all add: all_messages.simps [of b])
    show ?thesis
      using "1.IH" [OF nm refl, of ms'] r nm ms next_iff [of b m r] by simp
  qed
qed

lemma all_messages_chunks:
  assumes "all_messages b = (ms, t)" and "all_messages (t @ b2) = (ms', t')"
  shows "all_messages (b @ b2) = (ms @ ms', t')"
proof -
  have "list_all valid (ms @ ms')" and "next_message t' = None"
    using all_messages_sound [OF assms(1)] all_messages_sound [OF assms(2)] by simp_all
  moreover have "b @ b2 = concat (map enc (ms @ ms')) @ t'"
    using all_messages_sound [OF assms(1)] all_messages_sound [OF assms(2)]
    by (metis append.assoc concat_append map_append)
  ultimately show ?thesis
    by (metis all_messages_concat)
qed

end

text \<open>One call of each parser, on a stream that then ends and on a slice.\<close>

definition read_message :: "bytes \<Rightarrow> (message \<times> bytes) option" where
  "read_message b =
     (case ParseFromReader \<lparr>avail = b, ending = EOF\<rparr> of
        (Inr m, r) \<Rightarrow> Some (m, avail r)
      | (Inl e, r) \<Rightarrow> None)"

definition parse_message :: "bytes \<Rightarrow> (message \<times> bytes) option" where
  "parse_message b =
     (case ParseWithRemaining (slice_of b) of
        Some (Inr m, s) \<Rightarrow> Some (m, slice_bytes s)
      | _ \<Rightarrow> None)"

lemma read_message_iff: "read_message b = Some (m, r) \<longleftrightarrow> valid_message m \<and> b = Encode m @ r"
proof
  assume "read_message b = Some (m, r)"
  then obtain r' where "ParseFromReader \<lparr>avail = b, ending = EOF\<rparr> = (Inr m, r')" "r = avail r'"
    by (auto simp: read_message_def split: prod.splits sum.splits)
  then show "valid_message m \<and> b = Encode m @ r"
    using ParseFromReader_success [of "\<lparr>avail = b, ending = EOF\<rparr>" m r'] by simp
next
  assume "valid_message m \<and> b = Encode m @ r"
  then show "read_message b = Some (m, r)"
    using ParseFromReader_encode [of m "\<lparr>avail = b, ending = EOF\<rparr>" r]
    by (simp add: read_message_def)
qed

lemma parse_message_iff: "parse_message b = Some (m, r) \<longleftrightarrow> valid_message m \<and> b = Encode m @ r"
proof
  assume "parse_message b = Some (m, r)"
  then obtain s where "parse_bytes (slice_of b) = (Inr m, s)" "r = slice_bytes s"
    by (auto simp: parse_message_def ParseWithRemaining_eval split: prod.splits sum.splits)
  then show "valid_message m \<and> b = Encode m @ r"
    by (metis parse_bytes_success slice_of_ok slice_bytes_slice_of)
next
  assume a: "valid_message m \<and> b = Encode m @ r"
  then have p: "parse_bytes (slice_of b) =
      (Inr m, slice_of b\<lparr>lo := lo (slice_of b) + length (Encode m)\<rparr>)"
    using parse_bytes_encode [of "slice_of b" m r] by simp
  moreover have "slice_bytes (slice_of b\<lparr>lo := lo (slice_of b) + length (Encode m)\<rparr>) = r"
    using a by (simp add: slice_defs slice_of_def)
  ultimately show "parse_message b = Some (m, r)"
    by (simp add: parse_message_def ParseWithRemaining_eval)
qed

lemma Encode_nonempty: "Encode m \<noteq> []"
  by (simp add: Encode_eq PutUint32_def)

interpretation rd: framing Encode read_message valid_message
  by unfold_locales (rule read_message_iff, rule Encode_nonempty)

interpretation ps: framing Encode parse_message valid_message
  by unfold_locales (rule parse_message_iff, rule Encode_nonempty)

section \<open>Properties\<close>

text \<open>C7: The stream parser returns a message exactly when the stream starts with the encoding of
  that message and the message is within the protocol's limits; it consumes exactly the
  encoding.\<close>

theorem stream_parse_exact:
  "ParseFromReader r = (Inr m, r') \<longleftrightarrow>
     valid_message m \<and> avail r = Encode m @ avail r' \<and> r' = r\<lparr>avail := avail r'\<rparr>"
proof
  assume p: "ParseFromReader r = (Inr m, r')"
  note s = ParseFromReader_success [OF this]
  then have "r' = r\<lparr>avail := avail r'\<rparr>"
    by (cases r; cases r') simp
  with s show "valid_message m \<and> avail r = Encode m @ avail r' \<and> r' = r\<lparr>avail := avail r'\<rparr>"
    by simp
next
  assume a: "valid_message m \<and> avail r = Encode m @ avail r' \<and> r' = r\<lparr>avail := avail r'\<rparr>"
  then show "ParseFromReader r = (Inr m, r')"
    using ParseFromReader_encode [of m r "avail r'"] by metis
qed

text \<open>The slice parser, on any well-formed slice, returns a message exactly when the slice
  starts with the encoding of that message, and the remaining slice starts right after it.\<close>

lemma slice_parse_exact:
  assumes "slice_ok s"
  shows "ParseWithRemaining s = Some (Inr m, s') \<longleftrightarrow>
    valid_message m \<and> slice_bytes s = Encode m @ slice_bytes s' \<and>
    s' = s\<lparr>lo := lo s + length (Encode m)\<rparr>"
  unfolding ParseWithRemaining_eval [OF assms] option.inject
  by (metis parse_bytes_success parse_bytes_encode assms)

definition ping_packet :: bytes where
  "ping_packet = [0, 0, 0, 3, 5, 0, 0, 9]"

lemma Encode_ping: "Encode (NewMessageCmd CmdPing [] []) = [0, 0, 0, 3, 5, 0, 0]"
  by (simp add: Encode_eq NewMessageCmd_def CmdPing_def PutUint32_def PutUint16_def body_len_def
      bytes_of_def)

lemma valid_ping: "valid_message (NewMessageCmd CmdPing [] [])"
  by (simp add: valid_message_def NewMessageCmd_def body_len_def max_lens)

text \<open>C16: The slice parser never panics: on any well-formed slice, whatever its bytes and
  capacity, it returns, and when it returns an error it gives the whole input back.\<close>

theorem slice_parse_no_panic:
  assumes "slice_ok s"
  shows "\<exists>res s'. ParseWithRemaining s = Some (res, s') \<and> slice_ok s' \<and>
    (\<forall>e. res = Inl e \<longrightarrow> s' = s)"
proof -
  obtain res s' where p: "parse_bytes s = (res, s')" by fastforce
  then have "\<forall>e. res = Inl e \<longrightarrow> s' = s"
    by (auto simp: parse_bytes_def Let_def split: if_splits)
  moreover have "slice_ok s'"
  proof (cases res)
    case (Inl e)
    then show ?thesis using calculation assms by simp
  next
    case (Inr m)
    then have f: "slice_bytes s = Encode m @ slice_bytes s'"
        "s' = s\<lparr>lo := lo s + length (Encode m)\<rparr>"
      using parse_bytes_success [OF assms, of m s'] p by simp_all
    have "length (Encode m) \<le> slice_len s"
      using arg_cong [OF f(1), of length] assms by simp
    then show ?thesis
      using f(2) assms by (simp add: slice_ok_def slice_len_def)
  qed
  ultimately show ?thesis
    using ParseWithRemaining_eval [OF assms] p by auto
qed

theorem slice_parse_no_panic_witness:
  "slice_ok (slice_of [0, 0, 0, 1, 1, 0, 0]) \<and>
   (\<exists>res s'. ParseWithRemaining (slice_of [0, 0, 0, 1, 1, 0, 0]) = Some (res, s') \<and> slice_ok s' \<and>
     (\<forall>e. res = Inl e \<longrightarrow> s' = slice_of [0, 0, 0, 1, 1, 0, 0]))"
  using slice_parse_no_panic [of "slice_of [0, 0, 0, 1, 1, 0, 0]"] slice_of_ok by blast

text \<open>The two parsers agree: the same messages are accepted with the same remaining bytes.\<close>

lemma parsers_agree: "parse_message b = read_message b"
proof (cases "read_message b")
  case None
  have "parse_message b \<noteq> Some p" for p
    using None parse_message_iff [of b "fst p" "snd p"] read_message_iff [of b "fst p" "snd p"]
    by auto
  with None show ?thesis by (cases "parse_message b") auto
next
  case (Some p)
  then show ?thesis
    using parse_message_iff [of b "fst p" "snd p"] read_message_iff [of b "fst p" "snd p"] by simp
qed

text \<open>A stream of valid messages is cut back into exactly those messages, wherever the
  transport splits it: parsing the first chunk and then its remainder with the second chunk
  gives the messages in order and the unparsed tail.\<close>

lemma chunked_stream:
  assumes "list_all valid_message ms" and "parse_message t = None"
    and "b @ c = concat (map Encode ms) @ t"
    and "ps.all_messages b = (ms1, t1)" and "ps.all_messages (t1 @ c) = (ms2, t2)"
  shows "ms1 @ ms2 = ms \<and> t2 = t"
  using ps.all_messages_chunks [OF assms(4,5)] ps.all_messages_concat [OF assms(1,2)] assms(3)
  by simp

text \<open>A connection that breaks inside a message yields a read error, never a message: every
  strict prefix of an encoding fails with one of the two read failures.\<close>

lemma truncated_stream_fails:
  assumes v: "valid_message m" and p: "Encode m = b @ rest" and r: "rest \<noteq> []"
  shows "\<exists>err. fst (ParseFromReader \<lparr>avail = b, ending = e\<rparr>) = Inl (FailedToReadLength err) \<or>
    fst (ParseFromReader \<lparr>avail = b, ending = e\<rparr>) = Inl (FailedToReadMessageData err)"
proof (cases "length b < 4")
  case True
  then show ?thesis
    by (simp add: ParseFromReader_def ReadFull_def)
next
  case False
  have "take 4 b = PutUint32 (word_of_nat (body_len m))"
    using False arg_cong [OF p, of "take 4"] by (simp add: Encode_body)
  then have n: "unat (Uint32 (take 4 b)) = body_len m"
    using Uint32_PutUint32 [of "word_of_nat (body_len m)" "[]"] valid_lengths(1) [OF v] by simp
  have "length b - 4 < body_len m"
    using arg_cong [OF p, of length] r False by (cases rest) auto
  then show ?thesis
    using False n v body_len_ge_3 [of m]
    by (simp add: ParseFromReader_def ReadFull_def Let_def valid_message_def)
qed

text \<open>The command names and the command bytes correspond: the eight known bytes are printed
  as names that map back to them, every other byte is printed as a name that maps to 0.\<close>

lemma command_names:
  "cmdStringToByte (cmdByteToString c) = (if 1 \<le> c \<and> c \<le> 8 then c else 0)"
proof (cases "1 \<le> c \<and> c \<le> 8")
  case True
  then have "c \<in> {1, 2, 3, 4, 5, 6, 7, 8}"
    by (simp add: word_le_nat_alt) unat_arith
  then show ?thesis
    by (auto simp: cmdStringToByte_def cmdByteToString_def cmd_defs)
next
  case False
  then have "c \<notin> {1, 2, 3, 4, 5, 6, 7, 8}" by auto
  then show ?thesis
    using False by (auto simp: cmdStringToByte_def cmdByteToString_def cmd_defs)
qed

end
