(* ===== verification/Subject_Matching.thy ===== *)
theory Subject_Matching
  imports Go_Strings
begin

text \<open>
  Subject matching with the wildcards \<open>*\<close> and \<open>>\<close>. The program has three matchers: the
  server's \<open>Router.Match\<close> (\<open>src/server/router.go\<close>), the client's \<open>matchSubject\<close>
  (\<open>src/client/client.go\<close>) and the compiled patterns of the optimised router
  (\<open>src/server/router_optimized.go\<close>). Each is modelled as written and then characterised over
  the dot-separated segments of pattern and subject, which makes them comparable.
\<close>

section \<open>The server's matcher\<close>

text \<open>The loop that looks for a segment \<open>*\<close>.\<close>

fun hasWildcard_loop :: "string list \<Rightarrow> bool" where
  "hasWildcard_loop [] = False"
| "hasWildcard_loop (part # parts) = (if part = ''*'' then True else hasWildcard_loop parts)"

text \<open>The segment by segment comparison. Both lists have the same length when it is called.\<close>

fun match_parts :: "string list \<Rightarrow> string list \<Rightarrow> bool" where
  "match_parts (p # ps) (s # ss) =
     (if p = ''*'' then match_parts ps ss
      else if p \<noteq> s then False
      else match_parts ps ss)"
| "match_parts _ _ = True"

definition Match :: "string \<Rightarrow> string \<Rightarrow> bool" where
  "Match pattern subject =
     (if pattern = subject then True
      else if HasSuffix pattern ''.>''
      then let prefix = TrimSuffix pattern ''.>'' in
           (if HasPrefix subject (prefix @ ''.'') \<or> subject = prefix then True else False)
      else let patternParts = Split pattern dot; subjectParts = Split subject dot in
           if length patternParts \<noteq> length subjectParts then False
           else if \<not> hasWildcard_loop patternParts then False
           else match_parts patternParts subjectParts)"

section \<open>The client's matcher\<close>

definition matchSubject :: "string \<Rightarrow> string \<Rightarrow> bool" where
  "matchSubject pattern subject =
     (if pattern = subject then True
      else if HasSuffix pattern ''.>'' \<and>
        (let prefix = TrimSuffix pattern ''.>'' in
           HasPrefix subject (prefix @ ''.'') \<or> subject = prefix) then True
      else if Contains pattern ''*''
      then let patternParts = Split pattern dot; subjectParts = Split subject dot in
           if length patternParts \<noteq> length subjectParts then False
           else match_parts patternParts subjectParts
      else False)"

section \<open>Compiled patterns\<close>

record compiled_pattern =
  segs :: "string list"
  hasWildcard :: bool
  hasMultiWildcard :: bool

fun compile_flags :: "string list \<Rightarrow> compiled_pattern \<Rightarrow> compiled_pattern" where
  "compile_flags [] compiled = compiled"
| "compile_flags (seg # rest) compiled =
     compile_flags rest
       (if seg = ''*'' then compiled\<lparr>hasWildcard := True\<rparr>
        else if seg = ''>'' then compiled\<lparr>hasMultiWildcard := True\<rparr>
        else compiled)"

definition compile :: "string \<Rightarrow> compiled_pattern" where
  "compile pattern =
     compile_flags (Split pattern dot)
       \<lparr>segs = Split pattern dot, hasWildcard = False, hasMultiWildcard = False\<rparr>"

text \<open>
  \<open>compilePattern\<close> looks the pattern up in a package-level cache, and compiles and stores it
  when it is missing. The second lookup under the write lock finds the same entry as the first
  when no other goroutine runs in between.
\<close>

type_synonym pattern_cache = "(string, compiled_pattern) gomap"

definition compilePattern :: "string \<Rightarrow> pattern_cache \<Rightarrow> compiled_pattern \<times> pattern_cache" where
  "compilePattern pattern cache =
     (case map_of cache pattern of
        Some cached \<Rightarrow> (cached, cache)
      | None \<Rightarrow>
          (case map_of cache pattern of
             Some cached \<Rightarrow> (cached, cache)
           | None \<Rightarrow> let compiled = compile pattern
                     in (compiled, AList.update pattern compiled cache)))"

definition isWildcardPattern :: "string \<Rightarrow> bool" where
  "isWildcardPattern pattern \<longleftrightarrow> Contains pattern ''*'' \<or> Contains pattern ''>''"

text \<open>The loop of \<open>matchesSegments\<close>, with the indices \<open>pi\<close> and \<open>si\<close> of the source.\<close>

function matches_loop :: "string list \<Rightarrow> string list \<Rightarrow> nat \<Rightarrow> nat \<Rightarrow> bool" where
  "matches_loop segments_p subjectSegments p_i s_i =
     (if p_i < length segments_p
      then if segments_p ! p_i = ''>''
           then (if p_i \<noteq> length segments_p - 1 then False else s_i < length subjectSegments)
           else if s_i \<ge> length subjectSegments then False
           else if segments_p ! p_i = ''*''
           then matches_loop segments_p subjectSegments (Suc p_i) (Suc s_i)
           else if segments_p ! p_i \<noteq> subjectSegments ! s_i then False
           else matches_loop segments_p subjectSegments (Suc p_i) (Suc s_i)
      else s_i = length subjectSegments)"
  by pat_completeness auto
termination
  by (relation "measure (\<lambda>(ps, ss, p_i, s_i). length ps - p_i)") auto

declare matches_loop.simps [simp del]

definition matchesSegments :: "compiled_pattern \<Rightarrow> string list \<Rightarrow> bool" where
  "matchesSegments cp subjectSegments = matches_loop (segs cp) subjectSegments 0 0"

text \<open>A pattern always has a first segment, so the index 0 is in range.\<close>

definition matches :: "compiled_pattern \<Rightarrow> string \<Rightarrow> bool" where
  "matches cp subject =
     (if \<not> hasWildcard cp \<and> \<not> hasMultiWildcard cp then subject = segs cp ! 0
      else matchesSegments cp (Split subject dot))"

section \<open>Matching over segments\<close>

text \<open>A pattern segment and a subject segment fit.\<close>

definition seg_fits :: "string \<Rightarrow> string \<Rightarrow> bool" where
  "seg_fits p s \<longleftrightarrow> p = ''*'' \<or> p = s"

text \<open>Patterns that end in the multi-segment wildcard.\<close>

definition multi :: "string \<Rightarrow> bool" where
  "multi p \<longleftrightarrow> 2 \<le> length (segments p) \<and> last (segments p) = ''>''"

lemma HasSuffix_multi [simp]: "HasSuffix p ''.>'' \<longleftrightarrow> multi p"
  by (simp add: HasSuffix_multi_iff multi_def)

lemma hasWildcard_loop_iff [simp]: "hasWildcard_loop ps \<longleftrightarrow> ''*'' \<in> set ps"
  by (induction ps) auto

lemma match_parts_iff:
  "length ps = length ss \<Longrightarrow> match_parts ps ss \<longleftrightarrow> list_all2 seg_fits ps ss"
  by (induction ps ss rule: list_induct2) (auto simp: seg_fits_def)

lemma seg_fits_refl: "list_all2 seg_fits ps ps"
  by (simp add: list.rel_refl seg_fits_def)

lemma fits_without_star: "''*'' \<notin> set ps \<Longrightarrow> list_all2 seg_fits ps ss \<longleftrightarrow> ps = ss"
proof (induction ps arbitrary: ss)
  case Nil
  then show ?case by auto
next
  case (Cons p ps)
  then show ?case by (cases ss) (auto simp: seg_fits_def)
qed

lemma multi_prefix_test [simp]:
  "multi p \<Longrightarrow> (HasPrefix s (TrimSuffix p ''.>'' @ ''.'') \<or> s = TrimSuffix p ''.>'') \<longleftrightarrow>
     prefix (butlast (segments p)) (segments s)"
  by (metis HasSuffix_multi prefix_segments_iff segments_TrimSuffix_multi)

lemma prefix_butlast_self: "prefix (butlast xs) xs"
  by (metis append_butlast_last_id prefixI prefix_order.refl butlast.simps(1))

lemma Match_iff:
  "Match p s \<longleftrightarrow>
     (if multi p then prefix (butlast (segments p)) (segments s)
      else list_all2 seg_fits (segments p) (segments s))"
proof (cases "p = s")
  case True
  then show ?thesis
    by (simp add: Match_def prefix_butlast_self seg_fits_refl)
next
  case False
  show ?thesis
  proof (cases "multi p")
    case True
    then show ?thesis
      using False multi_prefix_test [OF True, of s] by (auto simp: Match_def Let_def)
  next
    case nm: False
    show ?thesis
    proof (cases "''*'' \<in> set (segments p)")
      case True
      then show ?thesis
        using False nm match_parts_iff [of "segments p" "segments s"]
        by (auto simp: Match_def Let_def dest: list_all2_lengthD)
    next
      case ns: False
      then show ?thesis
        using False nm by (simp add: Match_def Let_def fits_without_star)
    qed
  qed
qed

lemma no_star_segment: "\<not> Contains p ''*'' \<Longrightarrow> ''*'' \<notin> set (segments p)"
  using Contains_segment [of "CHR ''*''" dot p] by auto

lemma matchSubject_iff:
  "matchSubject p s \<longleftrightarrow>
     (multi p \<and> prefix (butlast (segments p)) (segments s)) \<or>
     list_all2 seg_fits (segments p) (segments s)"
proof (cases "p = s")
  case True
  then show ?thesis
    by (simp add: matchSubject_def seg_fits_refl)
next
  case False
  have star: "\<not> Contains p ''*'' \<Longrightarrow> \<not> list_all2 seg_fits (segments p) (segments s)"
    using no_star_segment [of p] fits_without_star [of "segments p" "segments s"] False by simp
  have eq: "matchSubject p s \<longleftrightarrow>
      (multi p \<and> prefix (butlast (segments p)) (segments s)) \<or>
      (Contains p ''*'' \<and> length (segments p) = length (segments s) \<and>
        match_parts (segments p) (segments s))"
    using False by (simp add: matchSubject_def Let_def cong: conj_cong)
  show ?thesis
    unfolding eq
    using star match_parts_iff [of "segments p" "segments s"]
    by (metis list_all2_lengthD)
qed

subsection \<open>Compiled patterns\<close>

lemma compile_flags_eq:
  "compile_flags xs c =
     c\<lparr>hasWildcard := hasWildcard c \<or> ''*'' \<in> set xs,
       hasMultiWildcard := hasMultiWildcard c \<or> ''>'' \<in> set xs\<rparr>"
  by (induction xs arbitrary: c) auto

lemma compile_fields [simp]:
  "segs (compile p) = segments p"
  "hasWildcard (compile p) \<longleftrightarrow> ''*'' \<in> set (segments p)"
  "hasMultiWildcard (compile p) \<longleftrightarrow> ''>'' \<in> set (segments p)"
  by (simp_all add: compile_def compile_flags_eq)

text \<open>The cache only ever holds what compiling again would give.\<close>

definition cache_ok :: "pattern_cache \<Rightarrow> bool" where
  "cache_ok cache \<longleftrightarrow> (\<forall>p c. map_of cache p = Some c \<longrightarrow> c = compile p)"

lemma cache_ok_empty [simp]: "cache_ok []"
  by (simp add: cache_ok_def)

lemma compilePattern_correct:
  assumes "cache_ok cache"
  shows "fst (compilePattern p cache) = compile p" and "cache_ok (snd (compilePattern p cache))"
  using assms by (auto simp: compilePattern_def cache_ok_def Let_def split: option.splits)

text \<open>The reference: token matching with a \<open>>\<close> that stands for one or more segments.\<close>

fun token_match :: "string list \<Rightarrow> string list \<Rightarrow> bool" where
  "token_match [] ss = (ss = [])"
| "token_match (p # ps) ss =
     (if p = ''>'' then ps = [] \<and> ss \<noteq> []
      else case ss of [] \<Rightarrow> False | s # ss' \<Rightarrow> seg_fits p s \<and> token_match ps ss')"

lemma matches_loop_eq:
  assumes "p_i \<le> length ps" and "s_i \<le> length ss"
  shows "matches_loop ps ss p_i s_i \<longleftrightarrow> token_match (drop p_i ps) (drop s_i ss)"
  using assms
proof (induction ps ss p_i s_i rule: matches_loop.induct)
  case (1 ps ss p_i s_i)
  show ?case
  proof (cases "p_i < length ps")
    case False
    with "1.prems" show ?thesis
      by (auto simp: matches_loop.simps)
  next
    case True
    then have dp: "drop p_i ps = ps ! p_i # drop (Suc p_i) ps"
      by (simp add: Cons_nth_drop_Suc)
    show ?thesis
    proof (cases "ps ! p_i = ''>''")
      case True
      then show ?thesis
        using "1.prems" \<open>p_i < length ps\<close>
        by (auto simp: matches_loop.simps [of ps ss p_i s_i] dp)
    next
      case np: False
      show ?thesis
      proof (cases "s_i < length ss")
        case False
        with "1.prems" have "s_i = length ss" by simp
        with np True show ?thesis
          by (simp add: matches_loop.simps [of ps ss p_i "length ss"] dp)
      next
        case s: True
        then have ds: "drop s_i ss = ss ! s_i # drop (Suc s_i) ss"
          by (simp add: Cons_nth_drop_Suc)
        show ?thesis
          using "1.IH" True np s
          by (auto simp: matches_loop.simps [of ps ss p_i s_i] dp ds seg_fits_def)
      qed
    qed
  qed
qed

lemma matches_compile_iff:
  "matches (compile p) s \<longleftrightarrow>
     (if ''*'' \<in> set (segments p) \<or> ''>'' \<in> set (segments p)
      then token_match (segments p) (segments s) else s = segments p ! 0)"
  by (simp add: matches_def matchesSegments_def matches_loop_eq)

lemma token_match_no_multi:
  "''>'' \<notin> set ps \<Longrightarrow> token_match ps ss \<longleftrightarrow> list_all2 seg_fits ps ss"
proof (induction ps arbitrary: ss)
  case Nil
  then show ?case by auto
next
  case (Cons p ps)
  then show ?case by (cases ss) auto
qed

lemma token_match_multi:
  "''>'' \<notin> set ps \<Longrightarrow>
     token_match (ps @ [''>'']) ss \<longleftrightarrow> (\<exists>a b. ss = a @ b \<and> b \<noteq> [] \<and> list_all2 seg_fits ps a)"
proof (induction ps arbitrary: ss)
  case Nil
  then show ?case by auto
next
  case (Cons p ps)
  show ?case
  proof (cases ss)
    case Nil
    then show ?thesis using Cons.prems by auto
  next
    case (Cons s ss')
    then show ?thesis
      using Cons.IH [of ss'] Cons.prems
      by (auto simp: list_all2_Cons1 Cons_eq_append_conv)
  qed
qed

lemma Match_client: "Match p s \<Longrightarrow> matchSubject p s"
  by (auto simp: Match_iff matchSubject_iff split: if_splits)

section \<open>Properties\<close>


text \<open>C18: Whatever the server routes under a pattern, the client's own filter accepts under the
  same pattern; and the client accepts no more than the server routes, for every subject
  that does not itself end in \<open>.>\<close>.\<close>

theorem client_filter_agrees:
  "(Match p s \<longrightarrow> matchSubject p s) \<and>
   (\<not> HasSuffix s ''.>'' \<longrightarrow> matchSubject p s = Match p s)"
proof -
  have last: "list_all2 seg_fits ps ss \<Longrightarrow> ps \<noteq> [] \<Longrightarrow> last ps = ''>'' \<Longrightarrow> last ss = ''>''" for ps ss
    by (induction rule: list_all2_induct) (auto simp: seg_fits_def split: if_splits)
  have "multi p \<Longrightarrow> list_all2 seg_fits (segments p) (segments s) \<Longrightarrow> multi s"
    using last [of "segments p" "segments s"]
    by (auto simp: multi_def dest: list_all2_lengthD)
  then show ?thesis
    by (auto simp: Match_iff matchSubject_iff)
qed

theorem client_filter_agrees_witness:
  "matchSubject ''a.*'' ''a.b'' \<and>
   matchSubject ''a.*'' ''a.b'' = Match ''a.*'' ''a.b'' \<and> Match ''a.*'' ''a.b''"
proof -
  have n: "\<not> HasSuffix ''a.b'' ''.>''" by (simp add: multi_def)
  have m: "Match ''a.*'' ''a.b''"
    by (simp add: Match_iff multi_def seg_fits_def)
  show ?thesis
    using n m client_filter_agrees [of "''a.*''" "''a.b''"] by blast
qed

text \<open>A compiled pattern with at least one wildcard segment, in which \<open>>\<close> occurs at most at
  the end, is matched by the optimised router as follows: \<open>*\<close> stands for one segment
  everywhere, and a final \<open>>\<close> for one or more segments.\<close>

lemma compiled_match:
  assumes "''>'' \<notin> set (butlast (segments p))"
    and "''*'' \<in> set (segments p) \<or> ''>'' \<in> set (segments p)"
  shows "matches (compile p) s \<longleftrightarrow>
    (if last (segments p) = ''>''
     then \<exists>a b. segments s = a @ b \<and> b \<noteq> [] \<and> list_all2 seg_fits (butlast (segments p)) a
     else list_all2 seg_fits (segments p) (segments s))"
proof -
  have sp: "segments p = butlast (segments p) @ [last (segments p)]"
    by simp
  have "''>'' \<notin> set (segments p)" if "last (segments p) \<noteq> ''>''"
    using assms(1) that by (metis sp in_set_conv_decomp insertE list.set(1,2) set_append Un_iff
        empty_iff)
  then show ?thesis
    using assms token_match_multi [OF assms(1)] token_match_no_multi [of "segments p"] sp
    by (metis matches_compile_iff)
qed

text \<open>For a pattern \<open>P.>\<close> whose part \<open>P\<close> has no wildcard segment, the two routers agree on
  every subject except \<open>P\<close> itself, which the server's router matches and the optimised
  router does not.\<close>

lemma routers_differ_only_at_prefix:
  assumes "multi p" and "''*'' \<notin> set (butlast (segments p))" and "''>'' \<notin> set (butlast (segments p))"
  shows "matches (compile p) s \<longleftrightarrow> Match p s \<and> s \<noteq> TrimSuffix p ''.>''"
proof -
  let ?q = "butlast (segments p)"
  have l: "last (segments p) = ''>''" and m: "segments (TrimSuffix p ''.>'') = ?q"
    using assms(1) segments_TrimSuffix_multi [of p] by (simp_all add: multi_def)
  have "''>'' \<in> set (segments p)"
    using l by (metis Split_nonempty last_in_set)
  then have "matches (compile p) s \<longleftrightarrow> (\<exists>b. segments s = ?q @ b \<and> b \<noteq> [])"
    using token_match_multi [OF assms(3), of "segments s"] l fits_without_star [OF assms(2)]
    by (metis Split_nonempty append_butlast_last_id matches_compile_iff)
  also have "\<dots> \<longleftrightarrow> prefix ?q (segments s) \<and> segments s \<noteq> ?q"
    by (auto simp: prefix_def)
  finally show ?thesis
    using assms(1) m by (simp add: Match_iff) (metis Split_inject)
qed

text \<open>A pattern that contains \<open>*\<close> or \<open>>\<close> only inside longer segments is filed by the optimised
  router as a wildcard pattern, but its compiled form compares the subject with the first
  segment alone: with two or more segments it does not match itself, and it matches a subject
  equal to its first segment.\<close>

lemma embedded_wildcard_misrouted:
  assumes "isWildcardPattern p" and "''*'' \<notin> set (segments p)" and "''>'' \<notin> set (segments p)"
    and "2 \<le> length (segments p)"
  shows "\<not> matches (compile p) p \<and> matches (compile p) (segments p ! 0)"
proof -
  have "segments p ! 0 \<in> set (segments p)"
    using assms(4) by (metis length_Split_pos nth_mem)
  then have "segments (segments p ! 0) = [segments p ! 0]"
    by (metis Split_no_sep segment_no_sep)
  then have "p \<noteq> segments p ! 0"
    using assms(4) by (metis length_Cons list.size(3) One_nat_def Suc_1 Suc_n_not_le_n)
  then show ?thesis
    using assms by (simp add: matches_compile_iff)
qed

end
