(* ===== verification/Router_Interface.thy ===== *)
theory Router_Interface
  imports Subject_Matching
begin

text \<open>
  What the sessions of the server rely on when they use a router, as a locale: a router
  represents a relation between patterns and sessions; subscribing, unsubscribing and removing
  a session change that relation, and looking a subject up gives every session with a
  matching pattern, once. \<open>src/server/router.go\<close> and \<open>src/server/router_optimized.go\<close> both
  implement it; the first one also makes a repeated subscription harmless.
\<close>

type_synonym sid = nat

text \<open>The abstract router: the set of subscriptions.\<close>

datatype router_op = OpSubscribe string sid | OpUnsubscribe string sid | OpRemove sid

fun abs_op :: "router_op \<Rightarrow> (string \<times> sid) set \<Rightarrow> (string \<times> sid) set" where
  "abs_op (OpSubscribe p s) R = insert (p, s) R"
| "abs_op (OpUnsubscribe p s) R = R - {(p, s)}"
| "abs_op (OpRemove s) R = {(p, x). (p, x) \<in> R \<and> x \<noteq> s}"

text \<open>No subscription is repeated while it stands: the discipline that sessions keep.\<close>

fun fresh_ops :: "router_op list \<Rightarrow> (string \<times> sid) set \<Rightarrow> bool" where
  "fresh_ops [] R = True"
| "fresh_ops (o1 # ops) R =
     ((case o1 of OpSubscribe p s \<Rightarrow> (p, s) \<notin> R | _ \<Rightarrow> True) \<and> fresh_ops ops (abs_op o1 R))"

locale subject_router =
  fixes empty :: 'r
    and subscribe :: "string \<Rightarrow> sid \<Rightarrow> 'r \<Rightarrow> 'r"
    and unsubscribe :: "string \<Rightarrow> sid \<Rightarrow> 'r \<Rightarrow> 'r"
    and remove_session :: "sid \<Rightarrow> 'r \<Rightarrow> 'r"
    and find :: "'r \<Rightarrow> string \<Rightarrow> sid list"
    and total :: "'r \<Rightarrow> nat"
    and rel :: "'r \<Rightarrow> (string \<times> sid) set"
    and inv :: "'r \<Rightarrow> bool"
    and mtch :: "string \<Rightarrow> string \<Rightarrow> bool"
  assumes inv_empty: "inv empty"
    and rel_empty: "rel empty = {}"
    and inv_subscribe: "inv r \<Longrightarrow> (p, s) \<notin> rel r \<Longrightarrow> inv (subscribe p s r)"
    and rel_subscribe: "inv r \<Longrightarrow> (p, s) \<notin> rel r \<Longrightarrow> rel (subscribe p s r) = insert (p, s) (rel r)"
    and inv_unsubscribe: "inv r \<Longrightarrow> inv (unsubscribe p s r)"
    and rel_unsubscribe: "inv r \<Longrightarrow> rel (unsubscribe p s r) = rel r - {(p, s)}"
    and inv_remove: "inv r \<Longrightarrow> inv (remove_session s r)"
    and rel_remove: "inv r \<Longrightarrow> rel (remove_session s r) = {(p, x). (p, x) \<in> rel r \<and> x \<noteq> s}"
    and find_distinct: "inv r \<Longrightarrow> distinct (find r subj)"
    and find_set: "inv r \<Longrightarrow> set (find r subj) = {s. \<exists>p. (p, s) \<in> rel r \<and> mtch p subj}"
    and total_card: "inv r \<Longrightarrow> total r = card (rel r)"
begin

fun exec :: "router_op \<Rightarrow> 'r \<Rightarrow> 'r" where
  "exec (OpSubscribe p s) r = subscribe p s r"
| "exec (OpUnsubscribe p s) r = unsubscribe p s r"
| "exec (OpRemove s) r = remove_session s r"

lemma run_refines:
  assumes "inv r" and "fresh_ops ops (rel r)"
  shows "inv (fold exec ops r) \<and> rel (fold exec ops r) = fold abs_op ops (rel r)"
  using assms
proof (induction ops arbitrary: r)
  case Nil
  then show ?case by simp
next
  case (Cons o1 ops)
  then have "inv (exec o1 r) \<and> rel (exec o1 r) = abs_op o1 (rel r)"
    by (cases o1) (simp_all add: inv_subscribe rel_subscribe inv_unsubscribe rel_unsubscribe
        inv_remove rel_remove)
  with Cons show ?case by simp
qed

lemma removed_not_found: "inv r \<Longrightarrow> s \<notin> set (find (remove_session s r) subj)"
  by (simp add: find_set inv_remove rel_remove)

lemma length_find: "inv r \<Longrightarrow> length (find r subj) = card {s. \<exists>p. (p, s) \<in> rel r \<and> mtch p subj}"
  using distinct_card [OF find_distinct [of r subj]] find_set [of r subj] by simp

end

text \<open>A router in which subscribing again changes nothing.\<close>

locale dedup_router = subject_router +
  assumes subscribe_again: "inv r \<Longrightarrow> (p, s) \<in> rel r \<Longrightarrow> subscribe p s r = r"
begin

lemma run_refines_any:
  assumes "inv r"
  shows "inv (fold exec ops r) \<and> rel (fold exec ops r) = fold abs_op ops (rel r)"
  using assms
proof (induction ops arbitrary: r)
  case Nil
  then show ?case by simp
next
  case (Cons o1 ops)
  have "inv (exec o1 r) \<and> rel (exec o1 r) = abs_op o1 (rel r)"
  proof (cases o1)
    case (OpSubscribe p s)
    then show ?thesis
      using Cons.prems
      by (cases "(p, s) \<in> rel r")
        (simp_all add: subscribe_again insert_absorb inv_subscribe rel_subscribe)
  next
    case (OpUnsubscribe p s)
    then show ?thesis
      using Cons.prems by (simp add: inv_unsubscribe rel_unsubscribe)
  next
    case (OpRemove s)
    then show ?thesis
      using Cons.prems by (simp add: inv_remove rel_remove)
  qed
  with Cons show ?case by simp
qed

end

end
