(* ===== verification/Router.thy ===== *)
theory Router
  imports Router_Interface
begin

text \<open>
  The server's subject router, \<open>src/server/router.go\<close>: a map from patterns to the slices of
  subscribed sessions, its operations, and the interpretation of the router interface on it.
  Each operation runs under the router's mutex, so it is one atomic function of the state.
\<close>

section \<open>State and operations\<close>

record router =
  subscriptions :: "(string, sid list) gomap"

definition NewRouter :: router where
  "NewRouter = \<lparr>subscriptions = []\<rparr>"

fun contains_session :: "sid \<Rightarrow> sid list \<Rightarrow> bool" where
  "contains_session session [] = False"
| "contains_session session (s # sessions) =
     (if s = session then True else contains_session session sessions)"

definition Subscribe :: "string \<Rightarrow> sid \<Rightarrow> router \<Rightarrow> router" where
  "Subscribe subject session r =
     (let sessions = map_index [] (subscriptions r) subject in
      if contains_session session sessions then r
      else r\<lparr>subscriptions := AList.update subject (sessions @ [session]) (subscriptions r)\<rparr>)"

text \<open>Storing the filtered slice, and deleting the key when it is empty.\<close>

definition store_filtered :: "string \<Rightarrow> sid list \<Rightarrow> (string, sid list) gomap \<Rightarrow>
    (string, sid list) gomap" where
  "store_filtered subject filtered m =
     (let m' = AList.update subject filtered m in
      if length (map_index [] m' subject) = 0 then AList.delete subject m' else m')"

definition Unsubscribe :: "string \<Rightarrow> sid \<Rightarrow> router \<Rightarrow> router" where
  "Unsubscribe subject session r =
     (case map_of (subscriptions r) subject of
        None \<Rightarrow> r
      | Some sessions \<Rightarrow>
          let filtered = filter_in_place (\<lambda>s. s \<noteq> session) sessions in
          r\<lparr>subscriptions := store_filtered subject filtered (subscriptions r)\<rparr>)"

text \<open>
  The loop over the map visits every entry once; it stores to and deletes only the key it is
  visiting, so it may run over the entries as they were at its start.
\<close>

fun remove_loop :: "sid \<Rightarrow> (string, sid list) gomap \<Rightarrow> (string, sid list) gomap \<Rightarrow>
    (string, sid list) gomap" where
  "remove_loop session [] m = m"
| "remove_loop session ((subject, sessions) # entries) m =
     (let filtered = filter_in_place (\<lambda>s. s \<noteq> session) sessions in
      remove_loop session entries (store_filtered subject filtered m))"

definition RemoveSession :: "sid \<Rightarrow> router \<Rightarrow> router" where
  "RemoveSession session r =
     r\<lparr>subscriptions := remove_loop session (subscriptions r) (subscriptions r)\<rparr>"

text \<open>The map \<open>uniqueSessions\<close> is the list of its keys: storing a key twice keeps one.\<close>

fun add_unique :: "sid list \<Rightarrow> sid list \<Rightarrow> sid list" where
  "add_unique unique [] = unique"
| "add_unique unique (session # sessions) =
     add_unique (if session \<in> set unique then unique else unique @ [session]) sessions"

fun find_loop :: "string \<Rightarrow> sid list \<Rightarrow> (string, sid list) gomap \<Rightarrow> sid list" where
  "find_loop subject unique [] = unique"
| "find_loop subject unique ((pattern, sessions) # entries) =
     find_loop subject (if Match pattern subject then add_unique unique sessions else unique) entries"

definition FindSubscribers :: "router \<Rightarrow> string \<Rightarrow> sid list" where
  "FindSubscribers r subject = find_loop subject [] (subscriptions r)"

definition GetSubjectCount :: "router \<Rightarrow> nat" where
  "GetSubjectCount r = length (subscriptions r)"

fun total_loop :: "nat \<Rightarrow> (string, sid list) gomap \<Rightarrow> nat" where
  "total_loop n [] = n"
| "total_loop n ((subject, sessions) # entries) = total_loop (n + length sessions) entries"

definition GetTotalSubscriptions :: "router \<Rightarrow> nat" where
  "GetTotalSubscriptions r = total_loop 0 (subscriptions r)"

section \<open>Abstraction and invariant\<close>

definition subs_rel :: "router \<Rightarrow> (string \<times> sid) set" where
  "subs_rel r = {(p, s). \<exists>ss. map_of (subscriptions r) p = Some ss \<and> s \<in> set ss}"

definition router_ok :: "router \<Rightarrow> bool" where
  "router_ok r \<longleftrightarrow> distinct (keys (subscriptions r)) \<and>
     (\<forall>p ss. map_of (subscriptions r) p = Some ss \<longrightarrow> ss \<noteq> [] \<and> distinct ss)"

lemma contains_session_iff [simp]: "contains_session s ss \<longleftrightarrow> s \<in> set ss"
  by (induction ss) auto

lemma map_of_store_filtered [simp]:
  "map_of (store_filtered k v m) = (map_of m)(k := if v = [] then None else Some v)"
  by (auto simp: store_filtered_def map_index_def)

lemma distinct_store_filtered [simp]:
  "distinct (keys m) \<Longrightarrow> distinct (keys (store_filtered k v m))"
  by (simp add: store_filtered_def Let_def)

lemma map_of_remove_loop:
  "distinct (keys es) \<Longrightarrow>
     map_of (remove_loop s es m) k =
       (case map_of es k of
          None \<Rightarrow> map_of m k
        | Some ss \<Rightarrow> if filter (\<lambda>x. x \<noteq> s) ss = [] then None else Some (filter (\<lambda>x. x \<noteq> s) ss))"
proof (induction es arbitrary: m)
  case Nil
  then show ?case by simp
next
  case (Cons e es)
  obtain p ss where e: "e = (p, ss)" by fastforce
  have "map_of es p = None"
    using Cons.prems e by (auto simp: map_of_eq_None_iff)
  then show ?case
    using Cons e by (auto simp: Let_def split: option.splits)
qed

lemma distinct_remove_loop: "distinct (keys m) \<Longrightarrow> distinct (keys (remove_loop s es m))"
  by (induction s es m rule: remove_loop.induct) (simp_all add: Let_def)

lemma set_add_unique: "set (add_unique u ss) = set u \<union> set ss"
  by (induction u ss rule: add_unique.induct) auto

lemma distinct_add_unique: "distinct u \<Longrightarrow> distinct (add_unique u ss)"
  by (induction u ss rule: add_unique.induct) auto

lemma set_find_loop:
  "set (find_loop subj u es) = set u \<union> {s. \<exists>p ss. (p, ss) \<in> set es \<and> Match p subj \<and> s \<in> set ss}"
  by (induction subj u es rule: find_loop.induct) (auto simp: set_add_unique)

lemma distinct_find_loop: "distinct u \<Longrightarrow> distinct (find_loop subj u es)"
  by (induction subj u es rule: find_loop.induct) (auto simp: distinct_add_unique)

lemma total_loop_eq: "total_loop n es = n + sum_list (map (\<lambda>(p, ss). length ss) es)"
  by (induction n es rule: total_loop.induct) auto

text \<open>The number of subscriptions is the size of the relation.\<close>

lemma subs_rel_entries:
  "distinct (keys (subscriptions r)) \<Longrightarrow>
     subs_rel r = (\<Union>(p, ss) \<in> set (subscriptions r). {p} \<times> set ss)"
  by (auto simp: subs_rel_def map_of_eq_Some_iff)

lemma card_entries:
  "distinct (keys es) \<Longrightarrow> \<forall>(p, ss) \<in> set es. distinct ss \<Longrightarrow>
     card (\<Union>(p, ss) \<in> set es. {p} \<times> set ss) = sum_list (map (\<lambda>(p, ss). length ss) es)"
proof (induction es)
  case Nil
  then show ?case by simp
next
  case (Cons e es)
  obtain p ss where e: "e = (p, ss)" by fastforce
  have dis: "({p} \<times> set ss) \<inter> (\<Union>(q, ts) \<in> set es. {q} \<times> set ts) = {}"
    using Cons.prems(1) e by force
  have "card ({p} \<times> set ss) = length ss"
    using Cons.prems(2) e by (simp add: card_cartesian_product distinct_card)
  moreover have "card (({p} \<times> set ss) \<union> (\<Union>(q, ts) \<in> set es. {q} \<times> set ts)) =
      card ({p} \<times> set ss) + card (\<Union>(q, ts) \<in> set es. {q} \<times> set ts)"
    by (rule card_Un_disjoint) (use dis in auto)
  ultimately show ?case
    using Cons e by simp
qed

lemma total_card_rel:
  assumes "router_ok r"
  shows "GetTotalSubscriptions r = card (subs_rel r)"
proof -
  have "\<forall>(p, ss) \<in> set (subscriptions r). distinct ss"
    using assms by (auto simp: router_ok_def map_of_eq_Some_iff)
  then show ?thesis
    using assms card_entries [of "subscriptions r"]
    by (simp add: GetTotalSubscriptions_def total_loop_eq subs_rel_entries router_ok_def)
qed

lemma count_card_rel: "router_ok r \<Longrightarrow> GetSubjectCount r = card (fst ` subs_rel r)"
proof -
  assume ok: "router_ok r"
  have "fst ` subs_rel r = set (keys (subscriptions r))"
  proof
    show "fst ` subs_rel r \<subseteq> set (keys (subscriptions r))"
      by (auto simp: subs_rel_def dest: map_of_SomeD intro: rev_image_eqI)
    show "set (keys (subscriptions r)) \<subseteq> fst ` subs_rel r"
    proof
      fix p assume "p \<in> set (keys (subscriptions r))"
      then obtain ss where ss: "map_of (subscriptions r) p = Some ss"
        by (auto simp: dest: weak_map_of_SomeI)
      with ok have "ss \<noteq> []" by (simp add: router_ok_def)
      then obtain s where "s \<in> set ss" by (cases ss) auto
      with ss have "(p, s) \<in> subs_rel r" by (auto simp: subs_rel_def)
      then show "p \<in> fst ` subs_rel r" by force
    qed
  qed
  then show ?thesis
    using ok distinct_card [of "keys (subscriptions r)"]
    by (simp add: GetSubjectCount_def router_ok_def)
qed

section \<open>The operations implement the interface\<close>

lemma Subscribe_again: "(p, s) \<in> subs_rel r \<Longrightarrow> Subscribe p s r = r"
  by (auto simp: Subscribe_def subs_rel_def map_index_def)

lemma Subscribe_new:
  assumes "router_ok r" and "(p, s) \<notin> subs_rel r"
  shows "router_ok (Subscribe p s r) \<and> subs_rel (Subscribe p s r) = insert (p, s) (subs_rel r)"
  using assms
  by (auto simp: Subscribe_def subs_rel_def map_index_def router_ok_def split: option.splits
      if_splits)

lemma Subscribe_spec:
  assumes "router_ok r"
  shows "router_ok (Subscribe p s r) \<and> subs_rel (Subscribe p s r) = insert (p, s) (subs_rel r)"
  using assms Subscribe_new [OF assms, of p s] Subscribe_again [of p s r]
  by (cases "(p, s) \<in> subs_rel r") (simp_all add: insert_absorb)

lemma Unsubscribe_spec:
  assumes "router_ok r"
  shows "router_ok (Unsubscribe p s r) \<and> subs_rel (Unsubscribe p s r) = subs_rel r - {(p, s)}"
  using assms
  by (auto simp: Unsubscribe_def subs_rel_def router_ok_def Let_def filter_empty_conv
      split: option.splits if_splits)

lemma RemoveSession_spec:
  assumes "router_ok r"
  shows "router_ok (RemoveSession s r) \<and>
    subs_rel (RemoveSession s r) = {(p, x). (p, x) \<in> subs_rel r \<and> x \<noteq> s}"
  using assms
  by (auto simp: RemoveSession_def subs_rel_def router_ok_def map_of_remove_loop
      distinct_remove_loop filter_empty_conv split: option.splits if_splits)

lemma FindSubscribers_set:
  "router_ok r \<Longrightarrow> set (FindSubscribers r subj) = {s. \<exists>p. (p, s) \<in> subs_rel r \<and> Match p subj}"
  by (auto simp: FindSubscribers_def set_find_loop subs_rel_def router_ok_def map_of_eq_Some_iff)

lemma FindSubscribers_distinct: "distinct (FindSubscribers r subj)"
  by (simp add: FindSubscribers_def distinct_find_loop)

lemma NewRouter_ok [simp]: "router_ok NewRouter" "subs_rel NewRouter = {}"
  by (simp_all add: NewRouter_def router_ok_def subs_rel_def)

interpretation rt: dedup_router NewRouter Subscribe Unsubscribe RemoveSession FindSubscribers
  GetTotalSubscriptions subs_rel router_ok Match
  by unfold_locales
    (simp_all add: Subscribe_new Unsubscribe_spec RemoveSession_spec FindSubscribers_set
      FindSubscribers_distinct total_card_rel Subscribe_again)

section \<open>Properties\<close>

text \<open>C9: The router refines a set of subscriptions: after any sequence of subscribe, unsubscribe
  and remove operations, in any order and with any repetitions, it represents the relation that
  the same operations give on sets, holds no empty and no repeated entry, and its two counters
  are the numbers of subscriptions and of subjects in that relation.\<close>

theorem router_refines_relation:
  "router_ok (fold rt.exec ops NewRouter) \<and>
   subs_rel (fold rt.exec ops NewRouter) = fold abs_op ops {} \<and>
   GetTotalSubscriptions (fold rt.exec ops NewRouter) = card (fold abs_op ops {}) \<and>
   GetSubjectCount (fold rt.exec ops NewRouter) = card (fst ` fold abs_op ops {})"
  using rt.run_refines_any [of NewRouter ops]
  by (simp add: rt.total_card count_card_rel)

text \<open>C8: A lookup finds exactly the sessions that hold a subscription whose pattern matches the
  subject, each of them once, after any sequence of router operations.\<close>

theorem find_subscribers_exact:
  "distinct (FindSubscribers (fold rt.exec ops NewRouter) subject) \<and>
   set (FindSubscribers (fold rt.exec ops NewRouter) subject) =
     {s. \<exists>p. (p, s) \<in> fold abs_op ops {} \<and> Match p subject}"
  using rt.run_refines_any [of NewRouter ops]
  by (simp add: rt.find_set FindSubscribers_distinct)

text \<open>The unspecified iteration order of Go maps does not matter: two routers whose maps have
  the same entries in different orders find the same sessions.\<close>

lemma find_order_irrelevant:
  assumes "mset (subscriptions r) = mset (subscriptions r')"
  shows "mset (FindSubscribers r subject) = mset (FindSubscribers r' subject)"
proof -
  have "set (subscriptions r) = set (subscriptions r')"
    using assms by (metis set_mset_mset)
  then have "set (FindSubscribers r subject) = set (FindSubscribers r' subject)"
    by (simp add: FindSubscribers_def set_find_loop)
  then show ?thesis
    by (simp add: set_eq_iff_mset_eq_distinct [symmetric] FindSubscribers_distinct)
qed

end
