(* ===== verification/Utf8.thy ===== *)
theory Utf8
  imports Go_Strings
begin

text \<open>
  \<open>truncateUTF8\<close> of \<open>src/server/session.go\<close>, which cuts a reply text to the subject limit, and
  the validity test of the Go package \<open>unicode/utf8\<close> that it calls. The result is the longest
  valid prefix within the limit; on a valid text it loses at most three bytes of the limit.
\<close>

section \<open>Validity\<close>

text \<open>A continuation byte lies between 0x80 and 0xBF.\<close>

definition cont :: "nat \<Rightarrow> bool" where
  "cont b \<longleftrightarrow> 0x80 \<le> b \<and> b \<le> 0xBF"

text \<open>The range of the second byte, and the number of further bytes, by the first byte.\<close>

definition lead2 :: "nat \<Rightarrow> bool" where
  "lead2 a \<longleftrightarrow> 0xC2 \<le> a \<and> a \<le> 0xDF"

definition second3 :: "nat \<Rightarrow> nat \<Rightarrow> bool" where
  "second3 a b \<longleftrightarrow>
     (a = 0xE0 \<and> 0xA0 \<le> b \<and> b \<le> 0xBF) \<or>
     (a = 0xED \<and> 0x80 \<le> b \<and> b \<le> 0x9F) \<or>
     (0xE1 \<le> a \<and> a \<le> 0xEF \<and> a \<noteq> 0xED \<and> cont b)"

definition second4 :: "nat \<Rightarrow> nat \<Rightarrow> bool" where
  "second4 a b \<longleftrightarrow>
     (a = 0xF0 \<and> 0x90 \<le> b \<and> b \<le> 0xBF) \<or>
     (a = 0xF4 \<and> 0x80 \<le> b \<and> b \<le> 0x8F) \<or>
     (0xF1 \<le> a \<and> a \<le> 0xF3 \<and> cont b)"

function valid_utf8 :: "nat list \<Rightarrow> bool" where
  "valid_utf8 bs =
     (case bs of
        [] \<Rightarrow> True
      | a # bs1 \<Rightarrow>
          if a < 0x80 then valid_utf8 bs1
          else (case bs1 of
              [] \<Rightarrow> False
            | b # bs2 \<Rightarrow>
                if lead2 a \<and> cont b then valid_utf8 bs2
                else (case bs2 of
                    [] \<Rightarrow> False
                  | c # bs3 \<Rightarrow>
                      if second3 a b \<and> cont c then valid_utf8 bs3
                      else (case bs3 of
                          [] \<Rightarrow> False
                        | d # bs4 \<Rightarrow> second4 a b \<and> cont c \<and> cont d \<and> valid_utf8 bs4))))"
  by pat_completeness auto
termination
  by (relation "measure length") auto

declare valid_utf8.simps [simp del]

definition ValidString :: "string \<Rightarrow> bool" where
  "ValidString s = valid_utf8 (map of_char s)"

section \<open>Truncation\<close>

text \<open>The loop that drops bytes from the end until the text is valid.\<close>

function trim_invalid :: "string \<Rightarrow> string" where
  "trim_invalid out =
     (if \<not> ValidString out \<and> length out > 0 then trim_invalid (take (length out - 1) out) else out)"
  by pat_completeness auto
termination
  by (relation "measure length") auto

declare trim_invalid.simps [simp del]

definition truncateUTF8 :: "string \<Rightarrow> nat \<Rightarrow> string" where
  "truncateUTF8 s maxBytes =
     (if length s \<le> maxBytes then s
      else let out = trim_invalid (take maxBytes s) in
        if length out = 0 then [] else out)"

section \<open>Lemmas\<close>

lemma valid_utf8_Nil [simp]: "valid_utf8 []"
  by (simp add: valid_utf8.simps)

lemma ValidString_Nil [simp]: "ValidString []"
  by (simp add: ValidString_def)

lemma trim_invalid_longest:
  "\<exists>n. trim_invalid s = take n s \<and> n \<le> length s \<and> ValidString (take n s) \<and>
     (\<forall>m. n < m \<and> m \<le> length s \<longrightarrow> \<not> ValidString (take m s))"
proof (induction s rule: trim_invalid.induct)
  case (1 s)
  show ?case
  proof (cases "\<not> ValidString s \<and> length s > 0")
    case True
    then obtain n where n: "trim_invalid (take (length s - 1) s) = take n (take (length s - 1) s)"
      "n \<le> length s - 1" "ValidString (take n (take (length s - 1) s))"
      "\<forall>m. n < m \<and> m \<le> length s - 1 \<longrightarrow> \<not> ValidString (take m (take (length s - 1) s))"
      using "1.IH" by auto
    have "\<not> ValidString (take m s)" if "n < m" "m \<le> length s" for m
    proof (cases "m = length s")
      case True
      then show ?thesis using \<open>\<not> ValidString s \<and> length s > 0\<close> by simp
    next
      case False
      then have "m \<le> length s - 1" using that by simp
      then show ?thesis using n(4) that by (simp add: min_def)
    qed
    moreover have "trim_invalid s = take n s"
      using True n(1,2) by (subst trim_invalid.simps) (simp add: min_def)
    ultimately show ?thesis
      using n(2,3) by (intro exI [of _ n]) (simp add: min_def)
  next
    case False
    then show ?thesis
      by (intro exI [of _ "length s"]) (auto simp: trim_invalid.simps [of s])
  qed
qed

text \<open>A valid text starts with a character of one to four bytes, followed by a valid text.\<close>

lemma valid_utf8_split:
  assumes "valid_utf8 bs" and "bs \<noteq> []"
  obtains k where "1 \<le> k" "k \<le> 4" "k \<le> length bs" "valid_utf8 (drop k bs)"
    "\<And>cs. valid_utf8 cs \<Longrightarrow> valid_utf8 (take k bs @ cs)"
proof -
  obtain a bs1 where bs: "bs = a # bs1" using assms(2) by (cases bs) auto
  show thesis
  proof (cases "a < 0x80")
    case True
    with assms(1) show thesis
      by (intro that [of 1]) (auto simp: bs valid_utf8.simps [of "a # _"])
  next
    case a: False
    then obtain b bs2 where bs1: "bs1 = b # bs2"
      using assms(1) by (cases bs1) (auto simp: bs valid_utf8.simps [of "a # _"])
    show thesis
    proof (cases "lead2 a \<and> cont b")
      case True
      with a assms(1) show thesis
        by (intro that [of 2]) (auto simp: bs bs1 valid_utf8.simps [of "a # _"])
    next
      case ab: False
      then obtain c bs3 where bs2: "bs2 = c # bs3"
        using assms(1) a by (cases bs2) (auto simp: bs bs1 valid_utf8.simps [of "a # _"])
      show thesis
      proof (cases "second3 a b \<and> cont c")
        case True
        with a ab assms(1) show thesis
          by (intro that [of 3]) (auto simp: bs bs1 bs2 valid_utf8.simps [of "a # _"])
      next
        case abc: False
        then obtain d bs4 where "bs3 = d # bs4"
          using assms(1) a ab by (cases bs3) (auto simp: bs bs1 bs2 valid_utf8.simps [of "a # _"])
        with a ab abc assms(1) show thesis
          by (intro that [of 4]) (auto simp: bs bs1 bs2 valid_utf8.simps [of "a # _"])
      qed
    qed
  qed
qed

text \<open>Somewhere in the last three bytes before any cut, a valid text has a valid prefix.\<close>

lemma valid_prefix_near:
  "valid_utf8 bs \<Longrightarrow> m \<le> length bs \<Longrightarrow> \<exists>n \<le> m. m \<le> n + 3 \<and> valid_utf8 (take n bs)"
proof (induction "length bs" arbitrary: bs m rule: less_induct)
  case less
  show ?case
  proof (cases "bs = []")
    case True
    then show ?thesis using less.prems by (intro exI [of _ 0]) simp
  next
    case False
    then obtain k where k: "1 \<le> k" "k \<le> 4" "k \<le> length bs" "valid_utf8 (drop k bs)"
      "\<And>cs. valid_utf8 cs \<Longrightarrow> valid_utf8 (take k bs @ cs)"
      using valid_utf8_split [OF less.prems(1)] by metis
    show ?thesis
    proof (cases "m < k")
      case True
      then show ?thesis using k(2) by (intro exI [of _ 0]) simp
    next
      case ge: False
      have "length (drop k bs) < length bs" using k(1,3) by simp
      then obtain n where n: "n \<le> m - k" "m - k \<le> n + 3" "valid_utf8 (take n (drop k bs))"
        using less.hyps [of "drop k bs" "m - k"] k(4) diff_le_mono [OF less.prems(2), of k] by auto
      have "take (k + n) bs = take k bs @ take n (drop k bs)"
        by (simp add: take_add)
      then have "valid_utf8 (take (k + n) bs)"
        using k(5) [OF n(3)] by simp
      then show ?thesis
        using n ge by (intro exI [of _ "k + n"]) auto
    qed
  qed
qed

lemma truncate_cases:
  "truncateUTF8 s n = (if length s \<le> n then s else trim_invalid (take n s))"
  by (simp add: truncateUTF8_def Let_def)

lemma length_truncateUTF8: "length (truncateUTF8 s n) \<le> n"
  using trim_invalid_longest [of "take n s"] by (auto simp: truncate_cases)

lemma truncate_prefix: "prefix (truncateUTF8 s n) s"
  using trim_invalid_longest [of "take n s"]
  by (auto simp: truncate_cases take_is_prefix min_def)

section \<open>Properties\<close>

text \<open>Truncating a text to a limit gives a prefix of the text within the limit. When something
  is cut, the result is valid UTF-8 and is the longest valid prefix within the limit; when the
  text itself is valid, it is at most three bytes shorter than the limit.\<close>

lemma truncate_longest_valid:
  assumes "n < length s"
  shows "prefix (truncateUTF8 s n) s \<and> length (truncateUTF8 s n) \<le> n \<and>
    ValidString (truncateUTF8 s n) \<and>
    (\<forall>t. prefix t s \<and> length t \<le> n \<and> ValidString t \<longrightarrow> length t \<le> length (truncateUTF8 s n)) \<and>
    (ValidString s \<longrightarrow> n \<le> length (truncateUTF8 s n) + 3)"
proof -
  obtain k where k: "trim_invalid (take n s) = take k (take n s)" "k \<le> length (take n s)"
    "ValidString (take k (take n s))"
    "\<forall>m. k < m \<and> m \<le> length (take n s) \<longrightarrow> \<not> ValidString (take m (take n s))"
    using trim_invalid_longest [of "take n s"] by blast
  have kn: "k \<le> n" using k(2) by simp
  have t: "truncateUTF8 s n = take k s"
    using assms k(1) kn by (simp add: truncate_cases min_def)
  have max: "length u \<le> k" if "prefix u s" "length u \<le> n" "ValidString u" for u
  proof (rule ccontr)
    assume "\<not> length u \<le> k"
    moreover have "u = take (length u) s"
      using that(1) by (auto simp: prefix_def)
    then have "u = take (length u) (take n s)"
      using that(2) by (simp add: min_def)
    ultimately show False
      using k(4) that assms by (metis length_take min.absorb2 less_imp_le not_le)
  qed
  have near: "n \<le> k + 3" if v: "ValidString s"
  proof -
    obtain m where m: "m \<le> n" "n \<le> m + 3" "valid_utf8 (take m (map of_char s))"
      using valid_prefix_near [of "map of_char s" n] v assms by (auto simp: ValidString_def)
    then have "ValidString (take m s)"
      by (simp add: ValidString_def take_map)
    then have "m \<le> k"
      using max [of "take m s"] m(1) assms by (simp add: take_is_prefix)
    then show ?thesis using m(2) by simp
  qed
  have "length (take k s) = k" using kn assms by simp
  then show ?thesis
    using t kn k(3) max near by (simp add: take_is_prefix min_def)
qed

end
