(* ===== verification/Ring_Buffer.thy ===== *)
theory Ring_Buffer
  imports KCPQ_Prelude
begin

text \<open>
  The ring buffer of the client's latency statistics, \<open>src/client/ringbuffer.go\<close>, and the
  average that \<open>src/client/client.go\<close> computes from it. The buffer refines a window on the
  last \<open>size\<close> values added.
\<close>

section \<open>State and operations\<close>

text \<open>A \<open>time.Duration\<close> is a signed 64-bit count of nanoseconds.\<close>

type_synonym duration = int

record ringBuffer =
  rb_data :: "duration list"
  rb_size :: nat
  rb_head :: nat
  rb_tail :: nat
  rb_count :: nat

definition newRingBuffer :: "nat \<Rightarrow> ringBuffer" where
  "newRingBuffer n = \<lparr>rb_data = replicate n 0, rb_size = n, rb_head = 0, rb_tail = 0, rb_count = 0\<rparr>"

text \<open>A remainder by zero and a write out of range are panics.\<close>

definition go_mod :: "nat \<Rightarrow> nat \<Rightarrow> nat option" where
  "go_mod a b = (if b = 0 then None else Some (a mod b))"

definition rb_Add :: "duration \<Rightarrow> ringBuffer \<Rightarrow> ringBuffer option" where
  "rb_Add item rb = do {
     rb1 \<leftarrow> (if rb_count rb = rb_size rb
            then map_option (\<lambda>t. rb\<lparr>rb_tail := t\<rparr>) (go_mod (rb_tail rb + 1) (rb_size rb))
            else Some (rb\<lparr>rb_count := rb_count rb + 1\<rparr>));
     rb2 \<leftarrow> (if rb_head rb1 < length (rb_data rb1)
            then Some (rb1\<lparr>rb_data := (rb_data rb1)[rb_head rb1 := item]\<rparr>) else None);
     map_option (\<lambda>h. rb2\<lparr>rb_head := h\<rparr>) (go_mod (rb_head rb2 + 1) (rb_size rb2))
   }"

definition rb_ToSlice :: "ringBuffer \<Rightarrow> duration list" where
  "rb_ToSlice rb =
     (if rb_count rb = 0 then []
      else let result = replicate (rb_count rb) 0 in
        if rb_count rb < rb_size rb
        then copy_at 0 (take (rb_count rb) (rb_data rb)) result
        else let n = min (length result) (length (drop (rb_head rb) (rb_data rb)));
                 result = copy_at 0 (drop (rb_head rb) (rb_data rb)) result
             in copy_at n (take (rb_tail rb) (rb_data rb)) result)"

definition rb_Len :: "ringBuffer \<Rightarrow> nat" where
  "rb_Len rb = rb_count rb"

definition rb_Reset :: "ringBuffer \<Rightarrow> ringBuffer" where
  "rb_Reset rb = rb\<lparr>rb_head := 0, rb_tail := 0, rb_count := 0\<rparr>"

fun rb_Add_all :: "duration list \<Rightarrow> ringBuffer \<Rightarrow> ringBuffer option" where
  "rb_Add_all [] rb = Some rb"
| "rb_Add_all (x # xs) rb = do { rb' \<leftarrow> rb_Add x rb; rb_Add_all xs rb' }"

text \<open>\<open>calculateAvgLatencyLocked\<close>: the sum is a 64-bit accumulator.\<close>

fun sum_latencies :: "duration \<Rightarrow> duration list \<Rightarrow> duration" where
  "sum_latencies acc [] = acc"
| "sum_latencies acc (l # ls) = sum_latencies (wrap64 (acc + l)) ls"

definition calculateAvgLatency :: "ringBuffer \<Rightarrow> duration" where
  "calculateAvgLatency rb =
     (let latencies = rb_ToSlice rb in
      if length latencies = 0 then 0
      else go_div (sum_latencies 0 latencies) (int (length latencies)))"

section \<open>The window\<close>

definition last_n :: "nat \<Rightarrow> 'a list \<Rightarrow> 'a list" where
  "last_n n xs = drop (length xs - n) xs"

lemma length_last_n [simp]: "length (last_n n xs) = min n (length xs)"
  by (simp add: last_n_def)

lemma last_n_append: "last_n n (last_n n xs @ ys) = last_n n (xs @ ys)"
  by (cases "length xs \<le> n") (auto simp: last_n_def add.commute)

lemma last_n_short: "length xs \<le> n \<Longrightarrow> last_n n xs = xs"
  by (simp add: last_n_def)

text \<open>A container that keeps the last values added to it.\<close>

locale sliding_window =
  fixes add :: "'a \<Rightarrow> 'w \<Rightarrow> 'w option"
    and contents :: "'w \<Rightarrow> 'a list"
    and width :: "'w \<Rightarrow> nat"
    and ok :: "'w \<Rightarrow> bool"
  assumes add_spec: "ok w \<Longrightarrow> \<exists>w'. add x w = Some w' \<and> ok w' \<and> width w' = width w \<and>
      contents w' = last_n (width w) (contents w @ [x])"
begin

fun add_all :: "'a list \<Rightarrow> 'w \<Rightarrow> 'w option" where
  "add_all [] w = Some w"
| "add_all (x # xs) w = Option.bind (add x w) (add_all xs)"

lemma add_all_spec:
  assumes "ok w" and "length (contents w) \<le> width w"
  shows "\<exists>w'. add_all xs w = Some w' \<and> ok w' \<and> width w' = width w \<and>
    contents w' = last_n (width w) (contents w @ xs)"
  using assms
proof (induction xs arbitrary: w)
  case Nil
  then show ?case by (simp add: last_n_short)
next
  case (Cons x xs)
  obtain w1 where w1: "add x w = Some w1" "ok w1" "width w1 = width w"
    "contents w1 = last_n (width w) (contents w @ [x])"
    using add_spec [OF Cons.prems(1), of x] by auto
  then obtain w2 where w2: "add_all xs w1 = Some w2" "ok w2" "width w2 = width w"
    "contents w2 = last_n (width w) (contents w1 @ xs)"
    using Cons.IH [of w1] by auto
  show ?case
    using w1 w2 last_n_append [of "width w" "contents w @ [x]" xs] by simp
qed

end

section \<open>The ring buffer is a window\<close>

text \<open>
  While the buffer fills, \<open>tail\<close> stays at 0 and \<open>head\<close> equals \<open>count\<close>; when it is full, both
  point at the oldest element.
\<close>

definition rb_ok :: "ringBuffer \<Rightarrow> bool" where
  "rb_ok rb \<longleftrightarrow> 0 < rb_size rb \<and> length (rb_data rb) = rb_size rb \<and>
     rb_head rb < rb_size rb \<and> rb_count rb \<le> rb_size rb \<and>
     (rb_count rb < rb_size rb \<longrightarrow> rb_tail rb = 0 \<and> rb_head rb = rb_count rb) \<and>
     (rb_count rb = rb_size rb \<longrightarrow> rb_tail rb = rb_head rb)"

definition rb_contents :: "ringBuffer \<Rightarrow> duration list" where
  "rb_contents rb =
     (if rb_count rb < rb_size rb then take (rb_count rb) (rb_data rb)
      else drop (rb_head rb) (rb_data rb) @ take (rb_head rb) (rb_data rb))"

lemma length_rb_contents: "rb_ok rb \<Longrightarrow> length (rb_contents rb) = rb_count rb"
  by (auto simp: rb_ok_def rb_contents_def)

lemma ToSlice_contents: "rb_ok rb \<Longrightarrow> rb_ToSlice rb = rb_contents rb"
  by (auto simp: rb_ok_def rb_contents_def rb_ToSlice_def copy_at_def Let_def)

lemma newRingBuffer_ok: "0 < n \<Longrightarrow> rb_ok (newRingBuffer n) \<and> rb_contents (newRingBuffer n) = []"
  by (simp add: rb_ok_def newRingBuffer_def rb_contents_def)

lemma Reset_ok: "rb_ok rb \<Longrightarrow> rb_ok (rb_Reset rb) \<and> rb_contents (rb_Reset rb) = []"
  by (auto simp: rb_ok_def rb_Reset_def rb_contents_def)

lemma rb_Add_eval:
  assumes "rb_ok rb"
  shows "rb_Add x rb = Some (rb\<lparr>rb_data := (rb_data rb)[rb_head rb := x],
      rb_head := (rb_head rb + 1) mod rb_size rb,
      rb_tail := (if rb_count rb = rb_size rb then (rb_tail rb + 1) mod rb_size rb else rb_tail rb),
      rb_count := (if rb_count rb = rb_size rb then rb_count rb else rb_count rb + 1)\<rparr>)"
  using assms by (auto simp: rb_Add_def rb_ok_def go_mod_def)

lemma rotate_overwrite:
  assumes "h < length d"
  shows "drop ((h + 1) mod length d) (d[h := x]) @ take ((h + 1) mod length d) (d[h := x]) =
    drop (Suc h) d @ take h d @ [x]"
proof (cases "Suc h < length d")
  case True
  then show ?thesis
    by (simp add: take_Suc_conv_app_nth)
next
  case False
  then have "Suc h = length d" using assms by simp
  then show ?thesis
    using assms by (simp add: upd_conv_take_nth_drop)
qed

lemma rb_Add_spec:
  assumes ok: "rb_ok rb"
  shows "\<exists>rb'. rb_Add x rb = Some rb' \<and> rb_ok rb' \<and> rb_size rb' = rb_size rb \<and>
    rb_contents rb' = last_n (rb_size rb) (rb_contents rb @ [x])"
proof -
  define rb' where "rb' = rb\<lparr>rb_data := (rb_data rb)[rb_head rb := x],
      rb_head := (rb_head rb + 1) mod rb_size rb,
      rb_tail := (if rb_count rb = rb_size rb then (rb_tail rb + 1) mod rb_size rb else rb_tail rb),
      rb_count := (if rb_count rb = rb_size rb then rb_count rb else rb_count rb + 1)\<rparr>"
  have l: "length (rb_data rb) = rb_size rb" and h: "rb_head rb < rb_size rb"
    using ok by (simp_all add: rb_ok_def)
  have ok': "rb_ok rb'"
    using ok by (auto simp: rb'_def rb_ok_def)
  have "rb_contents rb' = last_n (rb_size rb) (rb_contents rb @ [x])"
  proof (cases "rb_count rb = rb_size rb")
    case True
    have "rb_contents rb' = drop (Suc (rb_head rb)) (rb_data rb) @ take (rb_head rb) (rb_data rb) @ [x]"
      using True rotate_overwrite [of "rb_head rb" "rb_data rb" x] l h
      by (simp add: rb_contents_def rb'_def)
    moreover have "last_n (rb_size rb) (rb_contents rb @ [x]) = drop 1 (rb_contents rb @ [x])"
      using length_rb_contents [OF ok] True by (simp add: last_n_def)
    moreover have "drop 1 (rb_contents rb @ [x]) =
        drop (Suc (rb_head rb)) (rb_data rb) @ take (rb_head rb) (rb_data rb) @ [x]"
      using True l h Cons_nth_drop_Suc [of "rb_head rb" "rb_data rb", symmetric]
      by (simp add: rb_contents_def)
    ultimately show ?thesis by simp
  next
    case False
    then have c: "rb_count rb < rb_size rb" "rb_head rb = rb_count rb"
      using ok by (auto simp: rb_ok_def)
    have "rb_contents rb' = rb_contents rb @ [x]"
    proof (cases "Suc (rb_count rb) < rb_size rb")
      case True
      then show ?thesis
        using c l by (simp add: rb_contents_def rb'_def take_Suc_conv_app_nth)
    next
      case False
      then have "Suc (rb_count rb) = rb_size rb" using c by simp
      then show ?thesis
        using c rotate_overwrite [of "rb_head rb" "rb_data rb" x] l h
        by (simp add: rb_contents_def rb'_def)
    qed
    then show ?thesis
      using length_rb_contents [OF ok] c by (simp add: last_n_short)
  qed
  then show ?thesis
    using rb_Add_eval [OF ok, of x] ok' by (simp add: rb'_def)
qed

interpretation rbw: sliding_window rb_Add rb_contents rb_size rb_ok
  by unfold_locales (rule rb_Add_spec)

lemma rb_Add_all_eq: "rb_Add_all xs rb = rbw.add_all xs rb"
proof (induction xs arbitrary: rb)
  case Nil
  show ?case by simp
next
  case (Cons x xs)
  then have "rb_Add_all xs = rbw.add_all xs" by (rule ext)
  then show ?case by simp
qed

lemma div_between:
  fixes k :: int
  assumes "0 < k" and "k * l \<le> s" and "s \<le> k * h"
  shows "l \<le> s div k \<and> s div k \<le> h"
  using zdiv_mono1 [OF assms(2,1)] zdiv_mono1 [OF assms(3,1)] assms(1) by simp

lemma sum_latencies_exact:
  assumes "0 \<le> acc" and "\<forall>l \<in> set ls. 0 \<le> l" and "acc + sum_list ls < 2 ^ 63"
  shows "sum_latencies acc ls = acc + sum_list ls"
  using assms
proof (induction ls arbitrary: acc)
  case Nil
  then show ?case by simp
next
  case (Cons l ls)
  have "0 \<le> sum_list ls"
    using Cons.prems(2) by (auto intro: sum_list_nonneg)
  then have "wrap64 (acc + l) = acc + l"
    using Cons.prems by (intro wrap64_id) auto
  then show ?case
    using Cons by simp
qed

section \<open>Properties\<close>

text \<open>Adding any number of values to a new ring buffer of positive size never panics, and
  \<open>ToSlice\<close> then gives exactly the last \<open>size\<close> of them, oldest first.\<close>

lemma ring_buffer_keeps_last:
  assumes "0 < n"
  shows "\<exists>rb. rb_Add_all xs (newRingBuffer n) = Some rb \<and>
    rb_ToSlice rb = drop (length xs - n) xs \<and> rb_Len rb = min n (length xs)"
proof -
  have w: "rb_size (newRingBuffer n) = n" by (simp add: newRingBuffer_def)
  obtain rb where rb: "rbw.add_all xs (newRingBuffer n) = Some rb" "rb_ok rb"
    "rb_contents rb = last_n n xs"
    using rbw.add_all_spec [of "newRingBuffer n" xs] newRingBuffer_ok [OF assms] w by auto
  then have "rb_Len rb = min n (length xs)"
    using length_rb_contents [OF rb(2)] by (simp add: rb_Len_def)
  then show ?thesis
    using rb by (simp add: rb_Add_all_eq ToSlice_contents last_n_def)
qed

text \<open>After a reset the ring buffer behaves as a new one of the same size, whatever was in it
  before.\<close>

lemma ring_buffer_reset:
  assumes "0 < n" and "rb_Add_all xs (newRingBuffer n) = Some rb"
  shows "\<exists>rb'. rb_Add_all ys (rb_Reset rb) = Some rb' \<and> rb_ToSlice rb' = drop (length ys - n) ys"
proof -
  have w: "rb_size (newRingBuffer n) = n" by (simp add: newRingBuffer_def)
  have "rb_ok rb \<and> rb_size rb = n"
    using rbw.add_all_spec [of "newRingBuffer n" xs] newRingBuffer_ok [OF assms(1)] assms(2) w
    by (auto simp: rb_Add_all_eq)
  then have r: "rb_ok (rb_Reset rb)" "rb_contents (rb_Reset rb) = []" "rb_size (rb_Reset rb) = n"
    using Reset_ok [of rb] by (auto simp: rb_Reset_def)
  obtain rb' where "rbw.add_all ys (rb_Reset rb) = Some rb'" "rb_ok rb'" "rb_contents rb' = last_n n ys"
    using rbw.add_all_spec [of "rb_Reset rb" ys] r by auto
  then show ?thesis
    by (simp add: rb_Add_all_eq ToSlice_contents last_n_def)
qed

text \<open>The average latency lies between the smallest and the largest of the last values added,
  provided that they are not negative and that their sum fits 64 bits.\<close>

lemma average_latency_bounds:
  assumes n: "0 < n" and add: "rb_Add_all xs (newRingBuffer n) = Some rb" and ne: "xs \<noteq> []"
    and lo: "\<forall>x \<in> set xs. low \<le> x" and hi: "\<forall>x \<in> set xs. x \<le> high"
    and nn: "0 \<le> low" and fit: "int n * high < 2 ^ 63"
  shows "low \<le> calculateAvgLatency rb \<and> calculateAvgLatency rb \<le> high"
proof -
  let ?w = "drop (length xs - n) xs"
  have ts: "rb_ToSlice rb = ?w"
    using add n rbw.add_all_spec [of "newRingBuffer n" xs] newRingBuffer_ok [OF n]
    by (auto simp: rb_Add_all_eq ToSlice_contents last_n_def newRingBuffer_def)
  have len: "0 < length ?w" "length ?w \<le> n"
    using ne n by auto
  have el: "\<forall>x \<in> set ?w. low \<le> x \<and> x \<le> high"
    using lo hi by (auto dest: in_set_dropD)
  have s1: "int (length ys) * low \<le> sum_list ys \<and> sum_list ys \<le> int (length ys) * high"
    if "\<forall>x \<in> set ys. low \<le> x \<and> x \<le> high" for ys
    using that by (induction ys) (auto simp: algebra_simps)
  have h0: "0 \<le> high"
    using ne lo hi nn by (cases xs) auto
  have "int (length ?w) * high \<le> int n * high"
    using len h0 by (intro mult_right_mono) simp_all
  then have sum: "sum_latencies 0 ?w = sum_list ?w"
    using s1 [OF el] el nn fit by (intro sum_latencies_exact [of 0, simplified]) auto
  have "0 \<le> sum_list ?w"
    using el nn by (intro sum_list_nonneg) auto
  then have avg: "calculateAvgLatency rb = sum_list ?w div int (length ?w)"
    using len by (simp add: calculateAvgLatency_def ts sum Let_def go_div_nonneg)
  have "0 < int (length ?w)"
    using len(1) by (simp only: of_nat_0_less_iff)
  from div_between [OF this] s1 [OF el] show ?thesis
    unfolding avg by blast
qed

end
