(* ===== verification/Session.thy ===== *)
theory Session
  imports Protocol Router Utf8 Ring_Buffer
begin

text \<open>
  One session of the server, \<open>src/server/session.go\<close>: its struct, the bounded send queue with
  byte accounting (\<open>enqueueEncoded\<close>), and the methods that send replies. The handlers that
  also touch the router and the server are in theory \<open>Server\<close>; the interleaving of concurrent
  senders with the write loop is in theory \<open>Backpressure\<close>.
\<close>

section \<open>State\<close>

text \<open>The errors that the methods return, and their texts.\<close>

datatype session_error =
    SessionClosed
  | SubjectTooLong nat
  | MessageTooLarge
  | EncodedMessageTooLarge
  | BackpressureLimitExceeded
  | SendQueueFull
  | UnknownCommand byte

fun session_error_text :: "session_error \<Rightarrow> string" where
  "session_error_text SessionClosed = ''session closed''"
| "session_error_text (SubjectTooLong n) = ''subject too long: '' @ dec n"
| "session_error_text MessageTooLarge = ''message too large''"
| "session_error_text EncodedMessageTooLarge = ''encoded message too large''"
| "session_error_text BackpressureLimitExceeded = ''backpressure limit exceeded''"
| "session_error_text SendQueueFull = ''send queue full''"
| "session_error_text (UnknownCommand c) = ''unknown command: '' @ dec (unat c)"

text \<open>
  The struct. The channel \<open>done\<close> is only ever closed, so it is a flag; \<open>closeOnce\<close> is a flag that
  says whether its function ran; \<open>pendingClose\<close> counts the goroutines started by
  \<open>go s.Close()\<close> that have not run yet. The pointer \<open>conn\<close> is nil or not, and the connection
  it points to is closed or not. The back pointer \<open>server\<close> is implicit: the methods that use it
  take the server as an argument.
\<close>

record session =
  has_conn :: bool
  conn_closed :: bool
  subjects :: "string list"
  lastPing :: int
  outChan :: "bytes chan"
  queuedBytes :: int
  maxQueuedBytes :: int
  writeTimeout :: duration
  done_closed :: bool
  closed :: bool
  closeOnce :: bool
  pendingClose :: nat

text \<open>The configuration that a session copies from its server when it is created.\<close>

record session_config =
  sessionOutChanCap :: int
  maxSessionQueuedBytes :: int
  sessionWriteTimeout :: duration

definition NewSession :: "bool \<Rightarrow> session_config option \<Rightarrow> int \<Rightarrow> session" where
  "NewSession conn server now =
     (let outCap = 1024; maxQueued = 32 * 1024 * 1024; timeout = 5 * 1000000000;
          (outCap, maxQueued, timeout) =
            (case server of
               None \<Rightarrow> (outCap, maxQueued, timeout)
             | Some cfg \<Rightarrow>
                 (if sessionOutChanCap cfg > 0 then sessionOutChanCap cfg else outCap,
                  if maxSessionQueuedBytes cfg > 0 then maxSessionQueuedBytes cfg else maxQueued,
                  if sessionWriteTimeout cfg > 0 then sessionWriteTimeout cfg else timeout))
      in \<lparr>has_conn = conn, conn_closed = False, subjects = [], lastPing = now, outChan = make_chan (nat outCap),
          queuedBytes = 0, maxQueuedBytes = maxQueued, writeTimeout = timeout,
          done_closed = False, closed = False, closeOnce = False, pendingClose = 0\<rparr>)"

section \<open>Sending\<close>

text \<open>
  \<open>enqueueEncoded\<close> without interference: the compare-and-swap succeeds at once. The channel
  \<open>outChan\<close> is never closed, so a send that does not succeed finds it full.
\<close>

definition enqueueEncoded :: "bytes \<Rightarrow> session \<Rightarrow> session \<times> session_error option" where
  "enqueueEncoded encoded s =
     (if closed s then (s, Some SessionClosed)
      else let n = int (length encoded); current = queuedBytes s; nxt = wrap64 (current + n) in
        if maxQueuedBytes s > 0 \<and> nxt > maxQueuedBytes s
        then (s\<lparr>pendingClose := pendingClose s + 1\<rparr>, Some BackpressureLimitExceeded)
        else let s1 = s\<lparr>queuedBytes := nxt\<rparr> in
          case try_send encoded (outChan s1) of
            (c, Sent) \<Rightarrow> (s1\<lparr>outChan := c\<rparr>, None)
          | (c, _) \<Rightarrow> (s1\<lparr>queuedBytes := wrap64 (queuedBytes s1 - n),
                         pendingClose := pendingClose s1 + 1\<rparr>, Some SendQueueFull))"

definition SendMessage :: "string \<Rightarrow> bytes \<Rightarrow> session \<Rightarrow> session \<times> session_error option" where
  "SendMessage subject payload s =
     (if closed s then (s, Some SessionClosed)
      else if length subject > MaxSubjectLen then (s, Some (SubjectTooLong (length subject)))
      else if 1 + 2 + length subject + length payload > MaxBodyLen then (s, Some MessageTooLarge)
      else enqueueEncoded (Encode (NewMessageCmd CmdMsg subject payload)) s)"

definition SendEncoded :: "bytes \<Rightarrow> session \<Rightarrow> session \<times> session_error option" where
  "SendEncoded encoded s =
     (if closed s then (s, Some SessionClosed)
      else if length encoded > MaxBodyLen + 4 then (s, Some EncodedMessageTooLarge)
      else enqueueEncoded encoded s)"

definition SendOK :: "string \<Rightarrow> session \<Rightarrow> session \<times> session_error option" where
  "SendOK str s =
     (if closed s then (s, Some SessionClosed)
      else enqueueEncoded (Encode (NewMessageCmd CmdOk (truncateUTF8 str MaxSubjectLen) [])) s)"

definition SendError :: "string \<Rightarrow> session \<Rightarrow> session \<times> session_error option" where
  "SendError str s =
     (if closed s then (s, Some SessionClosed)
      else enqueueEncoded (Encode (NewMessageCmd CmdErr (truncateUTF8 str MaxSubjectLen) [])) s)"

definition SendPong :: "session \<Rightarrow> session \<times> session_error option" where
  "SendPong s =
     (if closed s then (s, Some SessionClosed)
      else enqueueEncoded (Encode (NewMessageCmd CmdPong [] [])) s)"

text \<open>The write loop takes the oldest queued packet and gives its bytes back to the budget.\<close>

definition dequeue :: "session \<Rightarrow> (bytes \<times> session) option" where
  "dequeue s =
     (case try_recv (outChan s) of
        None \<Rightarrow> None
      | Some (packet, c) \<Rightarrow>
          Some (packet, s\<lparr>outChan := c, queuedBytes := wrap64 (queuedBytes s - int (length packet))\<rparr>))"

definition GetSubjects :: "session \<Rightarrow> string list" where
  "GetSubjects s = subjects s"

section \<open>Invariant\<close>

abbreviation queue :: "session \<Rightarrow> bytes list" where
  "queue s \<equiv> chan_buf (outChan s)"

definition bytes_in :: "bytes list \<Rightarrow> int" where
  "bytes_in ps = sum_list (map (int \<circ> length) ps)"

lemma bytes_in_simps [simp]:
  "bytes_in [] = 0" "bytes_in (p # ps) = int (length p) + bytes_in ps"
  "bytes_in (ps @ qs) = bytes_in ps + bytes_in qs"
  by (simp_all add: bytes_in_def)

lemma bytes_in_nonneg [simp]: "0 \<le> bytes_in ps"
  by (induction ps) simp_all

text \<open>
  The send queue holds at most \<open>outCap\<close> packets, the byte counter is exactly the number of queued
  bytes, and that number is within a positive budget. Budgets up to \<open>2 ^ 62\<close> leave room for
  the addition in \<open>enqueueEncoded\<close> to stay below the overflow of a 64-bit counter.
\<close>

definition session_ok :: "session \<Rightarrow> bool" where
  "session_ok s \<longleftrightarrow> \<not> chan_closed (outChan s) \<and> chan_ok (outChan s) \<and>
     queuedBytes s = bytes_in (queue s) \<and> queuedBytes s \<le> maxQueuedBytes s \<and>
     0 < maxQueuedBytes s \<and> maxQueuedBytes s \<le> 2 ^ 62"

lemma enqueue_eval:
  assumes ok: "session_ok s" and len: "length p \<le> MaxBodyLen + 4"
  shows "enqueueEncoded p s =
    (if closed s then (s, Some SessionClosed)
     else if bytes_in (queue s) + int (length p) > maxQueuedBytes s
     then (s\<lparr>pendingClose := pendingClose s + 1\<rparr>, Some BackpressureLimitExceeded)
     else if length (queue s) < chan_cap (outChan s)
     then (s\<lparr>outChan := (outChan s)\<lparr>chan_buf := queue s @ [p]\<rparr>,
             queuedBytes := bytes_in (queue s) + int (length p)\<rparr>, None)
     else (s\<lparr>pendingClose := pendingClose s + 1\<rparr>, Some SendQueueFull))"
proof -
  have b: "0 \<le> bytes_in (queue s)" "bytes_in (queue s) \<le> 2 ^ 62" "int (length p) \<le> 8388612"
    using ok len by (simp_all add: session_ok_def max_lens)
  then have w: "wrap64 (bytes_in (queue s) + int (length p)) = bytes_in (queue s) + int (length p)"
    "wrap64 (bytes_in (queue s)) = bytes_in (queue s)"
    by (simp_all add: wrap64_id)
  show ?thesis
    using ok w by (simp add: enqueueEncoded_def session_ok_def try_send_def Let_def)
qed

lemma enqueue_ok:
  assumes "session_ok s" and "length p \<le> MaxBodyLen + 4"
  shows "session_ok (fst (enqueueEncoded p s))"
  using assms(1) unfolding enqueue_eval [OF assms]
  by (auto simp: session_ok_def chan_ok_def)

text \<open>The replies are short enough for the queue.\<close>

lemma length_reply:
  "length (Encode (NewMessageCmd c (truncateUTF8 str MaxSubjectLen) [])) \<le> MaxBodyLen + 4"
  using length_truncateUTF8 [of str MaxSubjectLen]
  by (simp add: body_len_def NewMessageCmd_def max_lens)

lemma length_pong: "length (Encode (NewMessageCmd c [] [])) \<le> MaxBodyLen + 4"
  by (simp add: body_len_def NewMessageCmd_def max_lens)

lemma length_message_packet:
  "\<not> MaxBodyLen < 1 + 2 + length t + length p \<Longrightarrow>
     length (Encode (NewMessageCmd c t p)) \<le> MaxBodyLen + 4"
  by (simp add: body_len_def NewMessageCmd_def)

lemma send_ok [inv_intros]:
  assumes "session_ok s"
  shows "session_ok (fst (SendEncoded b s))" "session_ok (fst (SendOK str s))"
    "session_ok (fst (SendError str s))" "session_ok (fst (SendPong s))"
    "session_ok (fst (SendMessage t p s))"
  using assms enqueue_ok [OF assms length_reply] enqueue_ok [OF assms length_pong]
    enqueue_ok [OF assms length_message_packet]
  by (simp_all add: SendEncoded_def SendOK_def SendError_def SendPong_def SendMessage_def
      enqueue_ok)

lemma dequeue_ok [inv_intros]:
  assumes "session_ok s" and "dequeue s = Some (p, s')"
  shows "session_ok s' \<and> queue s = p # queue s'"
proof -
  obtain ps where q: "queue s = p # ps"
    and s': "s' = s\<lparr>outChan := (outChan s)\<lparr>chan_buf := ps\<rparr>,
                    queuedBytes := wrap64 (queuedBytes s - int (length p))\<rparr>"
    using assms(2) by (auto simp: dequeue_def try_recv_def split: option.splits list.splits)
  have "0 \<le> bytes_in ps" "bytes_in ps \<le> 2 ^ 62"
    using assms(1) q by (auto simp: session_ok_def)
  then show ?thesis
    using assms(1) q s' by (auto simp: session_ok_def chan_ok_def wrap64_id)
qed

text \<open>What no send touches.\<close>

lemma enqueue_frame:
  "has_conn (fst (enqueueEncoded p s)) = has_conn s"
  "conn_closed (fst (enqueueEncoded p s)) = conn_closed s"
  "subjects (fst (enqueueEncoded p s)) = subjects s"
  "closed (fst (enqueueEncoded p s)) = closed s"
  "closeOnce (fst (enqueueEncoded p s)) = closeOnce s"
  "done_closed (fst (enqueueEncoded p s)) = done_closed s"
  "maxQueuedBytes (fst (enqueueEncoded p s)) = maxQueuedBytes s"
  by (auto simp: enqueueEncoded_def Let_def split: prod.splits send_result.splits)

lemma send_frame [simp]:
  "subjects (fst (SendEncoded b s)) = subjects s" "closed (fst (SendEncoded b s)) = closed s"
  "closeOnce (fst (SendEncoded b s)) = closeOnce s" "done_closed (fst (SendEncoded b s)) = done_closed s"
  "subjects (fst (SendOK str s)) = subjects s" "closed (fst (SendOK str s)) = closed s"
  "closeOnce (fst (SendOK str s)) = closeOnce s" "done_closed (fst (SendOK str s)) = done_closed s"
  "subjects (fst (SendError str s)) = subjects s" "closed (fst (SendError str s)) = closed s"
  "closeOnce (fst (SendError str s)) = closeOnce s" "done_closed (fst (SendError str s)) = done_closed s"
  "subjects (fst (SendPong s)) = subjects s" "closed (fst (SendPong s)) = closed s"
  "closeOnce (fst (SendPong s)) = closeOnce s" "done_closed (fst (SendPong s)) = done_closed s"
  by (simp_all add: SendEncoded_def SendOK_def SendError_def SendPong_def enqueue_frame)

text \<open>A send appends at most one packet to the queue, at its end.\<close>

lemma enqueue_prefix: "prefix (queue s) (queue (fst (enqueueEncoded p s)))"
  by (auto simp: enqueueEncoded_def try_send_def Let_def split: prod.splits send_result.splits)

lemma send_prefix:
  "prefix (queue s) (queue (fst (SendEncoded b s)))" "prefix (queue s) (queue (fst (SendOK str s)))"
  "prefix (queue s) (queue (fst (SendError str s)))" "prefix (queue s) (queue (fst (SendPong s)))"
  by (simp_all add: SendEncoded_def SendOK_def SendError_def SendPong_def enqueue_prefix)

end
