(* ===== verification/Crypto.thy ===== *)
theory Crypto
  imports KCPQ_Prelude
begin

text \<open>
  The key check and the locked cipher that server and client share, \<open>src/server/crypto.go\<close> and
  \<open>src/client/crypto.go\<close>. The cipher itself is package kcp and stays a parameter: a function that
  takes a call and the cipher's internal state to the new state and the bytes written to \<open>dst\<close>.
\<close>

section \<open>Key check\<close>

text \<open>The struct \<open>lockedBlockCrypt\<close>: a mutex, held or not, and the wrapped cipher.\<close>

record 'bc lockedBlockCrypt =
  mu :: bool
  bc :: 'bc

text \<open>
  \<open>newAES256BlockCrypt\<close> of \<open>src/server/crypto.go\<close> and \<open>src/client/crypto.go\<close>. The constructor of
  the cipher in package kcp is a parameter; its error is passed on.
\<close>

datatype crypt_error = BadKeyLength nat | CipherError string

definition newAES256BlockCrypt :: "(bytes \<Rightarrow> string + 'bc) \<Rightarrow> bytes \<Rightarrow> crypt_error + 'bc lockedBlockCrypt" where
  "newAES256BlockCrypt NewAESBlockCrypt key =
     (if length key \<noteq> 32 then Inl (BadKeyLength (length key))
      else case NewAESBlockCrypt key of
          Inl err \<Rightarrow> Inl (CipherError err)
        | Inr c \<Rightarrow> Inr \<lparr>mu = False, bc = c\<rparr>)"

lemma newAES256BlockCrypt_Inr:
  "newAES256BlockCrypt mk key = Inr l \<longleftrightarrow>
     length key = 32 \<and> (\<exists>c. mk key = Inr c \<and> l = \<lparr>mu = False, bc = c\<rparr>)"
  by (auto simp: newAES256BlockCrypt_def split: sum.splits)

section \<open>The locked cipher\<close>

text \<open>A call of the wrapped cipher, with its two arguments \<open>dst\<close> and \<open>src\<close>.\<close>

datatype crypt_call = EncryptCall bytes bytes | DecryptCall bytes bytes

type_synonym 'bc cipher = "crypt_call \<Rightarrow> 'bc \<Rightarrow> 'bc \<times> bytes"

text \<open>
  The two methods as a single caller sees them: lock, call, unlock. With the mutex held by somebody
  else the call waits (\<^const>\<open>None\<close>).
\<close>

definition locked_call :: "'bc cipher \<Rightarrow> crypt_call \<Rightarrow> 'bc lockedBlockCrypt \<Rightarrow>
    ('bc lockedBlockCrypt \<times> bytes) option" where
  "locked_call cipher op l =
     (if mu l then None
      else
        let l1 = l\<lparr>mu := True\<rparr>
        in case cipher op (bc l1) of (c, dst) \<Rightarrow> Some (l1\<lparr>bc := c, mu := False\<rparr>, dst))"

definition lbc_Encrypt :: "'bc cipher \<Rightarrow> bytes \<Rightarrow> bytes \<Rightarrow> 'bc lockedBlockCrypt \<Rightarrow>
    ('bc lockedBlockCrypt \<times> bytes) option" where
  "lbc_Encrypt cipher dst src l = locked_call cipher (EncryptCall dst src) l"

definition lbc_Decrypt :: "'bc cipher \<Rightarrow> bytes \<Rightarrow> bytes \<Rightarrow> 'bc lockedBlockCrypt \<Rightarrow>
    ('bc lockedBlockCrypt \<times> bytes) option" where
  "lbc_Decrypt cipher dst src l = locked_call cipher (DecryptCall dst src) l"

text \<open>
  Many goroutines share one cipher. A call of the wrapped cipher is not atomic: it reads the internal
  state when it starts and leaves the new one when it ends, so two overlapping calls would lose one
  of the updates. \<open>call_log\<close> records the finished calls with what they wrote.
\<close>

datatype 'bc caller = Outside | HasLock crypt_call | InCipher crypt_call 'bc bytes | Leaving

record 'bc crypt_sys =
  shared :: "'bc lockedBlockCrypt"
  callers :: "nat \<Rightarrow> 'bc caller"
  call_log :: "(crypt_call \<times> bytes) list"

inductive crypt_step :: "'bc cipher \<Rightarrow> 'bc crypt_sys \<Rightarrow> 'bc crypt_sys \<Rightarrow> bool" for cipher :: "'bc cipher" where
  cr_lock: "callers s i = Outside \<Longrightarrow> \<not> mu (shared s) \<Longrightarrow>
    crypt_step cipher s (s\<lparr>shared := (shared s)\<lparr>mu := True\<rparr>, callers := (callers s)(i := HasLock op)\<rparr>)"
| cr_enter: "callers s i = HasLock op \<Longrightarrow> cipher op (bc (shared s)) = (c, out) \<Longrightarrow>
    crypt_step cipher s (s\<lparr>callers := (callers s)(i := InCipher op c out)\<rparr>)"
| cr_leave: "callers s i = InCipher op c out \<Longrightarrow>
    crypt_step cipher s (s\<lparr>shared := (shared s)\<lparr>bc := c\<rparr>, callers := (callers s)(i := Leaving),
      call_log := call_log s @ [(op, out)]\<rparr>)"
| cr_unlock: "callers s i = Leaving \<Longrightarrow>
    crypt_step cipher s (s\<lparr>shared := (shared s)\<lparr>mu := False\<rparr>, callers := (callers s)(i := Outside)\<rparr>)"

definition crypt_start :: "'bc \<Rightarrow> 'bc crypt_sys \<Rightarrow> bool" where
  "crypt_start c s \<longleftrightarrow> shared s = \<lparr>mu = False, bc = c\<rparr> \<and> (\<forall>i. callers s i = Outside) \<and> call_log s = []"

text \<open>The reference: the calls one after the other.\<close>

fun sequential :: "'bc cipher \<Rightarrow> crypt_call list \<Rightarrow> 'bc \<Rightarrow> 'bc \<times> (crypt_call \<times> bytes) list" where
  "sequential cipher [] c = (c, [])"
| "sequential cipher (op # ops) c =
     (case cipher op c of (c1, out) \<Rightarrow>
      case sequential cipher ops c1 of (c2, res) \<Rightarrow> (c2, (op, out) # res))"

text \<open>The same through the two methods of the locked cipher.\<close>

fun run_methods :: "'bc cipher \<Rightarrow> crypt_call list \<Rightarrow> 'bc lockedBlockCrypt \<Rightarrow>
    ('bc lockedBlockCrypt \<times> (crypt_call \<times> bytes) list) option" where
  "run_methods cipher [] l = Some (l, [])"
| "run_methods cipher (op # ops) l =
     (case (case op of EncryptCall dst src \<Rightarrow> lbc_Encrypt cipher dst src l
                     | DecryptCall dst src \<Rightarrow> lbc_Decrypt cipher dst src l) of
        None \<Rightarrow> None
      | Some (l1, out) \<Rightarrow>
          (case run_methods cipher ops l1 of
             None \<Rightarrow> None
           | Some (l2, res) \<Rightarrow> Some (l2, (op, out) # res)))"

lemma run_methods_sequential:
  "\<not> mu l \<Longrightarrow> run_methods cipher ops l =
     (case sequential cipher ops (bc l) of (c, res) \<Rightarrow> Some (l\<lparr>bc := c\<rparr>, res))"
proof (induction ops arbitrary: l)
  case (Cons op ops)
  obtain c out where o: "cipher op (bc l) = (c, out)" by fastforce
  then have "(case op of EncryptCall dst src \<Rightarrow> lbc_Encrypt cipher dst src l
       | DecryptCall dst src \<Rightarrow> lbc_Decrypt cipher dst src l) = Some (l\<lparr>bc := c\<rparr>, out)"
    using Cons.prems
    by (cases op) (simp_all add: lbc_Encrypt_def lbc_Decrypt_def locked_call_def)
  then show ?case using Cons.IH [of "l\<lparr>bc := c\<rparr>"] Cons.prems by (simp add: o split: prod.splits)
qed simp

lemma sequential_snoc:
  "sequential cipher (ops @ [op]) c =
     (case sequential cipher ops c of (c1, res) \<Rightarrow>
      case cipher op c1 of (c2, out) \<Rightarrow> (c2, res @ [(op, out)]))"
  by (induction ops arbitrary: c) (auto split: prod.splits)

definition crypt_inv :: "'bc cipher \<Rightarrow> 'bc \<Rightarrow> 'bc crypt_sys \<Rightarrow> bool" where
  "crypt_inv cipher c0 s \<longleftrightarrow>
     sequential cipher (map fst (call_log s)) c0 = (bc (shared s), call_log s) \<and>
     (\<forall>i. callers s i \<noteq> Outside \<longrightarrow> mu (shared s) \<and> (\<forall>j. j \<noteq> i \<longrightarrow> callers s j = Outside)) \<and>
     (\<forall>i op c out. callers s i = InCipher op c out \<longrightarrow> cipher op (bc (shared s)) = (c, out))"

lemma crypt_inv_step: "crypt_inv cipher c0 s \<Longrightarrow> crypt_step cipher s t \<Longrightarrow> crypt_inv cipher c0 t"
proof -
  assume inv: "crypt_inv cipher c0 s" and st: "crypt_step cipher s t"
  have alone: "mu (shared s) \<and> (\<forall>j. j \<noteq> i \<longrightarrow> callers s j = Outside)" if "callers s i \<noteq> Outside" for i
    using inv that by (simp add: crypt_inv_def)
  from st show "crypt_inv cipher c0 t"
  proof cases
    case (cr_lock i op)
    then show ?thesis using inv alone by (auto simp: crypt_inv_def)
  next
    case (cr_enter i op c out)
    then show ?thesis using inv alone [of i] by (auto simp: crypt_inv_def)
  next
    case (cr_leave i op c out)
    then show ?thesis using inv alone [of i] by (auto simp: crypt_inv_def sequential_snoc)
  next
    case (cr_unlock i)
    then show ?thesis using inv alone [of i] by (auto simp: crypt_inv_def)
  qed
qed

interpretation cs: invariant_system "crypt_start c0" "crypt_step cipher" "crypt_inv cipher c0"
  for c0 cipher
proof
  show "crypt_inv cipher c0 s" if "crypt_start c0 s" for s
    using that by (simp add: crypt_inv_def crypt_start_def)
qed (rule crypt_inv_step)

section \<open>Properties\<close>

text \<open>C36: The lock makes the shared cipher safe: in every reachable state of any number of goroutines that
  encrypt and decrypt through it, at most one of them is past the lock, and the finished calls have
  written exactly what the same calls write one after the other, with the cipher's internal state
  the one that this sequence leaves.\<close>

theorem locked_cipher_sequential:
  assumes "reach (crypt_start c0) (crypt_step cipher) s"
  shows "run_methods cipher (map fst (call_log s)) \<lparr>mu = False, bc = c0\<rparr> =
      Some (\<lparr>mu = False, bc = bc (shared s)\<rparr>, call_log s) \<and>
    (callers s i \<noteq> Outside \<and> callers s j \<noteq> Outside \<longrightarrow> i = j)"
  using cs.reach_inv [OF assms] by (auto simp: crypt_inv_def run_methods_sequential)

text \<open>A cipher with an internal counter, for the witness: it adds the counter to every byte.\<close>

fun counter_cipher :: "byte cipher" where
  "counter_cipher (EncryptCall dst src) k = (k + 1, map (\<lambda>b. b + k) src)"
| "counter_cipher (DecryptCall dst src) k = (k + 1, map (\<lambda>b. b - k) src)"

theorem locked_cipher_sequential_witness:
  "\<exists>s. reach (crypt_start 5) (crypt_step counter_cipher) s \<and> call_log s = [(EncryptCall [] [1], [6])] \<and>
    run_methods counter_cipher (map fst (call_log s)) \<lparr>mu = False, bc = 5\<rparr> =
      Some (\<lparr>mu = False, bc = bc (shared s)\<rparr>, call_log s)"
proof -
  let ?s0 = "\<lparr>shared = \<lparr>mu = False, bc = 5\<rparr>, callers = (\<lambda>i. Outside), call_log = []\<rparr>"
  let ?s1 = "?s0\<lparr>shared := \<lparr>mu = True, bc = 5\<rparr>, callers := (\<lambda>i. Outside)(0 := HasLock (EncryptCall [] [1]))\<rparr>"
  let ?s2 = "?s1\<lparr>callers := (\<lambda>i. Outside)(0 := InCipher (EncryptCall [] [1]) 6 [6])\<rparr>"
  let ?s3 = "?s2\<lparr>shared := \<lparr>mu = True, bc = 6\<rparr>, callers := (\<lambda>i. Outside)(0 := Leaving),
      call_log := [(EncryptCall [] [1], [6])]\<rparr>"
  have "reach (crypt_start 5) (crypt_step counter_cipher) ?s0"
    by (rule reach_start) (simp add: crypt_start_def)
  moreover have "crypt_step counter_cipher ?s0 ?s1"
    using cr_lock [of ?s0 0 counter_cipher "EncryptCall [] [1]"] by simp
  moreover have "crypt_step counter_cipher ?s1 ?s2"
    using cr_enter [of ?s1 0 "EncryptCall [] [1]" counter_cipher 6 "[6]"] by simp
  moreover have "crypt_step counter_cipher ?s2 ?s3"
    using cr_leave [of ?s2 0 "EncryptCall [] [1]" 6 "[6]" counter_cipher] by simp
  ultimately have r: "reach (crypt_start 5) (crypt_step counter_cipher) ?s3"
    by (blast intro: reach_step)
  show ?thesis
    by (intro exI [of _ ?s3] conjI r locked_cipher_sequential [OF r, THEN conjunct1]) simp
qed

end
