(* ===== verification/Server.thy ===== *)
theory Server
  imports Session Crypto
begin

text \<open>
  The server, \<open>src/server/server.go\<close>, with the message handlers and \<open>Close\<close> of
  \<open>src/server/session.go\<close> that act on the server's router and session table. Sessions are
  objects in a heap indexed by their identity; the table \<open>sessions\<close> and the router hold
  identities. Every handler is a function on the whole server state.
\<close>

section \<open>State\<close>

text \<open>
  The struct. The mutex \<open>mu\<close> matters in one place only, the self-deadlock of \<open>Close\<close>, so its
  state is a flag that says whether it is held for writing. The pointer \<open>listener\<close> is nil, or
  points to an open or to a closed listener. The cipher \<open>block\<close> is only handed on to package kcp
  and is left out. \<open>objects\<close> maps each session pointer to its object; \<open>next_sid\<close> is the first
  identity not yet used.
\<close>

datatype kcp_listener = NilListener | OpenListener | ClosedListener

record server =
  addr :: string
  listener :: kcp_listener
  router :: router
  sessions :: "sid list"
  mu_held :: bool
  srv_done :: bool
  srv_closeOnce :: bool
  config :: session_config
  objects :: "sid \<Rightarrow> session"
  next_sid :: sid

record server_stats =
  Connections :: nat
  Subjects :: nat
  TotalSubscriptions :: nat

definition NewServer :: "(bytes \<Rightarrow> string + 'block) \<Rightarrow> string \<Rightarrow> bytes \<Rightarrow> (sid \<Rightarrow> session) \<Rightarrow>
    crypt_error + server" where
  "NewServer NewAESBlockCrypt address aes256Key objs =
     (case newAES256BlockCrypt NewAESBlockCrypt aes256Key of
        Inl err \<Rightarrow> Inl err
      | Inr block \<Rightarrow>
          Inr \<lparr>addr = address, listener = NilListener, router = NewRouter, sessions = [],
               mu_held = False, srv_done = False, srv_closeOnce = False,
               config = \<lparr>sessionOutChanCap = 1024, maxSessionQueuedBytes = 32 * 1024 * 1024,
                         sessionWriteTimeout = 5 * 1000000000\<rparr>,
               objects = objs, next_sid = 0\<rparr>)"

definition SetSessionBackpressure :: "int \<Rightarrow> int \<Rightarrow> server \<Rightarrow> server" where
  "SetSessionBackpressure maxQueued outChanCap srv =
     (let srv1 = (if maxQueued > 0
                  then srv\<lparr>config := (config srv)\<lparr>maxSessionQueuedBytes := maxQueued\<rparr>\<rparr> else srv)
      in if outChanCap > 0
         then srv1\<lparr>config := (config srv1)\<lparr>sessionOutChanCap := outChanCap\<rparr>\<rparr> else srv1)"

definition SetSessionWriteTimeout :: "duration \<Rightarrow> server \<Rightarrow> server" where
  "SetSessionWriteTimeout timeout srv =
     srv\<lparr>config := (config srv)\<lparr>sessionWriteTimeout := timeout\<rparr>\<rparr>"

text \<open>
  \<open>Start\<close>: the argument is what \<open>kcp.ListenWithOptions\<close> returned. On success the accept loop is
  started, which the result \<^const>\<open>None\<close> stands for.
\<close>

definition server_Start :: "string + unit \<Rightarrow> server \<Rightarrow> server \<times> string option" where
  "server_Start listen srv =
     (case listen of
        Inl err \<Rightarrow> (srv\<lparr>listener := NilListener\<rparr>, Some (''failed to listen: '' @ err))
      | Inr _ \<Rightarrow> (srv\<lparr>listener := OpenListener\<rparr>, None))"

text \<open>A new session for an accepted connection, put in the table.\<close>

definition accept_session :: "int \<Rightarrow> server \<Rightarrow> server" where
  "accept_session now srv =
     (let i = next_sid srv; session = NewSession True (Some (config srv)) now in
      srv\<lparr>objects := (objects srv)(i := session), next_sid := i + 1,
          sessions := (if i \<in> set (sessions srv) then sessions srv else sessions srv @ [i])\<rparr>)"

text \<open>
  One round of \<open>acceptLoop\<close>; the argument is what \<open>AcceptKCP\<close> returned. The flag says whether
  the loop goes on.
\<close>

definition acceptLoop_body :: "int \<Rightarrow> string + unit \<Rightarrow> server \<Rightarrow> server \<times> bool" where
  "acceptLoop_body now accepted srv =
     (if srv_done srv then (srv, False)
      else case accepted of
          Inl err \<Rightarrow> (srv, listener srv \<noteq> NilListener)
        | Inr _ \<Rightarrow> (accept_session now srv, True))"

definition GetStats :: "server \<Rightarrow> server_stats" where
  "GetStats srv =
     \<lparr>Connections = length (sessions srv), Subjects = GetSubjectCount (router srv),
      TotalSubscriptions = GetTotalSubscriptions (router srv)\<rparr>"

section \<open>Message handlers\<close>

text \<open>Running a method of one session that returns an error value.\<close>

definition on_session :: "sid \<Rightarrow> (session \<Rightarrow> session \<times> session_error option) \<Rightarrow> server \<Rightarrow>
    server \<times> session_error option" where
  "on_session i f srv =
     (case f (objects srv i) of (s, err) \<Rightarrow> (srv\<lparr>objects := (objects srv)(i := s)\<rparr>, err))"

fun subject_exists :: "string \<Rightarrow> string list \<Rightarrow> bool" where
  "subject_exists subject [] = False"
| "subject_exists subject (sub # subs) = (if sub = subject then True else subject_exists subject subs)"

definition handleSubscribe :: "sid \<Rightarrow> message \<Rightarrow> server \<Rightarrow> server \<times> session_error option" where
  "handleSubscribe i msg srv =
     (let subject = Subject msg; s = objects srv i;
          srv1 = (if \<not> subject_exists subject (subjects s)
                  then srv\<lparr>objects := (objects srv)(i := s\<lparr>subjects := subjects s @ [subject]\<rparr>),
                           router := Subscribe subject i (router srv)\<rparr>
                  else srv);
          (srv2, _) = on_session i (SendOK (''subscribed to '' @ subject)) srv1
      in (srv2, None))"

definition handleUnsubscribe :: "sid \<Rightarrow> message \<Rightarrow> server \<Rightarrow> server \<times> session_error option" where
  "handleUnsubscribe i msg srv =
     (let subject = Subject msg; s = objects srv i;
          filtered = filter_in_place (\<lambda>sub. sub \<noteq> subject) (subjects s);
          srv1 = srv\<lparr>objects := (objects srv)(i := s\<lparr>subjects := filtered\<rparr>)\<rparr>;
          srv2 = srv1\<lparr>router := Unsubscribe subject i (router srv1)\<rparr>;
          (srv3, _) = on_session i (SendOK (''unsubscribed from '' @ subject)) srv2
      in (srv3, None))"

text \<open>The loop over the subscribers; a failed enqueue is logged and the loop goes on.\<close>

fun publish_loop :: "bytes \<Rightarrow> sid list \<Rightarrow> server \<Rightarrow> server" where
  "publish_loop encoded [] srv = srv"
| "publish_loop encoded (sub # subscribers) srv =
     publish_loop encoded subscribers (fst (on_session sub (SendEncoded encoded) srv))"

definition handlePublish :: "sid \<Rightarrow> message \<Rightarrow> server \<Rightarrow> server \<times> session_error option" where
  "handlePublish i msg srv =
     (let subject = Subject msg;
          subscribers = FindSubscribers (router srv) subject;
          encoded = Encode (NewMessageCmd CmdMsg (Subject msg) (Payload msg))
      in (publish_loop encoded subscribers srv, None))"

definition handlePing :: "sid \<Rightarrow> server \<Rightarrow> server \<times> session_error option" where
  "handlePing i srv = on_session i SendPong srv"

definition HandleMessage :: "sid \<Rightarrow> message \<Rightarrow> server \<Rightarrow> server \<times> session_error option" where
  "HandleMessage i msg srv =
     (if Command msg = CmdSub then handleSubscribe i msg srv
      else if Command msg = CmdUnsub then handleUnsubscribe i msg srv
      else if Command msg = CmdPub then handlePublish i msg srv
      else if Command msg = CmdPing then handlePing i srv
      else (srv, Some (UnknownCommand (Command msg))))"

text \<open>The body of the read loop of \<open>Start\<close> for one parsed message.\<close>

definition process_message :: "int \<Rightarrow> sid \<Rightarrow> message \<Rightarrow> server \<Rightarrow> server" where
  "process_message now i msg srv =
     (let (srv1, err) = HandleMessage i msg srv;
          srv2 = (case err of
                    None \<Rightarrow> srv1
                  | Some e \<Rightarrow> fst (on_session i (SendError (''handle error: '' @ session_error_text e)) srv1))
      in srv2\<lparr>objects := (objects srv2)(i := (objects srv2 i)\<lparr>lastPing := now\<rparr>)\<rparr>)"

section \<open>Closing\<close>

text \<open>
  Locking \<open>mu\<close> while the same goroutine holds it blocks forever: \<^const>\<open>None\<close>.
\<close>

definition removeSession :: "sid \<Rightarrow> server \<Rightarrow> server option" where
  "removeSession i srv =
     (if mu_held srv then None else Some (srv\<lparr>sessions := filter (\<lambda>j. j \<noteq> i) (sessions srv)\<rparr>))"

definition session_Close :: "sid \<Rightarrow> server \<Rightarrow> server option" where
  "session_Close i srv =
     (if closeOnce (objects srv i) then Some srv
      else let s = (objects srv i)\<lparr>closeOnce := True, closed := True, done_closed := True\<rparr>;
               srv1 = srv\<lparr>objects := (objects srv)(i := s)\<rparr>;
               srv2 = srv1\<lparr>router := RemoveSession i (router srv1)\<rparr>
           in do { srv3 \<leftarrow> removeSession i srv2;
                   Some (if has_conn s
                         then srv3\<lparr>objects := (objects srv3)(i := s\<lparr>conn_closed := True\<rparr>)\<rparr>
                         else srv3) })"

text \<open>
  \<open>Server.Close\<close> holds \<open>mu\<close> over the whole loop. The loop closes each session of the table and
  deletes it. The argument of \<open>server_Close\<close> is what closing the listener returns.
\<close>

fun close_loop :: "sid list \<Rightarrow> server \<Rightarrow> server option" where
  "close_loop [] srv = Some srv"
| "close_loop (i # is) srv =
     do { srv1 \<leftarrow> session_Close i srv;
          close_loop is (srv1\<lparr>sessions := filter (\<lambda>j. j \<noteq> i) (sessions srv1)\<rparr>) }"

definition server_Close :: "string option \<Rightarrow> server \<Rightarrow> (server \<times> string option) option" where
  "server_Close closeErr srv =
     (if srv_closeOnce srv then Some (srv, None)
      else let srv1 = srv\<lparr>srv_closeOnce := True, srv_done := True\<rparr> in
        if mu_held srv1 then None
        else do {
          srv2 \<leftarrow> close_loop (sessions srv1) (srv1\<lparr>mu_held := True\<rparr>);
          (srv3, err) \<leftarrow> Some (if listener srv2 \<noteq> NilListener
                              then (srv2\<lparr>listener := ClosedListener\<rparr>, closeErr)
                              else (srv2, None));
          Some (srv3\<lparr>mu_held := False\<rparr>, err)
        })"

section \<open>Lemmas about the handlers\<close>

lemma subject_exists_iff [simp]: "subject_exists p ps \<longleftrightarrow> p \<in> set ps"
  by (induction ps) auto

lemma on_session_fst:
  "fst (on_session i f srv) = srv\<lparr>objects := (objects srv)(i := fst (f (objects srv i)))\<rparr>"
  by (simp add: on_session_def split_beta)

lemma publish_loop_other:
  "router (publish_loop e subs srv) = router srv \<and> sessions (publish_loop e subs srv) = sessions srv \<and>
   next_sid (publish_loop e subs srv) = next_sid srv \<and> config (publish_loop e subs srv) = config srv \<and>
   mu_held (publish_loop e subs srv) = mu_held srv \<and> srv_done (publish_loop e subs srv) = srv_done srv"
  by (induction subs arbitrary: srv) (simp_all add: on_session_fst)

lemma publish_loop_objects:
  "distinct subs \<Longrightarrow>
     objects (publish_loop e subs srv) j =
       (if j \<in> set subs then fst (SendEncoded e (objects srv j)) else objects srv j)"
  by (induction subs arbitrary: srv) (auto simp: on_session_fst)

lemma publish_objects:
  "objects (fst (handlePublish i m srv)) j =
     (if j \<in> set (FindSubscribers (router srv) (Subject m))
      then fst (SendEncoded (Encode (NewMessageCmd CmdMsg (Subject m) (Payload m))) (objects srv j))
      else objects srv j)"
  by (simp add: handlePublish_def publish_loop_objects FindSubscribers_distinct Let_def)

text \<open>When a queue takes one more packet of \<open>n\<close> bytes.\<close>

definition has_room :: "session \<Rightarrow> nat \<Rightarrow> bool" where
  "has_room s n \<longleftrightarrow> bytes_in (queue s) + int n \<le> maxQueuedBytes s \<and>
     length (queue s) < chan_cap (outChan s)"

lemma enqueue_cases:
  assumes "session_ok s" and "length p \<le> MaxBodyLen + 4" and "\<not> closed s"
  shows "queue (fst (enqueueEncoded p s)) = queue s @ (if has_room s (length p) then [p] else [])"
    and "pendingClose (fst (enqueueEncoded p s)) =
      (if has_room s (length p) then pendingClose s else pendingClose s + 1)"
    and "snd (enqueueEncoded p s) =
      (if has_room s (length p) then None
       else if bytes_in (queue s) + int (length p) > maxQueuedBytes s
       then Some BackpressureLimitExceeded else Some SendQueueFull)"
  using assms(3) unfolding enqueue_eval [OF assms(1,2)] by (auto simp: has_room_def)

lemma send_encoded_queue:
  assumes "session_ok s" and "length p \<le> MaxBodyLen + 4"
  shows "queue (fst (SendEncoded p s)) =
    queue s @ (if \<not> closed s \<and> has_room s (length p) then [p] else [])"
  using assms enqueue_cases(1) [OF assms] by (simp add: SendEncoded_def)

lemma reply_queue:
  assumes "session_ok s"
  shows "queue (fst (SendOK t s)) = queue s @
      (let p = Encode (NewMessageCmd CmdOk (truncateUTF8 t MaxSubjectLen) []) in
       if \<not> closed s \<and> has_room s (length p) then [p] else [])"
    and "queue (fst (SendError t s)) = queue s @
      (let p = Encode (NewMessageCmd CmdErr (truncateUTF8 t MaxSubjectLen) []) in
       if \<not> closed s \<and> has_room s (length p) then [p] else [])"
  using enqueue_cases(1) [OF assms length_reply]
  by (simp_all add: SendOK_def SendError_def Let_def)

lemma msg_packet_length:
  "valid_message m \<Longrightarrow> length (Encode (NewMessageCmd c (Subject m) (Payload m))) \<le> MaxBodyLen + 4"
  by (simp add: valid_message_def body_len_def NewMessageCmd_def)

lemma session_ok_subjects [simp]: "session_ok (s\<lparr>subjects := ps\<rparr>) = session_ok s"
  by (simp add: session_ok_def)

lemma session_ok_lastPing [simp]: "session_ok (s\<lparr>lastPing := t\<rparr>) = session_ok s"
  by (simp add: session_ok_def)

lemma has_room_subjects [simp]: "has_room (s\<lparr>subjects := ps\<rparr>) n = has_room s n"
  by (simp add: has_room_def)

text \<open>What a subscription changes.\<close>

lemma subscribe_objects:
  assumes "session_ok (objects srv i)"
  shows "queue (objects (fst (handleSubscribe i m srv)) j) = queue (objects srv j) @
      (let p = Encode (NewMessageCmd CmdOk
                 (truncateUTF8 (''subscribed to '' @ Subject m) MaxSubjectLen) []) in
       if j = i \<and> \<not> closed (objects srv i) \<and> has_room (objects srv i) (length p) then [p] else [])"
  using assms
  by (simp add: handleSubscribe_def Let_def split_beta on_session_fst reply_queue(1)
      del: length_Encode)

lemma subscribe_router:
  "router (fst (handleSubscribe i m srv)) =
     (if Subject m \<in> set (subjects (objects srv i)) then router srv
      else Subscribe (Subject m) i (router srv))"
  by (simp add: handleSubscribe_def Let_def split_beta on_session_fst)

lemma subscribe_subjects:
  "subjects (objects (fst (handleSubscribe i m srv)) j) =
     (if j = i \<and> Subject m \<notin> set (subjects (objects srv i)) then subjects (objects srv i) @ [Subject m]
      else subjects (objects srv j))"
  by (simp add: handleSubscribe_def Let_def split_beta on_session_fst)

lemma unsubscribe_router:
  "router (fst (handleUnsubscribe i m srv)) = Unsubscribe (Subject m) i (router srv)"
  by (simp add: handleUnsubscribe_def Let_def split_beta on_session_fst)

lemma NewServer_fields:
  assumes "NewServer mk address key objs = Inr srv"
  shows "mu_held srv = False" "next_sid srv = 0" "sessions srv = []" "router srv = NewRouter"
    "maxSessionQueuedBytes (config srv) = 32 * 1024 * 1024" "srv_done srv = False"
proof -
  have "srv = \<lparr>addr = address, listener = NilListener, router = NewRouter, sessions = [],
      mu_held = False, srv_done = False, srv_closeOnce = False,
      config = \<lparr>sessionOutChanCap = 1024, maxSessionQueuedBytes = 32 * 1024 * 1024,
                sessionWriteTimeout = 5 * 1000000000\<rparr>, objects = objs, next_sid = 0\<rparr>"
    using assms by (auto simp: NewServer_def split: sum.splits)
  then show "mu_held srv = False" "next_sid srv = 0" "sessions srv = []" "router srv = NewRouter"
    "maxSessionQueuedBytes (config srv) = 32 * 1024 * 1024" "srv_done srv = False"
    by simp_all
qed

lemma NewSession_ok:
  "cfg = None \<or> maxSessionQueuedBytes (the cfg) \<le> 2 ^ 62 \<Longrightarrow> session_ok (NewSession c cfg now)"
  by (auto simp: NewSession_def session_ok_def make_chan_def chan_ok_def Let_def
      split: option.splits)

lemma NewSession_fields [simp]:
  "subjects (NewSession c cfg now) = []" "closed (NewSession c cfg now) = False"
  "closeOnce (NewSession c cfg now) = False" "queue (NewSession c cfg now) = []"
  "done_closed (NewSession c cfg now) = False" "conn_closed (NewSession c cfg now) = False"
  "pendingClose (NewSession c cfg now) = 0" "has_conn (NewSession c cfg now) = c"
  by (simp_all add: NewSession_def make_chan_def split_beta Let_def)

lemma close_loop_held:
  "mu_held srv \<Longrightarrow> close_loop is srv =
     (if list_ex (\<lambda>i. \<not> closeOnce (objects srv i)) is then None
      else Some (srv\<lparr>sessions := filter (\<lambda>j. j \<notin> set is) (sessions srv)\<rparr>))"
proof (induction "is" arbitrary: srv)
  case Nil
  then show ?case by simp
next
  case (Cons i "is")
  then show ?case
    by (simp add: session_Close_def removeSession_def Let_def conj_commute)
qed

section \<open>Properties\<close>


text \<open>A server for the examples: two sessions, the second subscribed to \<open>a.*\<close>.\<close>

definition example_server :: server where
  "example_server =
     \<lparr>addr = '':4000'', listener = OpenListener, router = \<lparr>subscriptions = [(''a.*'', [1])]\<rparr>,
      sessions = [0, 1], mu_held = False, srv_done = False, srv_closeOnce = False,
      config = \<lparr>sessionOutChanCap = 1, maxSessionQueuedBytes = 64, sessionWriteTimeout = 1\<rparr>,
      objects = (\<lambda>i. (NewSession True (Some \<lparr>sessionOutChanCap = 1, maxSessionQueuedBytes = 64,
                          sessionWriteTimeout = 1\<rparr>) 0)
                      \<lparr>subjects := (if i = 1 then [''a.*''] else [])\<rparr>),
      next_sid = 2\<rparr>"

lemma example_server_ok:
  "router_ok (router example_server)" "session_ok (objects example_server j)"
  "(''a.*'', 1) \<in> subs_rel (router example_server)"
  "\<not> closed (objects example_server j)" "queue (objects example_server j) = []"
  "has_room (objects example_server j) n \<longleftrightarrow> n \<le> 64"
  by (auto simp: example_server_def router_ok_def subs_rel_def NewSession_ok has_room_def)
    (simp_all add: NewSession_def make_chan_def)

abbreviation example_message :: message where
  "example_message \<equiv> NewMessageCmd CmdPub ''a.b'' [42]"


text \<open>Backpressure: a send to an open session either appends the packet and reports no error,
  or, when the byte budget or the number of slots would be exceeded, leaves the queue as it is,
  schedules the closing of the session and reports which limit was hit. The byte counter stays
  the exact number of queued bytes and within the budget in every case.\<close>

lemma backpressure_decision:
  assumes "session_ok s" and "\<not> closed s" and "length packet \<le> MaxBodyLen + 4"
  shows "queue (fst (SendEncoded packet s)) =
      queue s @ (if has_room s (length packet) then [packet] else []) \<and>
    pendingClose (fst (SendEncoded packet s)) =
      (if has_room s (length packet) then pendingClose s else pendingClose s + 1) \<and>
    snd (SendEncoded packet s) =
      (if has_room s (length packet) then None
       else if bytes_in (queue s) + int (length packet) > maxQueuedBytes s
       then Some BackpressureLimitExceeded else Some SendQueueFull) \<and>
    queuedBytes (fst (SendEncoded packet s)) = bytes_in (queue (fst (SendEncoded packet s))) \<and>
    queuedBytes (fst (SendEncoded packet s)) \<le> maxQueuedBytes s"
proof -
  have e: "SendEncoded packet s = enqueueEncoded packet s"
    using assms by (simp add: SendEncoded_def)
  have "session_ok (fst (enqueueEncoded packet s))"
    by (rule enqueue_ok) (use assms in simp_all)
  then show ?thesis
    using enqueue_cases [OF assms(1,3,2)] e enqueue_frame(7) [of packet s]
    by (simp add: session_ok_def)
qed

text \<open>Subscribing registers and acknowledges: after a SUB the router holds the subscription
  and everything it held before, the session lists the subject, the queue of the sender has one
  OK packet more if there is room, and no other queue changes. Sending the same SUB again changes
  neither the router nor the list.\<close>

lemma subscribe_registers:
  assumes "router_ok (router srv)" and "session_ok (objects srv i)" and "Command m = CmdSub"
    and "\<forall>p. (p, i) \<in> subs_rel (router srv) \<longleftrightarrow> p \<in> set (subjects (objects srv i))"
  defines "srv' \<equiv> fst (HandleMessage i m srv)"
    and "ack \<equiv> Encode (NewMessageCmd CmdOk
           (truncateUTF8 (''subscribed to '' @ Subject m) MaxSubjectLen) [])"
  shows "subs_rel (router srv') = insert (Subject m, i) (subs_rel (router srv)) \<and>
    (\<forall>p. (p, i) \<in> subs_rel (router srv') \<longleftrightarrow> p \<in> set (subjects (objects srv' i))) \<and>
    (\<forall>j. queue (objects srv' j) = queue (objects srv j) @
       (if j = i \<and> \<not> closed (objects srv i) \<and> has_room (objects srv i) (length ack)
        then [ack] else [])) \<and>
    router (fst (HandleMessage i m srv')) = router srv' \<and>
    subjects (objects (fst (HandleMessage i m srv')) i) = subjects (objects srv' i)"
proof -
  have h: "HandleMessage i m x = handleSubscribe i m x" for x
    using assms(3) by (simp add: HandleMessage_def cmd_defs)
  have q: "\<forall>j. queue (objects srv' j) = queue (objects srv j) @
       (if j = i \<and> \<not> closed (objects srv i) \<and> has_room (objects srv i) (length ack)
        then [ack] else [])"
    unfolding srv'_def h subscribe_objects [OF assms(2)] ack_def Let_def by simp
  have m: "Subject m \<in> set (subjects (objects srv' i))"
    by (simp add: srv'_def h subscribe_subjects)
  have r: "subs_rel (router srv') = insert (Subject m, i) (subs_rel (router srv))"
    using assms(4) Subscribe_new [OF assms(1), of "Subject m" i]
    by (auto simp: srv'_def h subscribe_router)
  show ?thesis
    using q m r assms(4)
    by (auto simp: h subscribe_router subscribe_subjects srv'_def)
qed

text \<open>Closing a session that is registered and not yet closed, while nobody holds the server's
  mutex, always returns: afterwards the session is marked closed, its connection is closed, it is
  not in the table and the router holds none of its subscriptions; those of other sessions stay.
  A second Close changes nothing.\<close>

lemma session_close_unregisters:
  assumes "router_ok (router srv)" and "\<not> closeOnce (objects srv i)" and "\<not> mu_held srv"
  shows "\<exists>srv'. session_Close i srv = Some srv' \<and>
    closed (objects srv' i) \<and> done_closed (objects srv' i) \<and>
    conn_closed (objects srv' i) = (has_conn (objects srv i) \<or> conn_closed (objects srv i)) \<and>
    i \<notin> set (sessions srv') \<and> set (sessions srv') = set (sessions srv) - {i} \<and>
    subs_rel (router srv') = {(p, j). (p, j) \<in> subs_rel (router srv) \<and> j \<noteq> i} \<and>
    i \<notin> set (FindSubscribers (router srv') subject) \<and>
    session_Close i srv' = Some srv'"
proof -
  have r: "router_ok (RemoveSession i (router srv))"
    "subs_rel (RemoveSession i (router srv)) = {(p, j). (p, j) \<in> subs_rel (router srv) \<and> j \<noteq> i}"
    using RemoveSession_spec [OF assms(1), of i] by simp_all
  have f: "i \<notin> set (FindSubscribers (RemoveSession i (router srv)) subject)"
    by (rule rt.removed_not_found [OF assms(1)])
  show ?thesis
    using assms(2,3) r f by (auto simp: session_Close_def removeSession_def Let_def)
qed

text \<open>\<open>Server.Close\<close> deadlocks: called for the first time with the mutex free, it blocks
  forever exactly when some session in the table has not been closed yet, because it holds the
  server's mutex while \<open>Session.Close\<close> calls \<open>removeSession\<close>, which locks it again. When it does
  return, the table is empty, the mutex is free and an open listener is closed.\<close>

lemma server_close_deadlock:
  assumes "\<not> srv_closeOnce srv" and "\<not> mu_held srv"
  shows "server_Close e srv =
    (if \<exists>i. i \<in> set (sessions srv) \<and> \<not> closeOnce (objects srv i) then None
     else Some (srv\<lparr>srv_closeOnce := True, srv_done := True, sessions := [],
                    listener := (if listener srv = NilListener then NilListener else ClosedListener)\<rparr>,
                if listener srv = NilListener then None else e))"
proof -
  let ?srv = "srv\<lparr>srv_closeOnce := True, srv_done := True, mu_held := True\<rparr>"
  have l: "close_loop (sessions srv) ?srv =
      (if list_ex (\<lambda>i. \<not> closeOnce (objects srv i)) (sessions srv) then None
       else Some (?srv\<lparr>sessions := []\<rparr>))"
    by (simp add: close_loop_held filter_empty_conv)
  have x: "list_ex (\<lambda>i. \<not> closeOnce (objects srv i)) (sessions srv) \<longleftrightarrow>
      (\<exists>i. i \<in> set (sessions srv) \<and> \<not> closeOnce (objects srv i))"
    by (auto simp: list_ex_iff)
  show ?thesis
    using assms by (cases srv) (use l x in \<open>auto simp: server_Close_def Let_def\<close>)
qed

text \<open>A message with an unknown command is answered: the sender's queue gets one ERR packet
  that names the command byte (if the session is open and has room), no other queue, no
  subscription and no table entry changes.\<close>

lemma unknown_command_reply:
  assumes "session_ok (objects srv i)"
    and "Command m \<notin> {CmdSub, CmdUnsub, CmdPub, CmdPing}"
  defines "reply \<equiv> Encode (NewMessageCmd CmdErr
      (truncateUTF8 (''handle error: unknown command: '' @ dec (unat (Command m))) MaxSubjectLen) [])"
  shows "(\<forall>j. queue (objects (process_message now i m srv) j) = queue (objects srv j) @
      (if j = i \<and> \<not> closed (objects srv i) \<and> has_room (objects srv i) (length reply)
       then [reply] else [])) \<and>
    router (process_message now i m srv) = router srv \<and>
    sessions (process_message now i m srv) = sessions srv"
proof -
  have h: "HandleMessage i m srv = (srv, Some (UnknownCommand (Command m)))"
    using assms(2) by (simp add: HandleMessage_def)
  have q: "queue (fst (SendError (''handle error: '' @ session_error_text (UnknownCommand (Command m)))
      (objects srv i))) = queue (objects srv i) @
      (if \<not> closed (objects srv i) \<and> has_room (objects srv i) (length reply) then [reply] else [])"
    unfolding reply_queue(2) [OF assms(1)] reply_def by simp
  show ?thesis
    using q by (auto simp: process_message_def h on_session_fst simp del: session_error_text.simps)
qed

end
