(* ===== verification/Config.thy ===== *)
theory Config
  imports Go_Strings
begin

text \<open>
  What the programs under \<open>src/examples\<close> do before they start: reading a configuration file, applying
  environment variables, and turning the hexadecimal pre-shared key into 32 bytes. Also the parts of
  the Go library they use for it: \<open>encoding/hex\<close>, durations in seconds, and tickers. The contents of
  the file and the YAML decoder are parameters. The configuration of the server program
  \<open>src/examples/server\<close> is here; those of the relay and the forwarder are in their theories.
\<close>

section \<open>Package encoding/hex\<close>

datatype hex_error = InvalidByteError char | ErrLength

definition fromHexChar :: "char \<Rightarrow> byte option" where
  "fromHexChar c =
     (let n = of_char c :: nat in
      if 48 \<le> n \<and> n \<le> 57 then Some (of_nat (n - 48))
      else if 97 \<le> n \<and> n \<le> 102 then Some (of_nat (n - 87))
      else if 65 \<le> n \<and> n \<le> 70 then Some (of_nat (n - 55))
      else None)"

text \<open>Pairs of digits are decoded from the left; a single digit at the end is an error of its own.\<close>

fun DecodeString :: "string \<Rightarrow> hex_error + bytes" where
  "DecodeString [] = Inr []"
| "DecodeString [c] = (case fromHexChar c of None \<Rightarrow> Inl (InvalidByteError c) | Some _ \<Rightarrow> Inl ErrLength)"
| "DecodeString (c # d # s) =
     (case fromHexChar c of
        None \<Rightarrow> Inl (InvalidByteError c)
      | Some a \<Rightarrow>
          (case fromHexChar d of
             None \<Rightarrow> Inl (InvalidByteError d)
           | Some b \<Rightarrow>
               (case DecodeString s of
                  Inl err \<Rightarrow> Inl err
                | Inr bs \<Rightarrow> Inr ((push_bit 4 a OR b) # bs))))"

text \<open>The inverse, \<open>EncodeToString\<close>, with lower-case digits; it serves as the specification.\<close>

definition hexDigit :: "nat \<Rightarrow> char" where
  "hexDigit n = char_of (if n < 10 then 48 + n else 87 + n)"

definition EncodeToString :: "bytes \<Rightarrow> string" where
  "EncodeToString b = concat (map (\<lambda>x. [hexDigit (unat x div 16), hexDigit (unat x mod 16)]) b)"

section \<open>Environment, key and ticker\<close>

text \<open>\<open>os.Getenv\<close>: unset and empty variables both give the empty string, which changes nothing.\<close>

type_synonym environment = "string \<Rightarrow> string"

definition override :: "environment \<Rightarrow> string \<Rightarrow> string \<Rightarrow> string" where
  "override env var old = (if env var \<noteq> '''' then env var else old)"

text \<open>The ways in which the programs end before they start.\<close>

datatype fatal =
    ConfigUnreadable string
  | ConfigUnparsable string
  | KeyMissing
  | KeyNotHex hex_error
  | KeyBadLength nat

definition load_key :: "string \<Rightarrow> fatal + bytes" where
  "load_key keyHex =
     (if keyHex = '''' then Inl KeyMissing
      else case DecodeString keyHex of
          Inl err \<Rightarrow> Inl (KeyNotHex err)
        | Inr key \<Rightarrow> if length key \<noteq> 32 then Inl (KeyBadLength (length key)) else Inr key)"

text \<open>\<open>mustAES256Key\<close> of the test programs takes the key from the environment only.\<close>

definition mustAES256Key :: "environment \<Rightarrow> fatal + bytes" where
  "mustAES256Key env = load_key (env ''KCPQ_AES256_KEY_HEX'')"

text \<open>The path of the configuration file: the flag, else \<open>config.yaml\<close> if it exists, else none.\<close>

definition config_path :: "string \<Rightarrow> bool \<Rightarrow> string" where
  "config_path flagPath statOk = (if flagPath = '''' \<and> statOk then ''config.yaml'' else flagPath)"

text \<open>Reading and decoding a file; the two library calls are parameters.\<close>

definition read_config :: "(string \<Rightarrow> string + bytes) \<Rightarrow> (bytes \<Rightarrow> string + 'cfg) \<Rightarrow> string \<Rightarrow> fatal + 'cfg" where
  "read_config ReadFile Unmarshal path =
     (case ReadFile path of
        Inl err \<Rightarrow> Inl (ConfigUnreadable err)
      | Inr content \<Rightarrow>
          (case Unmarshal content of
             Inl err \<Rightarrow> Inl (ConfigUnparsable err)
           | Inr cfg \<Rightarrow> Inr cfg))"

text \<open>\<open>time.Duration(n) * time.Second\<close> on 64 bits, and \<open>time.NewTicker\<close>, which panics unless positive.\<close>

definition seconds :: "int \<Rightarrow> int" where
  "seconds n = wrap64 (n * 1000000000)"

definition NewTicker :: "int \<Rightarrow> int option" where
  "NewTicker d = (if d \<le> 0 then None else Some d)"

text \<open>
  The rates that the relay and the forwarder print: exact quotients, where the code computes in
  floating point. The elapsed time is in nanoseconds. A quotient by zero frames is not a number:
  \<^const>\<open>None\<close>; nothing is printed while no time has passed.
\<close>

record rates =
  frameRate :: rat
  byteRate :: rat
  bitrate :: rat
  avgFrameSize :: "rat option"
  errorRate :: "rat option"

definition stats_rates :: "64 word \<Rightarrow> 64 word \<Rightarrow> 64 word \<Rightarrow> int \<Rightarrow> rates option" where
  "stats_rates totalFrames totalBytes errorCount elapsed =
     (if elapsed = 0 then None
      else
        let secs = of_int elapsed / 1000000000;
            frames = of_nat (unat totalFrames);
            perByte = of_nat (unat totalBytes) / secs
        in Some \<lparr>frameRate = frames / secs, byteRate = perByte, bitrate = perByte * 8 / 1000000,
             avgFrameSize = (if totalFrames = 0 then None else Some (of_nat (unat totalBytes) / frames / 1024)),
             errorRate = (if 0 < totalFrames then Some (of_nat (unat errorCount) / frames * 100) else None)\<rparr>)"

text \<open>The error of a context that was cancelled.\<close>

definition ctx_err :: "bool \<Rightarrow> string option" where
  "ctx_err cancelled = (if cancelled then Some ''context canceled'' else None)"

section \<open>The server program\<close>

record server_config_file =
  s_ListenAddr :: string
  s_PprofAddr :: string
  s_AES256KeyHex :: string

definition server_LoadConfig :: "(string \<Rightarrow> string + bytes) \<Rightarrow> (bytes \<Rightarrow> string + server_config_file) \<Rightarrow>
    string \<Rightarrow> fatal + server_config_file" where
  "server_LoadConfig ReadFile Unmarshal path =
     (case read_config ReadFile Unmarshal path of
        Inl err \<Rightarrow> Inl err
      | Inr cfg \<Rightarrow>
          let cfg1 = (if s_ListenAddr cfg = '''' then cfg\<lparr>s_ListenAddr := '':4000''\<rparr> else cfg);
              cfg2 = (if s_PprofAddr cfg1 = '''' then cfg1\<lparr>s_PprofAddr := ''localhost:6060''\<rparr> else cfg1)
          in Inr cfg2)"

text \<open>The part of \<open>main\<close> up to the key: the settings and the decoded key, or the fatal error.\<close>

definition server_settings :: "(string \<Rightarrow> string + bytes) \<Rightarrow> (bytes \<Rightarrow> string + server_config_file) \<Rightarrow>
    string \<Rightarrow> bool \<Rightarrow> environment \<Rightarrow> fatal + server_config_file \<times> bytes" where
  "server_settings ReadFile Unmarshal flagPath statOk env =
     (let cfg = \<lparr>s_ListenAddr = '':4000'', s_PprofAddr = ''localhost:6060'', s_AES256KeyHex = ''''\<rparr>;
          cfgPath = config_path flagPath statOk
      in case (if cfgPath \<noteq> '''' then server_LoadConfig ReadFile Unmarshal cfgPath else Inr cfg) of
           Inl err \<Rightarrow> Inl err
         | Inr loaded \<Rightarrow>
             let c1 = loaded\<lparr>s_ListenAddr := override env ''KCP_NATS_ADDR'' (s_ListenAddr loaded)\<rparr>;
                 c2 = c1\<lparr>s_PprofAddr := override env ''KCPQ_PPROF_ADDR'' (s_PprofAddr c1)\<rparr>;
                 c3 = c2\<lparr>s_AES256KeyHex := override env ''KCPQ_AES256_KEY_HEX'' (s_AES256KeyHex c2)\<rparr>
             in (case load_key (s_AES256KeyHex c3) of
                   Inl err \<Rightarrow> Inl err
                 | Inr key \<Rightarrow> Inr (c3, key)))"

section \<open>Lemmas\<close>

lemma of_char_char_of [simp]: "n < 256 \<Longrightarrow> of_char (char_of n :: char) = (n :: nat)"
  by simp

lemma of_char_lt: "(of_char c :: nat) < 256"
  by (rule nat_of_char_less_256)

lemma fromHexChar_hexDigit [simp]: "n < 16 \<Longrightarrow> fromHexChar (hexDigit n) = Some (of_nat n)"
  by (simp add: fromHexChar_def hexDigit_def Let_def)

text \<open>Lower case, as far as it concerns hexadecimal digits.\<close>

definition lower :: "char \<Rightarrow> char" where
  "lower c = (if 65 \<le> (of_char c :: nat) \<and> (of_char c :: nat) \<le> 90 then char_of (of_char c + 32 :: nat) else c)"

lemma fromHexChar_lower [simp]: "fromHexChar (lower c) = fromHexChar c"
  by (auto simp: fromHexChar_def lower_def Let_def)

lemma small_unat: "v = of_nat n \<Longrightarrow> n < 256 \<Longrightarrow> unat (v :: byte) = n"
  by (simp add: unat_of_nat)

lemma fromHexChar_Some:
  assumes "fromHexChar c = Some v"
  shows "unat v < 16 \<and> hexDigit (unat v) = lower c"
proof -
  let ?n = "of_char c :: nat"
  have c: "c = char_of ?n" by simp
  consider "48 \<le> ?n" "?n \<le> 57" | "97 \<le> ?n" "?n \<le> 102" | "65 \<le> ?n" "?n \<le> 70"
    using assms by (auto simp: fromHexChar_def Let_def split: if_splits)
  then show ?thesis
  proof cases
    case 1
    then have "v = of_nat (?n - 48)"
      using assms unfolding fromHexChar_def Let_def by (simp del: of_nat_diff)
    then have "unat v = ?n - 48"
      by (rule small_unat) (rule le_less_trans [OF diff_le_self of_char_lt])
    with 1 show ?thesis by (auto simp: hexDigit_def lower_def)
  next
    case 2
    then have "v = of_nat (?n - 87)"
      using assms unfolding fromHexChar_def Let_def by (simp del: of_nat_diff)
    then have "unat v = ?n - 87"
      by (rule small_unat) (rule le_less_trans [OF diff_le_self of_char_lt])
    with 2 show ?thesis by (auto simp: hexDigit_def lower_def)
  next
    case 3
    then have "v = of_nat (?n - 55)"
      using assms unfolding fromHexChar_def Let_def by (simp del: of_nat_diff)
    then have "unat v = ?n - 55"
      by (rule small_unat) (rule le_less_trans [OF diff_le_self of_char_lt])
    with 3 show ?thesis by (auto simp: hexDigit_def lower_def)
  qed
qed

lemma byte_halves: "push_bit 4 (of_nat (unat x div 16)) OR of_nat (unat x mod 16) = (x :: byte)"
proof -
  have "push_bit 4 (drop_bit 4 x) OR take_bit 4 x = x"
    by (rule bit_word_eqI) (auto simp: bit_simps)
  moreover have "(of_nat (unat x div 16) :: byte) = drop_bit 4 x"
    using unsigned_less [of x, where 'a = nat] by (simp add: word_unat_eq_iff unat_of_nat drop_bit_eq_div unat_div)
  moreover have "(of_nat (unat x mod 16) :: byte) = take_bit 4 x"
    by (simp add: word_unat_eq_iff unat_of_nat take_bit_eq_mod unat_mod)
  ultimately show ?thesis by simp
qed

lemma EncodeToString_Cons [simp]:
  "EncodeToString [] = []"
  "EncodeToString (x # b) = hexDigit (unat x div 16) # hexDigit (unat x mod 16) # EncodeToString b"
  by (simp_all add: EncodeToString_def)

lemma length_EncodeToString [simp]: "length (EncodeToString b) = 2 * length b"
  by (induction b) simp_all

lemma Decode_Encode [simp]: "DecodeString (EncodeToString b) = Inr b"
proof (induction b)
  case (Cons x b)
  have "unat x < 256" using unsigned_less [of x] by simp
  then have "unat x div 16 < 16" "unat x mod 16 < 16" by simp_all
  then show ?case using Cons byte_halves [of x] by simp
qed simp

lemma Decode_lower: "DecodeString (map lower s) = Inr b \<longleftrightarrow> DecodeString s = Inr b"
proof (induction s arbitrary: b rule: DecodeString.induct)
  case (3 c d s)
  show ?case
  proof (cases "fromHexChar c"; cases "fromHexChar d")
    fix x y
    assume x: "fromHexChar c = Some x" and y: "fromHexChar d = Some y"
    from "3.IH" [OF x y] show ?thesis
      using x y by (cases "DecodeString s"; cases "DecodeString (map lower s)") auto
  qed simp_all
qed (auto split: option.splits)

lemma nibble_bit: "unat (a :: byte) < 16 \<Longrightarrow> bit a n \<Longrightarrow> n < 4"
proof -
  assume a: "unat a < 16" and b: "bit a n"
  have "take_bit 4 a = a"
    using a by (simp add: word_unat_eq_iff unsigned_take_bit_eq take_bit_nat_eq_self)
  then show ?thesis using b by (metis bit_take_bit_iff)
qed

lemma nibbles:
  assumes "unat a < 16" and "unat b < 16"
  defines "x \<equiv> push_bit 4 a OR b :: byte"
  shows "unat x div 16 = unat a" and "unat x mod 16 = unat b"
proof -
  have "drop_bit 4 x = a" "take_bit 4 x = b"
    using nibble_bit [OF assms(1)] nibble_bit [OF assms(2)]
    by (auto intro!: bit_word_eqI simp: x_def bit_simps) fastforce+
  moreover have "unat (drop_bit 4 x) = unat x div 16" "unat (take_bit 4 x) = unat x mod 16"
    by (simp_all add: drop_bit_eq_div unat_div take_bit_eq_mod unat_mod)
  ultimately show "unat x div 16 = unat a" "unat x mod 16 = unat b" by simp_all
qed

lemma Decode_Inr: "DecodeString s = Inr b \<Longrightarrow> map lower s = EncodeToString b"
proof (induction s arbitrary: b rule: DecodeString.induct)
  case (3 c d s)
  then obtain x y bs where xy: "fromHexChar c = Some x" "fromHexChar d = Some y"
    and b: "DecodeString s = Inr bs" "b = (push_bit 4 x OR y) # bs"
    by (auto split: option.splits sum.splits)
  then show ?case
    using "3.IH" [OF xy b(1)] fromHexChar_Some [OF xy(1)] fromHexChar_Some [OF xy(2)] nibbles [of x y]
    by simp
qed (auto split: option.splits)

lemma Decode_iff: "DecodeString s = Inr b \<longleftrightarrow> map lower s = EncodeToString b"
  using Decode_Inr [of s b] Decode_lower [of s b] by auto

lemma Decode_InvalidByte:
  "(\<exists>c. DecodeString s = Inl (InvalidByteError c)) \<longleftrightarrow> (\<exists>c \<in> set s. fromHexChar c = None)"
  by (induction s rule: DecodeString.induct) (auto split: option.splits sum.splits)

lemma Decode_ErrLength:
  "DecodeString s = Inl ErrLength \<longleftrightarrow> odd (length s) \<and> (\<forall>c \<in> set s. fromHexChar c \<noteq> None)"
  by (induction s rule: DecodeString.induct) (auto split: option.splits sum.splits)

lemma load_key_Inr:
  "load_key s = Inr key \<longleftrightarrow> map lower s = EncodeToString key \<and> length key = 32"
proof (cases "s = ''''")
  case False
  then show ?thesis
    by (auto simp: load_key_def Decode_iff [symmetric] split: sum.splits)
qed (auto simp: load_key_def dest!: arg_cong [of _ _ length])

lemma ctx_err_False [simp]: "ctx_err False = None"
  by (simp add: ctx_err_def)

lemma seconds_small [simp]: "seconds 3 = 3000000000" "seconds 5 = 5000000000" "seconds 10 = 10000000000"
  by (simp_all add: seconds_def)

lemma seconds_pos: "0 < n \<Longrightarrow> n \<le> 9223372036 \<Longrightarrow> seconds n = n * 1000000000"
  by (simp add: seconds_def)

lemma seconds_neg: "- 9223372036 \<le> n \<Longrightarrow> n < 0 \<Longrightarrow> seconds n < 0"
  unfolding seconds_def by (subst wrap64_id) simp_all

section \<open>Properties\<close>

text \<open>The key in the configuration is read as it was printed: the programs accept exactly the texts
  of 64 hexadecimal digits, in either case, and get back the 32 bytes whose encoding the text is.
  A text with an odd number of digits, and a text with another character, is refused as such.\<close>

lemma key_round_trip:
  "(load_key s = Inr key \<longleftrightarrow> map lower s = EncodeToString key \<and> length s = 64) \<and>
   (load_key s = Inl (KeyNotHex ErrLength) \<longleftrightarrow>
      odd (length s) \<and> None \<notin> set (map fromHexChar s)) \<and>
   ((\<exists>c. load_key s = Inl (KeyNotHex (InvalidByteError c))) \<longleftrightarrow>
      None \<in> set (map fromHexChar s))"
proof -
  have "length s = 2 * length key" if "map lower s = EncodeToString key"
    using that by (metis length_EncodeToString length_map)
  then have ok: "load_key s = Inr key \<longleftrightarrow> map lower s = EncodeToString key \<and> length s = 64"
    by (auto simp: load_key_Inr)
  have "load_key s = Inl (KeyNotHex e) \<longleftrightarrow> DecodeString s = Inl e" for e
    by (auto simp: load_key_def split: sum.splits)
  then show ?thesis
    using ok Decode_ErrLength [of s] Decode_InvalidByte [of s] by (auto simp: image_iff) (metis option.exhaust)+
qed

text \<open>The server program starts only with a complete configuration: a key of 32 bytes and an address.\<close>

lemma server_settings_complete:
  assumes "server_settings ReadFile Unmarshal flagPath statOk env = Inr (cfg, key)"
  shows "length key = 32 \<and> s_ListenAddr cfg \<noteq> [] \<and> s_PprofAddr cfg \<noteq> [] \<and> load_key (s_AES256KeyHex cfg) = Inr key"
  using assms
  by (auto simp: server_settings_def server_LoadConfig_def override_def load_key_Inr Let_def split: sum.splits if_splits)

end
