(* ===== verification/Server_Program.thy ===== *)
theory Server_Program
  imports Server Config
begin

text \<open>
  The server program, \<open>examples/server/main.go\<close>, from its settings to the end of the process. Between
  \<open>Start\<close> and the signal the server runs by itself: what its goroutines and the statistics ticker do is a
  list of events in the order in which they happen, each a whole handler (their interleaving is theory
  \<open>Server_System\<close>). The pprof listener only serves the profiler and is left out.
\<close>

section \<open>Definitions\<close>

datatype server_fatal = SettingsFatal fatal | CannotCreate crypt_error | CannotStart string

datatype server_event =
    Accepts int "string + unit"
  | Arrives int sid message
  | Disconnects sid
  | StatsTick

text \<open>The running program: the server, whether the accept loop still runs, and the printed statistics.\<close>

record server_run =
  run_server :: server
  run_accepting :: bool
  run_stats :: "server_stats list"

text \<open>
  A message or the end of a connection concerns a session that is still in the table. The end of a
  connection makes the read loop return, whose deferred call is \<open>Close\<close>; \<^const>\<open>None\<close> would be a call
  that blocks.
\<close>

fun server_event_step :: "server_event \<Rightarrow> server_run \<Rightarrow> server_run option" where
  "server_event_step (Accepts now accepted) st =
     Some (if run_accepting st
           then (case acceptLoop_body now accepted (run_server st) of
                   (srv, goes_on) \<Rightarrow> st\<lparr>run_server := srv, run_accepting := goes_on\<rparr>)
           else st)"
| "server_event_step (Arrives now i msg) st =
     Some (if i \<in> set (sessions (run_server st))
           then st\<lparr>run_server := process_message now i msg (run_server st)\<rparr> else st)"
| "server_event_step (Disconnects i) st =
     (if i \<in> set (sessions (run_server st))
      then do { srv \<leftarrow> session_Close i (run_server st); Some (st\<lparr>run_server := srv\<rparr>) }
      else Some st)"
| "server_event_step StatsTick st =
     Some (st\<lparr>run_stats := run_stats st @ [GetStats (run_server st)]\<rparr>)"

fun server_events :: "server_event list \<Rightarrow> server_run \<Rightarrow> server_run option" where
  "server_events [] st = Some st"
| "server_events (e # es) st = do { st' \<leftarrow> server_event_step e st; server_events es st' }"

text \<open>
  The main function. The last component of the result is that of \<open>srv.Close\<close>, after which the program
  prints that it stopped: \<^const>\<open>None\<close> when the call never returns.
\<close>

definition server_main :: "(string \<Rightarrow> string + bytes) \<Rightarrow> (bytes \<Rightarrow> string + server_config_file) \<Rightarrow> string \<Rightarrow> bool \<Rightarrow>
    environment \<Rightarrow> (bytes \<Rightarrow> string + 'block) \<Rightarrow> (sid \<Rightarrow> session) \<Rightarrow> string + unit \<Rightarrow> server_event list \<Rightarrow> string option \<Rightarrow>
    server_fatal + server_run option \<times> (server \<times> string option) option" where
  "server_main ReadFile Unmarshal flagPath statOk env NewAESBlockCrypt objs listen es closeErr =
     (case server_settings ReadFile Unmarshal flagPath statOk env of
        Inl err \<Rightarrow> Inl (SettingsFatal err)
      | Inr (cfg, key) \<Rightarrow>
          (case NewServer NewAESBlockCrypt (s_ListenAddr cfg) key objs of
             Inl err \<Rightarrow> Inl (CannotCreate err)
           | Inr srv \<Rightarrow>
               (case server_Start listen srv of
                  (_, Some err) \<Rightarrow> Inl (CannotStart err)
                | (srv1, None) \<Rightarrow>
                    (case server_events es \<lparr>run_server = srv1, run_accepting = True, run_stats = []\<rparr> of
                       None \<Rightarrow> Inr (None, None)
                     | Some st \<Rightarrow> Inr (Some st, server_Close closeErr (run_server st))))))"

section \<open>The table of sessions\<close>

text \<open>The connections that are open after a run: those accepted, numbered from 0, less those that ended.\<close>

fun live :: "server_event list \<Rightarrow> nat \<times> sid list \<Rightarrow> nat \<times> sid list" where
  "live [] t = t"
| "live (Accepts now (Inr u) # es) (n, is) = live es (n + 1, is @ [n])"
| "live (Disconnects i # es) (n, is) = live es (n, filter (\<lambda>j. j \<noteq> i) is)"
| "live (e # es) t = live es t"

text \<open>
  Between the handlers: the mutex is free, the server is not closed, and the sessions in the table are
  exactly the live ones, none of them closed.
\<close>

definition table_ok :: "nat \<times> sid list \<Rightarrow> server \<Rightarrow> bool" where
  "table_ok t srv \<longleftrightarrow> \<not> mu_held srv \<and> \<not> srv_done srv \<and> \<not> srv_closeOnce srv \<and> listener srv = OpenListener \<and>
     next_sid srv = fst t \<and> sessions srv = snd t \<and> (\<forall>i \<in> set (snd t). i < fst t \<and> \<not> closeOnce (objects srv i))"

lemma on_session_table:
  assumes "\<And>s. closeOnce (fst (f s)) = closeOnce s"
  shows "table_ok t (fst (on_session i f srv)) = table_ok t srv"
  using assms by (auto simp: on_session_fst table_ok_def)

lemma enqueue_closeOnce: "closeOnce (fst (enqueueEncoded p s)) = closeOnce s"
  by (simp add: enqueueEncoded_def Let_def split: prod.splits send_result.splits)

lemma send_closeOnce:
  "closeOnce (fst (SendEncoded p s)) = closeOnce s" "closeOnce (fst (SendOK x s)) = closeOnce s"
  "closeOnce (fst (SendError x s)) = closeOnce s" "closeOnce (fst (SendPong s)) = closeOnce s"
  by (simp_all add: SendEncoded_def SendOK_def SendError_def SendPong_def enqueue_closeOnce)

lemmas send_table = send_closeOnce [THEN on_session_table]

lemma publish_loop_table: "table_ok t (publish_loop e subs srv) = table_ok t srv"
  by (induction subs arbitrary: srv) (simp_all add: send_table)

lemma table_ok_objects:
  "(\<And>j. closeOnce (f j) = closeOnce (objects srv j)) \<Longrightarrow> table_ok t (srv\<lparr>objects := f\<rparr>) = table_ok t srv"
  by (simp add: table_ok_def)

lemma table_ok_router [simp]: "table_ok t (srv\<lparr>router := r\<rparr>) = table_ok t srv"
  by (simp add: table_ok_def)

lemma handle_table: "table_ok t (fst (HandleMessage i m srv)) = table_ok t srv"
  by (simp add: HandleMessage_def handleSubscribe_def handleUnsubscribe_def handlePublish_def handlePing_def
      Let_def split_beta send_table publish_loop_table table_ok_objects)

lemma process_table: "table_ok t (process_message now i m srv) = table_ok t srv"
  using handle_table [of t i m srv]
  by (simp add: process_message_def Let_def split_beta table_ok_objects send_table split: option.split)

lemma accept_table:
  "table_ok (n, is) srv \<Longrightarrow> table_ok (n + 1, is @ [n]) (accept_session now srv)"
  by (auto simp: table_ok_def accept_session_def Let_def)

lemma disconnect_table:
  assumes "table_ok (n, is) srv" and "i \<in> set is"
  shows "\<exists>srv'. session_Close i srv = Some srv' \<and> table_ok (n, filter (\<lambda>j. j \<noteq> i) is) srv'"
  using assms by (auto simp: session_Close_def removeSession_def table_ok_def Let_def)

lemma server_event_table:
  assumes "table_ok t (run_server st)" and "run_accepting st"
  shows "\<exists>st'. server_event_step e st = Some st' \<and> run_accepting st' \<and> table_ok (live [e] t) (run_server st')"
proof -
  obtain n "is" where t: "t = (n, is)" by force
  show ?thesis
  proof (cases e)
    case (Accepts now r)
    then show ?thesis
      using assms t accept_table [of n "is" "run_server st" now] by (cases r) (simp_all add: acceptLoop_body_def table_ok_def)
  next
    case (Arrives now i m)
    then show ?thesis using assms t by (simp add: process_table)
  next
    case (Disconnects i)
    have s: "sessions (run_server st) = is" using assms(1) t by (simp add: table_ok_def)
    show ?thesis
    proof (cases "i \<in> set is")
      case True
      then show ?thesis using disconnect_table [of n "is" _ i] assms t s Disconnects by fastforce
    next
      case False
      then have "filter (\<lambda>j. j \<noteq> i) is = is" by (simp add: filter_neq_id)
      then show ?thesis using assms t s Disconnects False by simp
    qed
  next
    case StatsTick
    then show ?thesis using assms t by simp
  qed
qed

lemma live_Cons: "live (e # es) t = live es (live [e] t)"
  by (cases t; cases e rule: server_event.exhaust) (auto split: sum.splits, (rename_tac r; case_tac r; simp)?)

lemma server_events_table:
  "table_ok t (run_server st) \<Longrightarrow> run_accepting st \<Longrightarrow>
     \<exists>st'. server_events es st = Some st' \<and> table_ok (live es t) (run_server st')"
proof (induction es arbitrary: st t)
  case Nil
  then show ?case by simp
next
  case (Cons e es)
  obtain st' where "server_event_step e st = Some st'" "run_accepting st'" "table_ok (live [e] t) (run_server st')"
    using server_event_table [OF Cons.prems, of e] by blast
  then show ?case
    using Cons.IH [of "live [e] t" st'] live_Cons [of e es t] by simp
qed

lemma close_table:
  assumes "table_ok (n, is) srv"
  shows "server_Close err srv =
    (if is = [] then Some (srv\<lparr>srv_closeOnce := True, srv_done := True, listener := ClosedListener\<rparr>, err) else None)"
proof -
  let ?srv = "srv\<lparr>srv_closeOnce := True, srv_done := True, mu_held := True\<rparr>"
  have f: "\<not> srv_closeOnce srv" "\<not> mu_held srv" "listener srv = OpenListener" "sessions srv = is"
    "list_ex (\<lambda>i. \<not> closeOnce (objects srv i)) is \<longleftrightarrow> is \<noteq> []"
    using assms by (auto simp: table_ok_def list_ex_iff intro: hd_in_set)
  show ?thesis
    using f close_loop_held [of ?srv "is"] by (cases srv) (auto simp: server_Close_def Let_def)
qed

section \<open>Properties\<close>

text \<open>C19: The server program: it fails before it listens exactly when its settings, its key or the
  address are bad; otherwise no handler ever blocks, and after the signal it stops if and only if every
  connection it accepted has ended by itself. With a client still connected \<open>srv.Close\<close> never returns and
  the process has to be killed.\<close>

theorem server_main_stops_iff:
  "case server_main ReadFile Unmarshal flagPath statOk env mk objs listen es closeErr of
     Inl err \<Rightarrow> (\<exists>e. server_settings ReadFile Unmarshal flagPath statOk env = Inl e) \<or>
       (\<exists>cfg key e. server_settings ReadFile Unmarshal flagPath statOk env = Inr (cfg, key) \<and> (mk key = Inl e \<or> listen = Inl e))
   | Inr (st, stopped) \<Rightarrow>
       (\<exists>run. st = Some run \<and> sessions (run_server run) = snd (live es (0, [])) \<and>
          (case stopped of
             None \<Rightarrow> snd (live es (0, [])) \<noteq> []
           | Some (srv, err) \<Rightarrow> snd (live es (0, [])) = [] \<and> err = closeErr \<and> listener srv = ClosedListener))"
proof (cases "server_settings ReadFile Unmarshal flagPath statOk env")
  case (Inl err)
  then show ?thesis by (simp add: server_main_def)
next
  case (Inr ck)
  obtain cfg key where s: "server_settings ReadFile Unmarshal flagPath statOk env = Inr (cfg, key)"
    using Inr by (cases ck) simp
  have l: "length key = 32" using server_settings_complete [OF s] by simp
  show ?thesis
  proof (cases "NewServer mk (s_ListenAddr cfg) key objs")
    case (Inl e)
    then show ?thesis using s l by (auto simp: server_main_def NewServer_def newAES256BlockCrypt_def split: sum.splits)
  next
    case new: (Inr srv)
    let ?run = "\<lparr>run_server = srv\<lparr>listener := OpenListener\<rparr>, run_accepting = True, run_stats = []\<rparr>"
    have t: "table_ok (0, []) (srv\<lparr>listener := OpenListener\<rparr>)"
      using new by (auto simp: table_ok_def NewServer_def split: sum.splits)
    obtain st' where r: "server_events es ?run = Some st'" "table_ok (live es (0, [])) (run_server st')"
      using server_events_table [of "(0, [])" ?run es] t by auto
    obtain n "is" where li: "live es (0, []) = (n, is)" by force
    show ?thesis
      using s new r li close_table [of n "is" "run_server st'" closeErr]
      by (cases listen) (auto simp: server_main_def server_Start_def table_ok_def)
  qed
qed

end
