(* ===== verification/Subscription.thy ===== *)
theory Subscription
  imports Protocol Subject_Matching Ring_Buffer
begin

text \<open>
  One subscription of the client, \<open>src/client/subscription.go\<close>: its bounded message channel, the
  goroutine that feeds the channel's messages to the callback, and the counters. \<open>Unsubscribe\<close>,
  which also acts on the client, is in theory \<open>Client\<close>.
\<close>

section \<open>State and operations\<close>

record client_message =
  MsgSubject :: string
  MsgData :: bytes

text \<open>
  The struct. \<open>processing\<close> says whether the goroutine of \<open>startProcessing\<close> runs (the wait group
  counts it); \<open>handled\<close> records the messages passed to the callback, in order.
\<close>

record subscription =
  sub_subject :: string
  active :: bool
  msgChan :: "client_message chan"
  processing :: bool
  processedCount :: int
  droppedCount :: int
  sub_closeOnce :: bool
  handled :: "client_message list"

record subscription_stats =
  ProcessedCount :: int
  DroppedCount :: int
  Active :: bool

text \<open>The composite literal of \<open>SubscribeWithOptionsContext\<close>, activated and with its goroutine.\<close>

definition startProcessing :: "subscription \<Rightarrow> subscription" where
  "startProcessing s = s\<lparr>processing := True\<rparr>"

definition new_subscription :: "string \<Rightarrow> nat \<Rightarrow> subscription" where
  "new_subscription subject channelCapacity =
     startProcessing \<lparr>sub_subject = subject, active = True, msgChan = make_chan channelCapacity,
       processing = False, processedCount = 0, droppedCount = 0, sub_closeOnce = False, handled = []\<rparr>"

text \<open>
  One round of the goroutine: it takes a message and runs the callback; when the channel is closed
  and empty it ends; otherwise it waits (\<^const>\<open>None\<close>).
\<close>

definition process_one :: "subscription \<Rightarrow> subscription option" where
  "process_one s =
     (if \<not> processing s then None
      else case try_recv (msgChan s) of
          Some (msg, c) \<Rightarrow>
            Some (s\<lparr>msgChan := c, handled := handled s @ [msg],
                    processedCount := wrap64 (processedCount s + 1)\<rparr>)
        | None \<Rightarrow> if chan_closed (msgChan s) then Some (s\<lparr>processing := False\<rparr>) else None)"

text \<open>
  \<open>TryEnqueue\<close>: a send on a closed channel panics; the deferred function recovers and the result
  is the zero value \<open>false\<close>, with no drop counted.
\<close>

definition TryEnqueue :: "client_message \<Rightarrow> subscription \<Rightarrow> subscription \<times> bool" where
  "TryEnqueue msg s =
     (if \<not> active s then (s, False)
      else case try_send msg (msgChan s) of
          (c, Sent) \<Rightarrow> (s\<lparr>msgChan := c\<rparr>, True)
        | (c, Full) \<Rightarrow> (s\<lparr>droppedCount := wrap64 (droppedCount s + 1)\<rparr>, False)
        | (c, SendPanic) \<Rightarrow> (s, False))"

definition Subscription_GetStats :: "subscription \<Rightarrow> subscription_stats" where
  "Subscription_GetStats s =
     \<lparr>ProcessedCount = processedCount s, DroppedCount = droppedCount s, Active = active s\<rparr>"

definition IsActive :: "subscription \<Rightarrow> bool" where
  "IsActive s = active s"

definition close_msgChan :: "subscription \<Rightarrow> subscription" where
  "close_msgChan s = s\<lparr>msgChan := (msgChan s)\<lparr>chan_closed := True\<rparr>\<rparr>"

text \<open>
  \<open>wg.Wait()\<close> after the channel was closed: the goroutine runs until it ends. The measure is the
  number of queued messages.
\<close>

function drain :: "subscription \<Rightarrow> subscription" where
  "drain s = (case process_one s of
      None \<Rightarrow> s
    | Some s' \<Rightarrow> drain s')"
  by pat_completeness auto
termination
proof (relation "measure (\<lambda>s. length (chan_buf (msgChan s)) + (if processing s then 1 else 0))")
  show "\<And>s s'. process_one s = Some s' \<Longrightarrow>
      (s', s) \<in> measure (\<lambda>s. length (chan_buf (msgChan s)) + (if processing s then 1 else 0))"
    by (auto simp: process_one_def try_recv_def split: if_splits option.splits list.splits)
qed simp

declare drain.simps [simp del]

section \<open>Lemmas\<close>

abbreviation waiting :: "subscription \<Rightarrow> client_message list" where
  "waiting s \<equiv> chan_buf (msgChan s)"

lemma drain_closed:
  assumes "processing s" and "chan_closed (msgChan s)"
  shows "handled (drain s) = handled s @ waiting s \<and> waiting (drain s) = [] \<and>
    \<not> processing (drain s) \<and> sub_subject (drain s) = sub_subject s \<and> active (drain s) = active s \<and>
    droppedCount (drain s) = droppedCount s \<and> sub_closeOnce (drain s) = sub_closeOnce s \<and>
    chan_closed (msgChan (drain s))"
  using assms
proof (induction s rule: drain.induct)
  case (1 s)
  show ?case
  proof (cases "waiting s")
    case Nil
    then have p: "process_one s = Some (s\<lparr>processing := False\<rparr>)"
      using "1.prems" by (simp add: process_one_def try_recv_def)
    have "process_one (s\<lparr>processing := False\<rparr>) = None"
      by (simp add: process_one_def)
    then have "drain s = s\<lparr>processing := False\<rparr>"
      using p by (simp add: drain.simps [of s] drain.simps [of "s\<lparr>processing := False\<rparr>"])
    then show ?thesis using Nil "1.prems" by simp
  next
    case (Cons m ms)
    define s' where "s' = s\<lparr>msgChan := (msgChan s)\<lparr>chan_buf := ms\<rparr>, handled := handled s @ [m],
        processedCount := wrap64 (processedCount s + 1)\<rparr>"
    have p: "process_one s = Some s'"
      using "1.prems" Cons by (simp add: process_one_def try_recv_def s'_def)
    have "drain s = drain s'"
      using p by (simp add: drain.simps [of s])
    moreover have "processing s'" "chan_closed (msgChan s')"
      using "1.prems" by (simp_all add: s'_def)
    ultimately show ?thesis
      using "1.IH" [OF p] Cons by (simp add: s'_def)
  qed
qed

text \<open>The life of a subscription as seen by the receive loop and by its goroutine.\<close>

datatype sub_event = Offer client_message | Process

fun sub_event_step :: "sub_event \<Rightarrow> subscription \<Rightarrow> subscription" where
  "sub_event_step (Offer m) s = fst (TryEnqueue m s)"
| "sub_event_step Process s = (case process_one s of None \<Rightarrow> s | Some s' \<Rightarrow> s')"

text \<open>The messages that a run of events accepts, and the number it refuses because of a full queue.\<close>

fun accepted :: "sub_event list \<Rightarrow> subscription \<Rightarrow> client_message list" where
  "accepted [] s = []"
| "accepted (Offer m # es) s =
     (if snd (TryEnqueue m s) then [m] else []) @ accepted es (sub_event_step (Offer m) s)"
| "accepted (Process # es) s = accepted es (sub_event_step Process s)"

fun offers :: "sub_event list \<Rightarrow> nat" where
  "offers [] = 0"
| "offers (Offer m # es) = Suc (offers es)"
| "offers (Process # es) = offers es"

definition sub_ok :: "subscription \<Rightarrow> bool" where
  "sub_ok s \<longleftrightarrow> active s \<and> processing s \<and> \<not> chan_closed (msgChan s) \<and> chan_ok (msgChan s)"

lemma new_subscription_ok [simp]: "sub_ok (new_subscription t n)"
  by (simp add: sub_ok_def new_subscription_def startProcessing_def make_chan_def chan_ok_def)

lemma sub_ok_step:
  assumes "sub_ok s"
  shows "sub_ok (sub_event_step e s) \<and> chan_cap (msgChan (sub_event_step e s)) = chan_cap (msgChan s)"
  using assms
  by (cases e)
    (auto simp: sub_ok_def TryEnqueue_def process_one_def try_send_def try_recv_def chan_ok_def
      split: option.splits list.splits)

text \<open>
  Conservation for a run: what was handled and what waits is what was accepted, and the counters
  count what was handled and what was refused.
\<close>

lemma events_conserve:
  assumes "sub_ok s" and "0 \<le> processedCount s" and "0 \<le> droppedCount s"
    and "processedCount s + int (length (waiting s)) + int (offers es) \<le> 2 ^ 62"
    and "droppedCount s + int (offers es) \<le> 2 ^ 62"
  defines "s' \<equiv> fold sub_event_step es s"
  shows "handled s' @ waiting s' = handled s @ waiting s @ accepted es s \<and>
    processedCount s' - processedCount s = int (length (handled s')) - int (length (handled s)) \<and>
    droppedCount s' - droppedCount s = int (offers es) - int (length (accepted es s)) \<and> sub_ok s'"
  using assms(1-5) unfolding s'_def
proof (induction es arbitrary: s)
  case Nil
  then show ?case by simp
next
  case (Cons e es)
  let ?s = "sub_event_step e s"
  have ok: "sub_ok ?s" using sub_ok_step [OF Cons.prems(1)] by simp
  show ?case
  proof (cases e)
    case (Offer m)
    have cases: "?s = s\<lparr>msgChan := (msgChan s)\<lparr>chan_buf := waiting s @ [m]\<rparr>\<rparr> \<and> snd (TryEnqueue m s) \<or>
        ?s = s\<lparr>droppedCount := droppedCount s + 1\<rparr> \<and> \<not> snd (TryEnqueue m s)"
      using Cons.prems Offer by (simp add: sub_ok_def TryEnqueue_def try_send_def)
    then show ?thesis
    proof
      assume a: "?s = s\<lparr>msgChan := (msgChan s)\<lparr>chan_buf := waiting s @ [m]\<rparr>\<rparr> \<and> snd (TryEnqueue m s)"
      then show ?thesis
        using Cons.IH [OF ok] Cons.prems Offer by (simp del: sub_event_step.simps)
    next
      assume a: "?s = s\<lparr>droppedCount := droppedCount s + 1\<rparr> \<and> \<not> snd (TryEnqueue m s)"
      then show ?thesis
        using Cons.IH [OF ok] Cons.prems Offer by (simp del: sub_event_step.simps)
    qed
  next
    case Process
    show ?thesis
    proof (cases "waiting s")
      case Nil
      then have "?s = s"
        using Cons.prems Process by (simp add: process_one_def try_recv_def sub_ok_def)
      then show ?thesis
        using Cons.IH [OF ok] Cons.prems Process by (simp del: sub_event_step.simps)
    next
      case w: (Cons m ms)
      have p: "?s = s\<lparr>msgChan := (msgChan s)\<lparr>chan_buf := ms\<rparr>, handled := handled s @ [m],
          processedCount := processedCount s + 1\<rparr>"
        using Cons.prems Process w by (simp add: process_one_def try_recv_def sub_ok_def)
      show ?thesis
        using Cons.IH [OF ok] Cons.prems Process w p by (simp del: sub_event_step.simps)
    qed
  qed
qed

section \<open>Properties\<close>

text \<open>Messages offered to a subscription are neither lost, reordered nor duplicated once accepted:
  after any interleaving of offers by the receive loop with rounds of the processing goroutine, the
  messages handled by the callback followed by those waiting are exactly the accepted ones in
  order, at most the capacity is waiting, and the two counters are the numbers of handled and of
  refused messages.\<close>

lemma subscription_conserves:
  fixes t :: string and n :: nat
  assumes "int (offers es) \<le> 2 ^ 62"
  defines "s \<equiv> fold sub_event_step es (new_subscription t n)"
  shows "handled s @ waiting s = accepted es (new_subscription t n) \<and>
    length (waiting s) \<le> n \<and>
    ProcessedCount (Subscription_GetStats s) = int (length (handled s)) \<and>
    DroppedCount (Subscription_GetStats s) =
      int (offers es) - int (length (accepted es (new_subscription t n)))"
proof -
  have new: "handled (new_subscription t n) = []" "waiting (new_subscription t n) = []"
    "processedCount (new_subscription t n) = 0" "droppedCount (new_subscription t n) = 0"
    "chan_cap (msgChan (new_subscription t n)) = n"
    by (simp_all add: new_subscription_def startProcessing_def make_chan_def)
  have "chan_cap (msgChan (fold sub_event_step es u)) = chan_cap (msgChan u)" if "sub_ok u" for u
    using that
  proof (induction es arbitrary: u)
    case (Cons e es)
    then show ?case using sub_ok_step [OF Cons.prems, of e] by simp
  qed simp
  then have "chan_cap (msgChan s) = n"
    using new(5) by (simp add: s_def)
  then have "length (waiting s) \<le> n" if "sub_ok s"
    using that by (simp add: sub_ok_def chan_ok_def)
  then show ?thesis
    using events_conserve [of "new_subscription t n" es] assms(1) new
    by (simp add: s_def Subscription_GetStats_def)
qed

end
