(* ===== verification/Client.thy ===== *)
theory Client
  imports Subscription Crypto
begin

text \<open>
  The client, \<open>src/client/client.go\<close> and \<open>Unsubscribe\<close> of \<open>src/client/subscription.go\<close>: the state
  of the struct \<open>Client\<close>, dispatching of received messages, publishing, subscribing with
  acknowledgement and retries, unsubscribing, closing, and the statistics. Subscriptions and
  pending acknowledgements are objects in heaps indexed by their pointers. Network writes and
  timers are choices of the environment, given as arguments. The reconnection logic is in theory
  \<open>Reconnect\<close>.
\<close>

section \<open>State\<close>

type_synonym ptr = nat

datatype client_error =
    ContextError string
  | ClientSubjectTooLong nat
  | ClientMessageTooLarge nat nat
  | ConnectionNotAvailable
  | FailedToPublish string
  | FailedToSendSub string
  | AckTimeoutError
  | ConnectionClosed
  | SubscriptionFailed nat "client_error option"
  | RestoreFailed nat
  | WriteError string
  | KeyError crypt_error
  | FailedToConnect string
  | FailedToDial string

text \<open>A pending acknowledgement; \<open>acked\<close> says whether its channel is closed.\<close>

record subscriptionACK =
  ack_subject :: string
  acked :: bool
  ackedAt :: "int option"
  ack_timeout :: int

text \<open>
  The struct, with the heaps. \<open>conn\<close> is nil or not (\<open>client_conn\<close>) and open or closed
  (\<open>client_conn_closed\<close>); \<open>c_done\<close> says whether the current channel \<open>done\<close> is closed and
  \<open>ctx_done\<close> whether the context is cancelled. \<open>outgoing\<close> records the packets written to the
  connection, \<open>lost_callbacks\<close> and \<open>reconnect_runs\<close> the goroutines started by
  \<open>triggerConnectionLost\<close> and by \<open>reconnect\<close>.
\<close>

record client =
  client_conn :: bool
  client_conn_closed :: bool
  aes256Key :: bytes
  ctx_done :: bool
  subs :: "ptr list"
  c_done :: bool
  c_closeOnce :: bool
  receiveLoopDone :: bool
  heartbeatDone :: bool
  onConnectionLost :: bool
  pendingSubs :: "(string, ptr) gomap"
  serverAddr :: string
  autoReconnect :: bool
  reconnectInterval :: duration
  maxReconnectInterval :: duration
  reconnecting :: bool
  connectionLost :: bool
  readTimeout :: duration
  heartbeatInterval :: duration
  c_writeTimeout :: duration
  messagesSent :: int
  messagesReceived :: int
  bytesSent :: int
  bytesReceived :: int
  connectionErrors :: int
  publishErrors :: int
  subscriptionErrors :: int
  totalSubscriptions :: int
  reconnectCount :: int
  latencyBuffer :: ringBuffer
  lastLatency :: duration
  connectedAt :: "int option"
  sub_obj :: "ptr \<Rightarrow> subscription"
  next_sub :: ptr
  ack_obj :: "ptr \<Rightarrow> subscriptionACK"
  next_ack :: ptr
  outgoing :: "bytes list"
  lost_callbacks :: nat
  reconnect_runs :: nat

definition on_sub :: "ptr \<Rightarrow> (subscription \<Rightarrow> subscription) \<Rightarrow> client \<Rightarrow> client" where
  "on_sub p f c = c\<lparr>sub_obj := (sub_obj c)(p := f (sub_obj c p))\<rparr>"

section \<open>Connecting\<close>

text \<open>
  The arguments stand for the error of the context, the cipher constructor, the result of
  \<open>kcp.DialWithOptions\<close> and the time. The two heaps are what memory held before.
\<close>

definition ConnectWithContext :: "string option \<Rightarrow> (bytes \<Rightarrow> string + 'block) \<Rightarrow> string + unit \<Rightarrow> int \<Rightarrow>
    (ptr \<Rightarrow> subscription) \<Rightarrow> (ptr \<Rightarrow> subscriptionACK) \<Rightarrow> string \<Rightarrow> bytes \<Rightarrow> client_error + client" where
  "ConnectWithContext ctxErr NewAESBlockCrypt dialed now subHeap ackHeap address key =
     (case ctxErr of
        Some err \<Rightarrow> Inl (ContextError err)
      | None \<Rightarrow>
        (case newAES256BlockCrypt NewAESBlockCrypt key of
           Inl err \<Rightarrow> Inl (KeyError err)
         | Inr block \<Rightarrow>
           (case dialed of
              Inl err \<Rightarrow> Inl (FailedToConnect err)
            | Inr _ \<Rightarrow>
              Inr \<lparr>client_conn = True, client_conn_closed = False, aes256Key = key, ctx_done = False,
                   subs = [], c_done = False, c_closeOnce = False, receiveLoopDone = False,
                   heartbeatDone = False, onConnectionLost = False, pendingSubs = [],
                   serverAddr = address, autoReconnect = False,
                   reconnectInterval = 5 * 1000000000, maxReconnectInterval = 30 * 1000000000,
                   reconnecting = False, connectionLost = False, readTimeout = 90 * 1000000000,
                   heartbeatInterval = 15 * 1000000000, c_writeTimeout = 5 * 1000000000,
                   messagesSent = 0, messagesReceived = 0, bytesSent = 0, bytesReceived = 0,
                   connectionErrors = 0, publishErrors = 0, subscriptionErrors = 0,
                   totalSubscriptions = 0, reconnectCount = 0, latencyBuffer = newRingBuffer 1000,
                   lastLatency = 0, connectedAt = Some now, sub_obj = subHeap, next_sub = 0,
                   ack_obj = ackHeap, next_ack = 0, outgoing = [], lost_callbacks = 0,
                   reconnect_runs = 0\<rparr>)))"

section \<open>Connection loss\<close>

text \<open>
  \<open>reconnect\<close> starts its goroutine only when none runs; what the goroutine does is in theory
  \<open>Reconnect\<close>.
\<close>

definition reconnect :: "client \<Rightarrow> client" where
  "reconnect c =
     (if reconnecting c then c
      else c\<lparr>reconnecting := True, reconnect_runs := reconnect_runs c + 1\<rparr>)"

definition triggerConnectionLost :: "client \<Rightarrow> client" where
  "triggerConnectionLost c =
     (if c_done c then c
      else if ctx_done c then c
      else if connectionLost c then c
      else
        let c1 = c\<lparr>connectionLost := True\<rparr>;
            c2 = (if onConnectionLost c1 then c1\<lparr>lost_callbacks := lost_callbacks c1 + 1\<rparr> else c1)
        in if autoReconnect c2 then reconnect c2 else c2)"

section \<open>Receiving\<close>

text \<open>The loop over the subscriptions for one MSG.\<close>

fun deliver_loop :: "message \<Rightarrow> ptr list \<Rightarrow> client \<Rightarrow> client" where
  "deliver_loop msg [] c = c"
| "deliver_loop msg (p # ps) c =
     deliver_loop msg ps
       (if active (sub_obj c p) \<and> matchSubject (sub_subject (sub_obj c p)) (Subject msg)
        then on_sub p (\<lambda>s. fst (TryEnqueue \<lparr>MsgSubject = Subject msg, MsgData = Payload msg\<rparr> s)) c
        else c)"

text \<open>Closing the channel of a pending acknowledgement unless it is closed, and forgetting it.\<close>

definition confirm_ack :: "int \<Rightarrow> string \<Rightarrow> ptr \<Rightarrow> client \<Rightarrow> client" where
  "confirm_ack now subject a c =
     (let c1 = (if acked (ack_obj c a) then c
                else c\<lparr>ack_obj := (ack_obj c)(a := (ack_obj c a)\<lparr>acked := True, ackedAt := Some now\<rparr>)\<rparr>)
      in c1\<lparr>pendingSubs := AList.delete subject (pendingSubs c1)\<rparr>)"

definition handleMessage :: "int \<Rightarrow> message \<Rightarrow> client \<Rightarrow> client" where
  "handleMessage now msg c =
     (if Command msg = CmdMsg then deliver_loop msg (subs c) c
      else if Command msg = CmdOk then
        (case map_of (pendingSubs c) (Subject msg) of
           Some a \<Rightarrow> confirm_ack now (Subject msg) a c
         | None \<Rightarrow>
             if Contains (Subject msg) ''subscribed to '' then
               let subject = TrimPrefix (Subject msg) ''subscribed to '' in
               case map_of (pendingSubs c) subject of
                 Some a \<Rightarrow> confirm_ack now subject a c
               | None \<Rightarrow> c
             else c)
      else c)"

text \<open>
  One round of \<open>receiveLoop\<close>; the argument is the result of \<open>ParseFromReader\<close>. The flag says
  whether the loop goes on; when it ends, \<open>receiveLoopDone\<close> is closed.
\<close>

definition receiveLoop_body :: "int \<Rightarrow> 'e + message \<Rightarrow> client \<Rightarrow> client \<times> bool" where
  "receiveLoop_body now parsed c =
     (if c_done c \<or> ctx_done c then (c\<lparr>receiveLoopDone := True\<rparr>, False)
      else if \<not> client_conn c then ((triggerConnectionLost c)\<lparr>receiveLoopDone := True\<rparr>, False)
      else case parsed of
          Inl err \<Rightarrow>
            let c1 = c\<lparr>connectionErrors := wrap64 (connectionErrors c + 1)\<rparr>
            in ((triggerConnectionLost c1)\<lparr>receiveLoopDone := True\<rparr>, False)
        | Inr msg \<Rightarrow> (handleMessage now msg c, True))"

text \<open>
  One round of \<open>heartbeat\<close> after a tick of its ticker; the argument is the error of the write. Only
  \<open>done\<close> ends the loop, not the context.
\<close>

definition heartbeat_body :: "string option \<Rightarrow> client \<Rightarrow> client \<times> bool" where
  "heartbeat_body writeErr c =
     (if c_done c then (c\<lparr>heartbeatDone := True\<rparr>, False)
      else if \<not> client_conn c then ((triggerConnectionLost c)\<lparr>heartbeatDone := True\<rparr>, False)
      else case writeErr of
          Some err \<Rightarrow> ((triggerConnectionLost c)\<lparr>heartbeatDone := True\<rparr>, False)
        | None \<Rightarrow> (c\<lparr>outgoing := outgoing c @ [Encode (NewMessageCmd CmdPing [] [])]\<rparr>, True))"

text \<open>\<open>MonitorConnection\<close> wakes up for one of four reasons.\<close>

datatype monitor_wake = ReceiveLoopExited | HeartbeatExited | DoneClosed | ContextDone

definition MonitorConnection :: "monitor_wake \<Rightarrow> client \<Rightarrow> client" where
  "MonitorConnection w c =
     (case w of
        ReceiveLoopExited \<Rightarrow> triggerConnectionLost c
      | HeartbeatExited \<Rightarrow> triggerConnectionLost c
      | DoneClosed \<Rightarrow> c
      | ContextDone \<Rightarrow> c)"

section \<open>Publishing\<close>

text \<open>
  The arguments \<open>ctxErr\<close> and \<open>writeErr\<close> are the error of the caller's context, if it is done, and
  the error of the write, if it fails.
\<close>

definition PublishWithContext :: "string option \<Rightarrow> string option \<Rightarrow> string \<Rightarrow> bytes \<Rightarrow> client \<Rightarrow>
    client \<times> client_error option" where
  "PublishWithContext ctxErr writeErr subject payload c =
     (let failed = c\<lparr>publishErrors := wrap64 (publishErrors c + 1)\<rparr> in
      case ctxErr of
        Some err \<Rightarrow> (c, Some (ContextError err))
      | None \<Rightarrow>
          if length subject > MaxSubjectLen
          then (failed, Some (ClientSubjectTooLong (length subject)))
          else if 1 + 2 + length subject + length payload > MaxBodyLen
          then (failed, Some (ClientMessageTooLarge (length subject) (length payload)))
          else if \<not> client_conn c
          then (triggerConnectionLost failed, Some ConnectionNotAvailable)
          else
            let encoded = Encode (NewMessageCmd CmdPub subject payload) in
            case writeErr of
              Some err \<Rightarrow> (triggerConnectionLost failed, Some (FailedToPublish err))
            | None \<Rightarrow> (c\<lparr>outgoing := outgoing c @ [encoded]\<rparr>, None))"

section \<open>Subscribing\<close>

definition removeSubscription :: "ptr \<Rightarrow> client \<Rightarrow> client" where
  "removeSubscription p c = c\<lparr>subs := delete_first 0 p (subs c) (subs c)\<rparr>"

text \<open>
  What the environment does during one attempt: the error of the context when the attempt starts,
  the error of the write, the messages that the receive loop handles before the wait ends, and
  the case of the final \<open>select\<close> that wins. The case of a channel that is not closed cannot win;
  then the timer does.
\<close>

datatype wait_choice = AckFirst | TimerFirst | ContextFirst string | DoneFirst

record attempt_env =
  env_ctxErr :: "string option"
  env_writeErr :: "string option"
  env_incoming :: "message list"
  env_wait :: wait_choice
  env_now :: int

datatype wait_result = GotAck | GotTimeout | GotContext string | GotDone

definition wait_ack :: "attempt_env \<Rightarrow> ptr \<Rightarrow> client \<Rightarrow> wait_result" where
  "wait_ack env a c =
     (case env_wait env of
        AckFirst \<Rightarrow> if acked (ack_obj c a) then GotAck else GotTimeout
      | TimerFirst \<Rightarrow> GotTimeout
      | ContextFirst err \<Rightarrow> GotContext err
      | DoneFirst \<Rightarrow> if c_done c then GotDone else GotTimeout)"

text \<open>Closing and forgetting a pending acknowledgement for the subject, if there is one.\<close>

definition drop_pending :: "string \<Rightarrow> client \<Rightarrow> client" where
  "drop_pending subject c =
     (case map_of (pendingSubs c) subject of
        None \<Rightarrow> c
      | Some a \<Rightarrow>
          let c1 = (if acked (ack_obj c a) then c
                    else c\<lparr>ack_obj := (ack_obj c)(a := (ack_obj c a)\<lparr>acked := True\<rparr>)\<rparr>)
          in c1\<lparr>pendingSubs := AList.delete subject (pendingSubs c1)\<rparr>)"

definition add_pending :: "string \<Rightarrow> int \<Rightarrow> client \<Rightarrow> client" where
  "add_pending subject timeout c =
     c\<lparr>ack_obj := (ack_obj c)(next_ack c := \<lparr>ack_subject = subject, acked = False, ackedAt = None,
                                            ack_timeout = timeout\<rparr>),
       pendingSubs := AList.update subject (next_ack c) (pendingSubs c),
       next_ack := next_ack c + 1\<rparr>"

definition forget_pending :: "string \<Rightarrow> client \<Rightarrow> client" where
  "forget_pending subject c = c\<lparr>pendingSubs := AList.delete subject (pendingSubs c)\<rparr>"

text \<open>The clean-up of a failed attempt.\<close>

definition abandon :: "string \<Rightarrow> ptr \<Rightarrow> client \<Rightarrow> client" where
  "abandon subject p c =
     (let c1 = forget_pending subject c;
          c2 = removeSubscription p c1;
          c3 = on_sub p (\<lambda>s. s\<lparr>active := False\<rparr>) c2
      in on_sub p close_msgChan c3)"

datatype attempt_result =
    Continue client client_error
  | Return client "client_error + ptr"

definition ackTimeout :: duration where
  "ackTimeout = 5 * 1000000000"

definition subscribe_attempt :: "nat \<Rightarrow> attempt_env \<Rightarrow> string \<Rightarrow> nat \<Rightarrow> client \<Rightarrow> attempt_result" where
  "subscribe_attempt attempt env subject channelCapacity c =
     (case env_ctxErr env of
        Some err \<Rightarrow> Return c (Inl (ContextError err))
      | None \<Rightarrow>
        let c1 = (if attempt > 0 then drop_pending subject c else c);
            p = next_sub c1;
            c2 = c1\<lparr>sub_obj := (sub_obj c1)(p := new_subscription subject channelCapacity),
                    next_sub := p + 1\<rparr>;
            c3 = c2\<lparr>subs := subs c2 @ [p]\<rparr>;
            a = next_ack c3;
            c4 = add_pending subject (env_now env + ackTimeout) c3;
            encoded = Encode (NewMessageCmd CmdSub subject [])
        in if \<not> client_conn c4 then Continue c4 ConnectionNotAvailable
        else case env_writeErr env of
            Some err \<Rightarrow> Continue (abandon subject p c4) (FailedToSendSub err)
          | None \<Rightarrow>
            let c5 = c4\<lparr>outgoing := outgoing c4 @ [encoded]\<rparr>;
                c6 = fold (handleMessage (env_now env)) (env_incoming env) c5
            in case wait_ack env a c6 of
                GotAck \<Rightarrow> Return c6 (Inr p)
              | GotTimeout \<Rightarrow> Continue (abandon subject p c6) AckTimeoutError
              | GotContext err \<Rightarrow> Return (abandon subject p c6) (Inl (ContextError err))
              | GotDone \<Rightarrow> Return c6 (Inl ConnectionClosed))"

definition maxRetries :: nat where
  "maxRetries = 3"

text \<open>The loop over the attempts; \<open>envs\<close> gives the environment of each.\<close>

function subscribe_loop :: "nat \<Rightarrow> (nat \<Rightarrow> attempt_env) \<Rightarrow> string \<Rightarrow> nat \<Rightarrow> client_error option \<Rightarrow>
    client \<Rightarrow> client \<times> (client_error + ptr)" where
  "subscribe_loop attempt envs subject cap lastErr c =
     (if attempt < maxRetries then
        case subscribe_attempt attempt (envs attempt) subject cap c of
          Continue c' err \<Rightarrow> subscribe_loop (attempt + 1) envs subject cap (Some err) c'
        | Return c' res \<Rightarrow> (c', res)
      else (c, Inl (SubscriptionFailed maxRetries lastErr)))"
  by pat_completeness auto
termination
  by (relation "measure (\<lambda>(attempt, _). maxRetries - attempt)") auto

declare subscribe_loop.simps [simp del]

definition SubscribeWithOptionsContext :: "(nat \<Rightarrow> attempt_env) \<Rightarrow> string \<Rightarrow> int \<Rightarrow> client \<Rightarrow>
    client \<times> (client_error + ptr)" where
  "SubscribeWithOptionsContext envs subject channelCapacity c =
     (let cap = (if channelCapacity \<le> 0 then 100 else channelCapacity) in
      if length subject > MaxSubjectLen then (c, Inl (ClientSubjectTooLong (length subject)))
      else subscribe_loop 0 envs subject (nat cap) None c)"

definition SubscribeWithContext :: "string option \<Rightarrow> (nat \<Rightarrow> attempt_env) \<Rightarrow> string \<Rightarrow> client \<Rightarrow>
    client \<times> (client_error + ptr)" where
  "SubscribeWithContext ctxErr envs subject c =
     (case ctxErr of
        Some err \<Rightarrow> (c, Inl (ContextError err))
      | None \<Rightarrow> SubscribeWithOptionsContext envs subject 100 c)"

section \<open>Unsubscribing and closing\<close>

text \<open>
  \<open>Unsubscribe\<close>: after closing the channel it waits for the processing goroutine. Closing a closed
  channel panics: \<^const>\<open>None\<close>.
\<close>

definition Subscription_Unsubscribe :: "string option \<Rightarrow> ptr \<Rightarrow> client \<Rightarrow>
    (client \<times> client_error option) option" where
  "Subscription_Unsubscribe writeErr p c =
     (let s = sub_obj c p in
      if sub_closeOnce s then Some (c, None)
      else
        let c1 = on_sub p (\<lambda>s. s\<lparr>sub_closeOnce := True\<rparr>) c in
        if \<not> active s then Some (c1, None)
        else if chan_closed (msgChan s) then None
        else
          let c2 = on_sub p (\<lambda>s. drain (close_msgChan (s\<lparr>active := False\<rparr>))) c1;
              encoded = Encode (NewMessageCmd CmdUnsub (sub_subject s) [])
          in if \<not> client_conn c2 then Some (removeSubscription p c2, None)
             else case writeErr of
                 Some err \<Rightarrow> Some (c2, Some (WriteError err))
               | None \<Rightarrow>
                   Some (removeSubscription p (c2\<lparr>outgoing := outgoing c2 @ [encoded]\<rparr>), None))"

fun deactivate_all :: "ptr list \<Rightarrow> client \<Rightarrow> client" where
  "deactivate_all [] c = c"
| "deactivate_all (p # ps) c = deactivate_all ps (on_sub p (\<lambda>s. s\<lparr>active := False\<rparr>) c)"

fun clear_pending :: "(string, ptr) gomap \<Rightarrow> client \<Rightarrow> client" where
  "clear_pending [] c = c"
| "clear_pending ((subject, a) # entries) c = clear_pending entries (drop_pending subject c)"

text \<open>
  A channel that is only ever closed is its closed flag. Closing it a second time panics
  (\<^const>\<open>None\<close>); \<open>safeClose\<close> recovers, and the channel is closed in any case.
\<close>

definition close_flag :: "bool \<Rightarrow> bool option" where
  "close_flag isClosed = (if isClosed then None else Some True)"

definition safeClose :: "bool \<Rightarrow> bool" where
  "safeClose ch = (case close_flag ch of None \<Rightarrow> ch | Some ch' \<Rightarrow> ch')"

lemma safeClose_closes [simp]: "safeClose d"
  by (simp add: safeClose_def close_flag_def)

text \<open>
  \<open>Close\<close>, from the point where the receive loop and the heartbeat have ended: both have seen
  \<open>done\<close>, so \<open>wg.Wait()\<close> has returned. The argument is what closing the connection returns.
\<close>

definition client_Close :: "string option \<Rightarrow> client \<Rightarrow> client \<times> client_error option" where
  "client_Close closeErr c =
     (if c_closeOnce c then (c, None)
      else
        let c1 = c\<lparr>c_closeOnce := True, ctx_done := True, c_done := safeClose (c_done c), receiveLoopDone := True,
                   heartbeatDone := True\<rparr>;
            c2 = (deactivate_all (subs c1) c1)\<lparr>subs := []\<rparr>;
            c3 = clear_pending (pendingSubs c2) c2
        in if client_conn c3
           then (c3\<lparr>client_conn_closed := True\<rparr>, map_option WriteError closeErr)
           else (c3, None))"

section \<open>Statistics\<close>

record client_stats =
  Connected :: bool
  ConnectedAt :: "int option"
  MessagesSent :: int
  MessagesReceived :: int
  MessagesSentPerSec :: rat
  MessagesReceivedPerSec :: rat
  BytesSent :: int
  BytesReceived :: int
  AvgLatency :: duration
  LastLatency :: duration
  ActiveSubscriptions :: nat
  ClientTotalSubscriptions :: int
  ConnectionErrors :: int
  PublishErrors :: int
  SubscriptionErrors :: int
  ReconnectCount :: int

text \<open>The two rates are exact quotients here; the code computes them in floating point.\<close>

definition client_GetStats :: "int \<Rightarrow> client \<Rightarrow> client_stats" where
  "client_GetStats now c =
     (let activeSubs = length (filter (\<lambda>p. active (sub_obj c p)) (subs c));
          uptime = (case connectedAt c of None \<Rightarrow> 0 | Some t \<Rightarrow> now - t);
          rate = (\<lambda>n. if uptime > 0 then of_int n / (of_int uptime / 1000000000) else 0)
      in \<lparr>Connected = client_conn c, ConnectedAt = connectedAt c,
          MessagesSent = messagesSent c, MessagesReceived = messagesReceived c,
          MessagesSentPerSec = rate (messagesSent c),
          MessagesReceivedPerSec = rate (messagesReceived c),
          BytesSent = bytesSent c, BytesReceived = bytesReceived c,
          AvgLatency = calculateAvgLatency (latencyBuffer c), LastLatency = lastLatency c,
          ActiveSubscriptions = activeSubs, ClientTotalSubscriptions = totalSubscriptions c,
          ConnectionErrors = connectionErrors c, PublishErrors = publishErrors c,
          SubscriptionErrors = subscriptionErrors c, ReconnectCount = reconnectCount c\<rparr>)"

text \<open>\<open>recordLatency\<close>: adding to a ring buffer of size 0 divides by zero, \<^const>\<open>None\<close>.\<close>

definition recordLatency :: "duration \<Rightarrow> client \<Rightarrow> client option" where
  "recordLatency latency c =
     do { rb \<leftarrow> rb_Add latency (latencyBuffer c);
          Some (c\<lparr>lastLatency := latency, latencyBuffer := rb\<rparr>) }"

section \<open>Invariant\<close>

text \<open>
  The list holds distinct allocated subscriptions; the map of pending acknowledgements has distinct
  keys and points to allocated acknowledgements for those keys.
\<close>

definition client_ok :: "client \<Rightarrow> bool" where
  "client_ok c \<longleftrightarrow> distinct (subs c) \<and> (\<forall>p \<in> set (subs c). p < next_sub c) \<and>
     distinct (keys (pendingSubs c)) \<and>
     (\<forall>t a. map_of (pendingSubs c) t = Some a \<longrightarrow> a < next_ack c \<and> ack_subject (ack_obj c a) = t)"

lemma trigger_frame [simp]:
  "subs (triggerConnectionLost c) = subs c" "sub_obj (triggerConnectionLost c) = sub_obj c"
  "next_sub (triggerConnectionLost c) = next_sub c" "outgoing (triggerConnectionLost c) = outgoing c"
  "pendingSubs (triggerConnectionLost c) = pendingSubs c"
  "ack_obj (triggerConnectionLost c) = ack_obj c" "next_ack (triggerConnectionLost c) = next_ack c"
  "publishErrors (triggerConnectionLost c) = publishErrors c"
  "client_conn (triggerConnectionLost c) = client_conn c" "c_done (triggerConnectionLost c) = c_done c"
  by (simp_all add: triggerConnectionLost_def reconnect_def Let_def)

lemma deliver_loop_frame [simp]:
  "subs (deliver_loop m ps c) = subs c \<and> next_sub (deliver_loop m ps c) = next_sub c \<and>
   pendingSubs (deliver_loop m ps c) = pendingSubs c \<and> ack_obj (deliver_loop m ps c) = ack_obj c \<and>
   next_ack (deliver_loop m ps c) = next_ack c \<and> outgoing (deliver_loop m ps c) = outgoing c \<and>
   client_conn (deliver_loop m ps c) = client_conn c \<and> c_done (deliver_loop m ps c) = c_done c"
  by (induction ps arbitrary: c) (simp_all add: on_sub_def)

lemma deliver_loop_objs:
  "distinct ps \<Longrightarrow> sub_obj (deliver_loop m ps c) p =
     (if p \<in> set ps \<and> active (sub_obj c p) \<and> matchSubject (sub_subject (sub_obj c p)) (Subject m)
      then fst (TryEnqueue \<lparr>MsgSubject = Subject m, MsgData = Payload m\<rparr> (sub_obj c p))
      else sub_obj c p)"
  by (induction ps arbitrary: c) (auto simp: on_sub_def)

lemma TryEnqueue_frame [simp]:
  "active (fst (TryEnqueue m s)) = active s" "sub_subject (fst (TryEnqueue m s)) = sub_subject s"
  "sub_closeOnce (fst (TryEnqueue m s)) = sub_closeOnce s"
  "chan_closed (msgChan (fst (TryEnqueue m s))) = chan_closed (msgChan s)"
  "processing (fst (TryEnqueue m s)) = processing s"
  by (auto simp: TryEnqueue_def try_send_def split: send_result.splits)

lemma confirm_frame [simp]:
  "subs (confirm_ack now t a c) = subs c" "sub_obj (confirm_ack now t a c) = sub_obj c"
  "next_sub (confirm_ack now t a c) = next_sub c" "next_ack (confirm_ack now t a c) = next_ack c"
  "outgoing (confirm_ack now t a c) = outgoing c" "client_conn (confirm_ack now t a c) = client_conn c"
  "c_done (confirm_ack now t a c) = c_done c"
  "map_of (pendingSubs (confirm_ack now t a c)) = (map_of (pendingSubs c))(t := None)"
  "acked (ack_obj (confirm_ack now t a c) b) = (b = a \<or> acked (ack_obj c b))"
  "ack_subject (ack_obj (confirm_ack now t a c) b) = ack_subject (ack_obj c b)"
  "keys (pendingSubs (confirm_ack now t a c)) = keys (AList.delete t (pendingSubs c))"
  by (auto simp: confirm_ack_def Let_def)

text \<open>The pending acknowledgement that an OK text confirms.\<close>

definition confirmed :: "client \<Rightarrow> string \<Rightarrow> string option" where
  "confirmed c reply =
     (if reply \<in> dom (map_of (pendingSubs c)) then Some reply
      else if Contains reply ''subscribed to '' \<and>
              TrimPrefix reply ''subscribed to '' \<in> dom (map_of (pendingSubs c))
      then Some (TrimPrefix reply ''subscribed to '')
      else None)"

lemma handle_ok_eq:
  "Command m = CmdOk \<Longrightarrow> handleMessage now m c =
     (case confirmed c (Subject m) of
        None \<Rightarrow> c
      | Some t \<Rightarrow> confirm_ack now t (the (map_of (pendingSubs c) t)) c)"
  by (auto simp: handleMessage_def confirmed_def cmd_defs Let_def split: option.splits)

lemma handle_frame:
  "subs (handleMessage now m c) = subs c" "next_sub (handleMessage now m c) = next_sub c"
  "next_ack (handleMessage now m c) = next_ack c" "outgoing (handleMessage now m c) = outgoing c"
  "client_conn (handleMessage now m c) = client_conn c" "c_done (handleMessage now m c) = c_done c"
  "ack_subject (ack_obj (handleMessage now m c) b) = ack_subject (ack_obj c b)"
  by (auto simp: handleMessage_def Let_def split: option.splits)

lemma handle_sub_frame:
  assumes "distinct (subs c)"
  shows "active (sub_obj (handleMessage now m c) p) = active (sub_obj c p)"
    "sub_subject (sub_obj (handleMessage now m c) p) = sub_subject (sub_obj c p)"
    "chan_closed (msgChan (sub_obj (handleMessage now m c) p)) = chan_closed (msgChan (sub_obj c p))"
    "sub_closeOnce (sub_obj (handleMessage now m c) p) = sub_closeOnce (sub_obj c p)"
  using assms by (auto simp: handleMessage_def Let_def deliver_loop_objs split: option.splits)

lemma handle_pending:
  "map_of (pendingSubs (handleMessage now m c)) t = Some a \<Longrightarrow> map_of (pendingSubs c) t = Some a"
  by (auto simp: handleMessage_def Let_def split: option.splits if_splits)

lemma handle_ok [inv_intros]: "client_ok c \<Longrightarrow> client_ok (handleMessage now m c)"
proof -
  assume ok: "client_ok c"
  have "distinct (keys (pendingSubs (handleMessage now m c)))"
    using ok by (auto simp: client_ok_def handleMessage_def Let_def split: option.splits)
  then show ?thesis
    using ok by (auto simp: client_ok_def handle_frame dest!: handle_pending)
qed

text \<open>An acknowledgement gets confirmed only through its own entry, which then is gone.\<close>

lemma handle_acked:
  assumes "client_ok c" and "acked (ack_obj (handleMessage now m c) a)" and "\<not> acked (ack_obj c a)"
  shows "Command m = CmdOk \<and> confirmed c (Subject m) = Some (ack_subject (ack_obj c a)) \<and>
    map_of (pendingSubs c) (ack_subject (ack_obj c a)) = Some a \<and>
    map_of (pendingSubs (handleMessage now m c)) (ack_subject (ack_obj c a)) = None"
proof -
  have k: "Command m = CmdOk"
    using assms(2,3) by (rule_tac ccontr) (auto simp: handleMessage_def split: if_splits)
  then obtain t where t: "confirmed c (Subject m) = Some t"
    using assms(2,3) by (cases "confirmed c (Subject m)") (auto simp: handle_ok_eq)
  then obtain b where b: "map_of (pendingSubs c) t = Some b"
    by (auto simp: confirmed_def split: if_splits)
  have "a = b"
    using assms(2,3) k t b by (simp add: handle_ok_eq)
  moreover have "ack_subject (ack_obj c b) = t"
    using assms(1) b by (simp add: client_ok_def)
  ultimately show ?thesis
    using k t b by (simp add: handle_ok_eq)
qed

text \<open>The same for the messages that arrive during a wait.\<close>

definition acks :: "string \<Rightarrow> message \<Rightarrow> bool" where
  "acks t m \<longleftrightarrow> Command m = CmdOk \<and>
     (Subject m = t \<or> Contains (Subject m) ''subscribed to '' \<and> TrimPrefix (Subject m) ''subscribed to '' = t)"

lemma confirmed_acks: "Command m = CmdOk \<Longrightarrow> confirmed c (Subject m) = Some t \<Longrightarrow> acks t m"
  by (auto simp: confirmed_def acks_def split: if_splits)

lemma handle_fold_frame:
  "subs (fold (handleMessage now) ms c) = subs c \<and> next_sub (fold (handleMessage now) ms c) = next_sub c \<and>
   next_ack (fold (handleMessage now) ms c) = next_ack c \<and>
   outgoing (fold (handleMessage now) ms c) = outgoing c \<and>
   client_conn (fold (handleMessage now) ms c) = client_conn c \<and>
   c_done (fold (handleMessage now) ms c) = c_done c \<and>
   ack_subject (ack_obj (fold (handleMessage now) ms c) b) = ack_subject (ack_obj c b)"
  by (induction ms arbitrary: c) (simp_all add: handle_frame)

lemma handle_fold_ok:
  assumes "client_ok c"
  shows "client_ok (fold (handleMessage now) ms c) \<and>
    active (sub_obj (fold (handleMessage now) ms c) p) = active (sub_obj c p) \<and>
    sub_subject (sub_obj (fold (handleMessage now) ms c) p) = sub_subject (sub_obj c p) \<and>
    chan_closed (msgChan (sub_obj (fold (handleMessage now) ms c) p)) = chan_closed (msgChan (sub_obj c p))"
  using assms
proof (induction ms arbitrary: c)
  case Nil
  then show ?case by simp
next
  case (Cons m ms)
  have d: "distinct (subs c)" using Cons.prems by (simp add: client_ok_def)
  show ?case
    using Cons.IH [OF handle_ok [OF Cons.prems, of now m]] handle_sub_frame [OF d, of now m p] by simp
qed

lemma handle_fold_acked:
  assumes "client_ok c" and "\<not> acked (ack_obj c a)" and "acked (ack_obj (fold (handleMessage now) ms c) a)"
  shows "\<exists>m \<in> set ms. acks (ack_subject (ack_obj c a)) m"
  using assms
proof (induction ms arbitrary: c)
  case Nil
  then show ?case by simp
next
  case (Cons m ms)
  show ?case
  proof (cases "acked (ack_obj (handleMessage now m c) a)")
    case True
    then show ?thesis
      using handle_acked [OF Cons.prems(1) True Cons.prems(2)] confirmed_acks by (metis list.set_intros(1))
  next
    case False
    then show ?thesis
      using Cons.IH [OF handle_ok [OF Cons.prems(1)] False] Cons.prems(3)
      by (auto simp: handle_frame)
  qed
qed

section \<open>One attempt to subscribe\<close>

lemma drop_pending_frame [simp]:
  "subs (drop_pending t c) = subs c" "sub_obj (drop_pending t c) = sub_obj c"
  "next_sub (drop_pending t c) = next_sub c" "next_ack (drop_pending t c) = next_ack c"
  "client_conn (drop_pending t c) = client_conn c" "c_done (drop_pending t c) = c_done c"
  "outgoing (drop_pending t c) = outgoing c"
  "ack_subject (ack_obj (drop_pending t c) b) = ack_subject (ack_obj c b)"
  "map_of (pendingSubs (drop_pending t c)) = (map_of (pendingSubs c))(t := None)"
  "distinct (keys (pendingSubs c)) \<Longrightarrow> distinct (keys (pendingSubs (drop_pending t c)))"
  by (auto simp: drop_pending_def Let_def split: option.splits)

text \<open>The client after an attempt has registered its subscription and its acknowledgement.\<close>

definition registered :: "nat \<Rightarrow> attempt_env \<Rightarrow> string \<Rightarrow> nat \<Rightarrow> client \<Rightarrow> client" where
  "registered attempt env t cap c =
     (let c1 = (if attempt > 0 then drop_pending t c else c)
      in add_pending t (env_now env + ackTimeout)
           (c1\<lparr>sub_obj := (sub_obj c1)(next_sub c1 := new_subscription t cap), next_sub := next_sub c1 + 1,
              subs := subs c1 @ [next_sub c1]\<rparr>))"

lemma registered_fields:
  "subs (registered n env t cap c) = subs c @ [next_sub c]"
  "next_sub (registered n env t cap c) = next_sub c + 1"
  "sub_obj (registered n env t cap c) = (sub_obj c)(next_sub c := new_subscription t cap)"
  "next_ack (registered n env t cap c) = next_ack c + 1"
  "client_conn (registered n env t cap c) = client_conn c"
  "c_done (registered n env t cap c) = c_done c"
  "outgoing (registered n env t cap c) = outgoing c"
  "map_of (pendingSubs (registered n env t cap c)) t = Some (next_ack c)"
  "acked (ack_obj (registered n env t cap c) (next_ack c)) = False"
  "ack_subject (ack_obj (registered n env t cap c) (next_ack c)) = t"
  by (simp_all add: registered_def add_pending_def Let_def)

lemma registered_ok: "client_ok c \<Longrightarrow> client_ok (registered n env t cap c)"
  by (auto simp: client_ok_def registered_def add_pending_def Let_def less_Suc_eq split: if_splits)

lemma subscribe_attempt_eq:
  "subscribe_attempt n env t cap c =
     (case env_ctxErr env of
        Some err \<Rightarrow> Return c (Inl (ContextError err))
      | None \<Rightarrow>
        if \<not> client_conn c then Continue (registered n env t cap c) ConnectionNotAvailable
        else case env_writeErr env of
            Some err \<Rightarrow> Continue (abandon t (next_sub c) (registered n env t cap c)) (FailedToSendSub err)
          | None \<Rightarrow>
            let c5 = (registered n env t cap c)
                  \<lparr>outgoing := outgoing c @ [Encode (NewMessageCmd CmdSub t [])]\<rparr>;
                c6 = fold (handleMessage (env_now env)) (env_incoming env) c5
            in case wait_ack env (next_ack c) c6 of
                GotAck \<Rightarrow> Return c6 (Inr (next_sub c))
              | GotTimeout \<Rightarrow> Continue (abandon t (next_sub c) c6) AckTimeoutError
              | GotContext err \<Rightarrow> Return (abandon t (next_sub c) c6) (Inl (ContextError err))
              | GotDone \<Rightarrow> Return c6 (Inl ConnectionClosed))"
proof -
  define c1 where "c1 = (if 0 < n then drop_pending t c else c)"
  have f: "next_sub c1 = next_sub c" "next_ack c1 = next_ack c" "client_conn c1 = client_conn c"
    "outgoing c1 = outgoing c"
    by (simp_all add: c1_def)
  show ?thesis
    unfolding subscribe_attempt_def registered_def c1_def [symmetric] Let_def add_pending_def
    by (cases "env_ctxErr env"; cases "env_writeErr env"; cases "client_conn c")
      (simp_all add: f split: wait_result.splits)
qed

text \<open>The subscriptions that existed before are as active and as open as before.\<close>

definition same_subs :: "client \<Rightarrow> client \<Rightarrow> bool" where
  "same_subs c c' \<longleftrightarrow> (\<forall>p < next_sub c. active (sub_obj c' p) = active (sub_obj c p) \<and>
     sub_subject (sub_obj c' p) = sub_subject (sub_obj c p) \<and>
     chan_closed (msgChan (sub_obj c' p)) = chan_closed (msgChan (sub_obj c p)))"

text \<open>A client in which the new subscriptions were abandoned looks like the one before.\<close>

definition cleaned_up :: "string \<Rightarrow> client \<Rightarrow> client \<Rightarrow> bool" where
  "cleaned_up t c c' \<longleftrightarrow> client_ok c' \<and> client_conn c' = client_conn c \<and> c_done c' = c_done c \<and>
     subs c' = subs c \<and> next_sub c \<le> next_sub c' \<and>
     (\<forall>p. next_sub c \<le> p \<and> p < next_sub c' \<longrightarrow>
        \<not> active (sub_obj c' p) \<and> chan_closed (msgChan (sub_obj c' p))) \<and>
     same_subs c c' \<and>
     map_of (pendingSubs c') t \<in> {None, map_of (pendingSubs c) t}"

lemma cleaned_up_refl: "client_ok c \<Longrightarrow> cleaned_up t c c"
  by (auto simp: cleaned_up_def same_subs_def)

lemma cleaned_up_abandon:
  assumes "client_ok c'" and "subs c' = subs c @ [next_sub c]" and "next_sub c' = next_sub c + 1"
    and "client_conn c' = client_conn c" and "c_done c' = c_done c" and "client_ok c"
    and "same_subs c c'"
  shows "cleaned_up t c (abandon t (next_sub c) c')"
proof -
  have n: "next_sub c \<notin> set (subs c)"
    using assms(6) by (auto simp: client_ok_def)
  have k: "distinct (keys (AList.delete t (pendingSubs c')))"
    using assms(1) by (simp add: client_ok_def)
  have r: "remove1 (next_sub c) (subs c @ [next_sub c]) = subs c"
    using n by (simp add: remove1_append)
  show ?thesis
    using assms n k r
    by (auto simp: cleaned_up_def abandon_def forget_pending_def removeSubscription_def on_sub_def
        close_msgChan_def client_ok_def same_subs_def Let_def split: if_splits)
qed

text \<open>What an attempt leaves when the connection is there.\<close>

definition subscribed :: "(message \<Rightarrow> bool) \<Rightarrow> string \<Rightarrow> client \<Rightarrow> client \<Rightarrow> ptr \<Rightarrow> bool" where
  "subscribed seen t c c' p \<longleftrightarrow> client_ok c' \<and> next_sub c \<le> p \<and> subs c' = subs c @ [p] \<and>
     same_subs c c' \<and>
     active (sub_obj c' p) \<and> sub_subject (sub_obj c' p) = t \<and>
     Encode (NewMessageCmd CmdSub t []) \<in> set (outgoing c') \<and> (\<exists>m. seen m \<and> acks t m)"

lemma attempt_outcome:
  assumes ok: "client_ok c" and cn: "client_conn c"
  shows "case subscribe_attempt n env t cap c of
      Continue c' err \<Rightarrow> cleaned_up t c c'
    | Return c' (Inr p) \<Rightarrow> subscribed (\<lambda>m. m \<in> set (env_incoming env)) t c c' p
    | Return c' (Inl err) \<Rightarrow>
        if err = ConnectionClosed then env_wait env = DoneFirst \<and> c_done c else cleaned_up t c c'"
proof -
  let ?r = "registered n env t cap c"
  let ?c5 = "?r\<lparr>outgoing := outgoing c @ [Encode (NewMessageCmd CmdSub t [])]\<rparr>"
  let ?c6 = "fold (handleMessage (env_now env)) (env_incoming env) ?c5"
  have ok5: "client_ok ?c5" using registered_ok [OF ok, of n env t cap] by (simp add: client_ok_def)
  note f6 = handle_fold_frame [of "env_now env" "env_incoming env" ?c5]
  note k6 = handle_fold_ok [OF ok5, of "env_now env" "env_incoming env"]
  have s: "same_subs c ?r" "same_subs c ?c6"
    using k6 by (simp_all add: same_subs_def registered_fields)
  have w: "cleaned_up t c (abandon t (next_sub c) ?r)"
    by (rule cleaned_up_abandon) (simp_all add: registered_ok ok registered_fields s)
  have a: "cleaned_up t c (abandon t (next_sub c) ?c6)"
    by (rule cleaned_up_abandon) (simp_all add: k6 f6 ok registered_fields s)
  have g: "subscribed (\<lambda>m. m \<in> set (env_incoming env)) t c ?c6 (next_sub c)"
    if "acked (ack_obj ?c6 (next_ack c))"
  proof -
    have "\<exists>m \<in> set (env_incoming env). acks (ack_subject (ack_obj ?c5 (next_ack c))) m"
      by (rule handle_fold_acked [OF ok5 _ that]) (simp add: registered_fields)
    then show ?thesis
      using k6 f6 s(2) by (auto simp: subscribed_def registered_fields new_subscription_def
          startProcessing_def)
  qed
  show ?thesis
    using w a g ok cn f6
    by (auto simp: subscribe_attempt_eq wait_ack_def Let_def cleaned_up_refl registered_fields
        split: option.splits wait_choice.splits)
qed

lemma same_subs_trans: "same_subs c c1 \<Longrightarrow> same_subs c1 c2 \<Longrightarrow> next_sub c \<le> next_sub c1 \<Longrightarrow> same_subs c c2"
  by (simp add: same_subs_def)

lemma cleaned_up_trans:
  assumes a: "cleaned_up t c c1" and b: "cleaned_up t c1 c2"
  shows "cleaned_up t c c2"
proof -
  have "\<not> active (sub_obj c2 p) \<and> chan_closed (msgChan (sub_obj c2 p))"
    if "next_sub c \<le> p" "p < next_sub c2" for p
    using a b that by (cases "p < next_sub c1") (simp_all add: cleaned_up_def same_subs_def)
  moreover have "same_subs c c2"
    using a b same_subs_trans by (auto simp: cleaned_up_def)
  ultimately show ?thesis
    using a b by (auto simp: cleaned_up_def)
qed

lemma subscribed_after:
  assumes "cleaned_up t c c1" and "subscribed seen t c1 c2 p"
  shows "subscribed seen t c c2 p"
  using assms same_subs_trans by (auto simp: cleaned_up_def subscribed_def)

lemma subscribe_loop_outcome:
  assumes "client_ok c" and "client_conn c" and "subscribe_loop n envs t cap e c = (c', res)"
  shows "case res of
      Inr p \<Rightarrow> subscribed (\<lambda>m. \<exists>k. k < maxRetries \<and> m \<in> set (env_incoming (envs k))) t c c' p
    | Inl err \<Rightarrow> if err = ConnectionClosed then c_done c else cleaned_up t c c'"
  using assms
proof (induction n envs t cap e c arbitrary: rule: subscribe_loop.induct)
  case (1 n envs t cap e c)
  note o = attempt_outcome [OF "1.prems"(1,2), where n = n and env = "envs n" and t = t and cap = cap]
  show ?case
  proof (cases "n < maxRetries")
    case False
    then show ?thesis
      using "1.prems" by (auto simp: subscribe_loop.simps [of n] cleaned_up_refl)
  next
    case True
    show ?thesis
    proof (cases "subscribe_attempt n (envs n) t cap c")
      case (Continue c1 err)
      then have cl: "cleaned_up t c c1" using o by simp
      then have k: "client_ok c1" "client_conn c1" "c_done c1 = c_done c"
        using "1.prems"(2) by (simp_all add: cleaned_up_def)
      have l: "subscribe_loop (n + 1) envs t cap (Some err) c1 = (c', res)"
        using "1.prems"(3) True Continue by (simp add: subscribe_loop.simps [of n])
      show ?thesis
        using "1.IH" [OF True Continue k(1,2) l] cl k(3)
        by (auto split: sum.splits intro: cleaned_up_trans subscribed_after)
    next
      case (Return c1 r)
      then have "c' = c1" "res = r"
        using "1.prems"(3) True by (simp_all add: subscribe_loop.simps [of n])
      then show ?thesis
        using o Return True by (auto simp: subscribed_def split: sum.splits if_splits)
    qed
  qed
qed

section \<open>Closing\<close>

lemma deactivate_frame [simp]:
  "pendingSubs (deactivate_all ps c) = pendingSubs c \<and> ack_obj (deactivate_all ps c) = ack_obj c \<and>
   client_conn (deactivate_all ps c) = client_conn c \<and> c_done (deactivate_all ps c) = c_done c \<and>
   ctx_done (deactivate_all ps c) = ctx_done c \<and> c_closeOnce (deactivate_all ps c) = c_closeOnce c"
  by (induction ps arbitrary: c) (simp_all add: on_sub_def)

lemma deactivate_objs:
  "sub_obj (deactivate_all ps c) p =
     (if p \<in> set ps then (sub_obj c p)\<lparr>active := False\<rparr> else sub_obj c p)"
  by (induction ps arbitrary: c) (auto simp: on_sub_def)

lemma clear_pending_frame:
  "subs (clear_pending es c) = subs c \<and> sub_obj (clear_pending es c) = sub_obj c \<and>
   client_conn (clear_pending es c) = client_conn c \<and> c_done (clear_pending es c) = c_done c \<and>
   ctx_done (clear_pending es c) = ctx_done c \<and> c_closeOnce (clear_pending es c) = c_closeOnce c"
  by (induction es c rule: clear_pending.induct)
    (simp_all add: drop_pending_def Let_def split: option.splits)

lemma drop_pending_acked:
  "acked (ack_obj (drop_pending t c) a) = (acked (ack_obj c a) \<or> map_of (pendingSubs c) t = Some a)"
  by (auto simp: drop_pending_def Let_def split: option.splits)

lemma clear_pending_spec:
  "map_of (pendingSubs (clear_pending es c)) t =
     (if t \<in> set (keys es) then None else map_of (pendingSubs c) t) \<and>
   (acked (ack_obj c a) \<or> t \<in> set (keys es) \<and> map_of (pendingSubs c) t = Some a \<longrightarrow>
      acked (ack_obj (clear_pending es c) a))"
  by (induction es c rule: clear_pending.induct) (auto simp: drop_pending_acked)

lemma clear_all_pending:
  "pendingSubs (clear_pending (pendingSubs c) c) = [] \<and>
   (map_of (pendingSubs c) t = Some a \<longrightarrow> acked (ack_obj (clear_pending (pendingSubs c) c) a))"
proof -
  have "map_of (pendingSubs (clear_pending (pendingSubs c) c)) = Map.empty"
    using clear_pending_spec [of "pendingSubs c" c]
    by (auto simp: fun_eq_iff) (metis map_of_eq_None_iff list.set_map)
  moreover have "map_of (pendingSubs c) t = Some a \<Longrightarrow> t \<in> set (keys (pendingSubs c))"
    by (force dest: map_of_SomeD)
  ultimately show ?thesis
    using clear_pending_spec [of "pendingSubs c" c t a] by simp
qed

section \<open>Properties\<close>

definition example_client :: client where
  "example_client = projr (ConnectWithContext None (Inr :: bytes \<Rightarrow> string + bytes) (Inr ()) 0
     (\<lambda>p. new_subscription ''x'' 1)
     (\<lambda>a. \<lparr>ack_subject = [], acked = False, ackedAt = None, ack_timeout = 0\<rparr>) ''srv'' (replicate 32 0))"

lemma example_client_fields:
  "client_ok example_client" "client_conn example_client" "subs example_client = []"
  "pendingSubs example_client = []" "next_sub example_client = 0" "next_ack example_client = 0"
  "outgoing example_client = []" "c_done example_client = False" "c_closeOnce example_client = False"
  "sub_obj example_client p = new_subscription ''x'' 1" "publishErrors example_client = 0"
  by (simp_all add: example_client_def ConnectWithContext_def newAES256BlockCrypt_def client_ok_def)

text \<open>A received MSG reaches exactly the subscriptions it should: every listed, active
  subscription whose pattern matches the subject gets the message appended to its queue if there
  is room, and otherwise its drop counter goes up by one; every other subscription is unchanged.\<close>

lemma message_dispatch:
  assumes "client_ok c" and "Command m = CmdMsg" and "\<not> chan_closed (msgChan (sub_obj c p))"
  shows "sub_obj (handleMessage now m c) p =
    (let s = sub_obj c p; msg = \<lparr>MsgSubject = Subject m, MsgData = Payload m\<rparr> in
     if p \<in> set (subs c) \<and> active s \<and> matchSubject (sub_subject s) (Subject m)
     then if length (waiting s) < chan_cap (msgChan s)
          then s\<lparr>msgChan := (msgChan s)\<lparr>chan_buf := waiting s @ [msg]\<rparr>\<rparr>
          else s\<lparr>droppedCount := wrap64 (droppedCount s + 1)\<rparr>
     else s)"
proof -
  have "distinct (subs c)" using assms(1) by (simp add: client_ok_def)
  then show ?thesis
    using assms(2,3)
    by (simp add: handleMessage_def deliver_loop_objs TryEnqueue_def try_send_def Let_def)
qed

abbreviation one_sub_client :: client where
  "one_sub_client \<equiv> example_client\<lparr>subs := [0], next_sub := 1\<rparr>"

lemma one_sub_client_ok: "client_ok one_sub_client"
  using example_client_fields(1) by (simp add: client_ok_def example_client_fields)




definition ack_env :: attempt_env where
  "ack_env = \<lparr>env_ctxErr = None, env_writeErr = None,
     env_incoming = [NewMessageCmd CmdOk ''subscribed to x'' []], env_wait = AckFirst, env_now = 0\<rparr>"

definition timeout_env :: attempt_env where
  "timeout_env = \<lparr>env_ctxErr = None, env_writeErr = None, env_incoming = [], env_wait = TimerFirst,
     env_now = 0\<rparr>"

lemma subscribe_ack_run:
  "snd (SubscribeWithOptionsContext (\<lambda>k. ack_env) ''x'' 0 example_client) = Inr 0"
proof -
  have t: "Contains ''subscribed to x'' ''subscribed to ''"
    "TrimPrefix ''subscribed to x'' ''subscribed to '' = ''x''"
    by code_simp+
  have "snd (subscribe_loop 0 (\<lambda>k. ack_env) ''x'' 100 None example_client) = Inr 0"
    using t
    by (simp add: subscribe_loop.simps [of 0] maxRetries_def subscribe_attempt_eq ack_env_def Let_def
        registered_def add_pending_def handleMessage_def NewMessageCmd_def cmd_defs wait_ack_def
        confirm_ack_def example_client_fields)
  then show ?thesis
    by (simp add: SubscribeWithOptionsContext_def max_lens)
qed



lemma subscribe_timeout_run:
  "snd (SubscribeWithOptionsContext (\<lambda>k. timeout_env) ''x'' 1 example_client) =
     Inl (SubscriptionFailed 3 (Some AckTimeoutError))"
proof -
  have a: "\<exists>c'. subscribe_attempt n timeout_env ''x'' 1 c = Continue c' AckTimeoutError \<and> client_conn c'"
    if "client_conn c" for n c
    using that by (simp add: subscribe_attempt_eq timeout_env_def wait_ack_def Let_def abandon_def
        forget_pending_def removeSubscription_def on_sub_def registered_fields)
  obtain c1 where 1: "subscribe_attempt 0 timeout_env ''x'' 1 example_client = Continue c1 AckTimeoutError"
    "client_conn c1" using a example_client_fields(2) by blast
  obtain c2 where 2: "subscribe_attempt 1 timeout_env ''x'' 1 c1 = Continue c2 AckTimeoutError"
    "client_conn c2" using a 1 by blast
  obtain c3 where 3: "subscribe_attempt 2 timeout_env ''x'' 1 c2 = Continue c3 AckTimeoutError"
    using a 2 by blast
  have "subscribe_loop 0 (\<lambda>k. timeout_env) ''x'' 1 None example_client =
      (c3, Inl (SubscriptionFailed 3 (Some AckTimeoutError)))"
    using 1 2 3
    by (simp add: subscribe_loop.simps [of 0] subscribe_loop.simps [of "Suc 0"]
        subscribe_loop.simps [of "Suc (Suc 0)"] subscribe_loop.simps [of "Suc (Suc (Suc 0))"]
        maxRetries_def numeral_2_eq_2 numeral_3_eq_3)
  then show ?thesis
    by (simp add: SubscribeWithOptionsContext_def max_lens)
qed


text \<open>When \<open>done\<close> is closed during the wait (by Close, or by a reconnection), the subscribe call
  reports an error but leaves its subscription behind: it stays in the list, active, and its
  acknowledgement stays pending.\<close>

lemma subscribe_done_leaves_subscription:
  assumes "client_ok c" and "client_conn c" and "c_done c" and "length subject \<le> MaxSubjectLen"
    and "envs 0 = \<lparr>env_ctxErr = None, env_writeErr = None, env_incoming = [], env_wait = DoneFirst,
           env_now = now\<rparr>"
  shows "\<exists>c'. SubscribeWithOptionsContext envs subject cap c = (c', Inl ConnectionClosed) \<and>
    subs c' = subs c @ [next_sub c] \<and> active (sub_obj c' (next_sub c)) \<and>
    map_of (pendingSubs c') subject = Some (next_ack c)"
proof -
  have "\<exists>c'. subscribe_attempt 0 (envs 0) subject n c = Return c' (Inl ConnectionClosed) \<and>
      subs c' = subs c @ [next_sub c] \<and> active (sub_obj c' (next_sub c)) \<and>
      map_of (pendingSubs c') subject = Some (next_ack c)" for n
    using assms(2,3)
    by (simp add: assms(5) subscribe_attempt_eq wait_ack_def Let_def registered_fields
        new_subscription_def startProcessing_def)
  then show ?thesis
    using assms(4)
    by (auto simp: SubscribeWithOptionsContext_def subscribe_loop.simps [of 0] maxRetries_def Let_def
        split: attempt_result.splits) (metis attempt_result.inject(2) attempt_result.distinct(1))+
qed

text \<open>Unsubscribing drains: on an active subscription with its goroutine running, every message
  accepted before is passed to the callback, in order, before the call returns; then the goroutine
  has ended and the subscription is inactive. If the write succeeds the UNSUB packet is the one
  packet written and the subscription is no longer listed; if it fails, the error is returned and
  the subscription stays listed. No path panics.\<close>

lemma unsubscribe_drains:
  assumes "active (sub_obj c p)" and "processing (sub_obj c p)"
    and "\<not> sub_closeOnce (sub_obj c p)" and "\<not> chan_closed (msgChan (sub_obj c p))"
    and "client_conn c" and "distinct (subs c)"
  shows "\<exists>c' res. Subscription_Unsubscribe writeErr p c = Some (c', res) \<and>
    handled (sub_obj c' p) = handled (sub_obj c p) @ waiting (sub_obj c p) \<and>
    waiting (sub_obj c' p) = [] \<and> \<not> processing (sub_obj c' p) \<and> \<not> active (sub_obj c' p) \<and>
    (case writeErr of
       None \<Rightarrow> res = None \<and> p \<notin> set (subs c') \<and>
         outgoing c' = outgoing c @ [Encode (NewMessageCmd CmdUnsub (sub_subject (sub_obj c p)) [])]
     | Some err \<Rightarrow> res = Some (WriteError err) \<and> subs c' = subs c \<and> outgoing c' = outgoing c)"
proof -
  let ?s = "close_msgChan ((sub_obj c p)\<lparr>sub_closeOnce := True, active := False\<rparr>)"
  have d: "handled (drain ?s) = handled (sub_obj c p) @ waiting (sub_obj c p)"
    "waiting (drain ?s) = []" "\<not> processing (drain ?s)" "\<not> active (drain ?s)"
    using drain_closed [of ?s] assms(2) by (simp_all add: close_msgChan_def)
  show ?thesis
    using assms d
    by (cases writeErr)
      (simp_all add: Subscription_Unsubscribe_def on_sub_def removeSubscription_def Let_def)
qed

definition busy_client :: client where
  "busy_client = one_sub_client\<lparr>sub_obj := (\<lambda>p. (new_subscription ''x'' 1)
     \<lparr>msgChan := \<lparr>chan_buf = [\<lparr>MsgSubject = ''x'', MsgData = [7]\<rparr>], chan_cap = 1, chan_closed = False\<rparr>\<rparr>)\<rparr>"

text \<open>A failed UNSUB cannot be retried: after \<open>Unsubscribe\<close> returned a write error, calling it
  again writes nothing, reports success, and leaves the subscription in the client's list, so the
  server keeps it.\<close>

lemma failed_unsubscribe_is_final:
  assumes "active (sub_obj c p)" and "\<not> sub_closeOnce (sub_obj c p)" and "processing (sub_obj c p)"
    and "client_conn c" and "p \<in> set (subs c)"
    and "Subscription_Unsubscribe (Some err) p c = Some (c', res)"
  shows "res = Some (WriteError err) \<and> p \<in> set (subs c') \<and> outgoing c' = outgoing c \<and>
    Subscription_Unsubscribe writeErr p c' = Some (c', None)"
proof -
  let ?s = "close_msgChan ((sub_obj c p)\<lparr>sub_closeOnce := True, active := False\<rparr>)"
  have "sub_closeOnce (drain ?s)"
    using drain_closed [of ?s] assms(3) by (simp add: close_msgChan_def)
  moreover have "Some (c\<lparr>sub_obj := (sub_obj c)(p := drain ?s)\<rparr>, Some (WriteError err)) = Some (c', res)"
    using assms unfolding Subscription_Unsubscribe_def on_sub_def Let_def
    by (simp split: if_splits)
  ultimately have "res = Some (WriteError err)" "subs c' = subs c" "outgoing c' = outgoing c"
    "sub_closeOnce (sub_obj c' p)"
    by auto
  then show ?thesis
    using assms(5) by (simp add: Subscription_Unsubscribe_def)
qed

text \<open>Closing a client for the first time ends everything it waits for: the context and \<open>done\<close> are
  closed, every pending acknowledgement is released, no subscription is listed or active any more,
  and the connection is closed; a second Close does nothing.\<close>

lemma close_releases:
  fixes closeErr :: "string option"
  assumes "\<not> c_closeOnce c" and "client_conn c"
  defines "c' \<equiv> fst (client_Close closeErr c)"
  shows "ctx_done c' \<and> c_done c' \<and> client_conn_closed c' \<and> subs c' = [] \<and> pendingSubs c' = [] \<and>
    (\<forall>t a. map_of (pendingSubs c) t = Some a \<longrightarrow> acked (ack_obj c' a)) \<and>
    (\<forall>p \<in> set (subs c). \<not> active (sub_obj c' p)) \<and>
    client_Close e2 c' = (c', None)"
proof -
  let ?c1 = "c\<lparr>c_closeOnce := True, ctx_done := True, c_done := True, receiveLoopDone := True,
      heartbeatDone := True\<rparr>"
  let ?c2 = "(deactivate_all (subs c) ?c1)\<lparr>subs := []\<rparr>"
  let ?c3 = "clear_pending (pendingSubs ?c2) ?c2"
  have c': "c' = ?c3\<lparr>client_conn_closed := True\<rparr>"
    using assms(1,2) by (simp add: c'_def client_Close_def Let_def clear_pending_frame)
  show ?thesis
    unfolding c'
    using clear_all_pending [of ?c2] clear_pending_frame [of "pendingSubs ?c2" ?c2]
    by (simp add: deactivate_objs client_Close_def)
qed

text \<open>Close does not end the processing goroutines: a listed subscription keeps its channel open,
  so a goroutine whose queue is empty waits forever, and \<open>Unsubscribe\<close> after Close no longer closes
  the channel either.\<close>

lemma close_leaves_processors:
  fixes closeErr :: "string option"
  assumes "\<not> c_closeOnce c" and "client_conn c" and "p \<in> set (subs c)"
    and "processing (sub_obj c p)" and "\<not> chan_closed (msgChan (sub_obj c p))"
    and "waiting (sub_obj c p) = []"
  defines "c' \<equiv> fst (client_Close closeErr c)"
  shows "processing (sub_obj c' p) \<and> process_one (sub_obj c' p) = None \<and>
    (\<exists>c2. Subscription_Unsubscribe writeErr p c' = Some (c2, None) \<and>
       processing (sub_obj c2 p) \<and> process_one (sub_obj c2 p) = None)"
proof -
  let ?c1 = "c\<lparr>c_closeOnce := True, ctx_done := True, c_done := True, receiveLoopDone := True,
      heartbeatDone := True\<rparr>"
  let ?c2 = "(deactivate_all (subs c) ?c1)\<lparr>subs := []\<rparr>"
  have "sub_obj c' = sub_obj ?c2"
    using assms(1,2) by (simp add: c'_def client_Close_def Let_def clear_pending_frame)
  then have s: "sub_obj c' p = (sub_obj c p)\<lparr>active := False\<rparr>"
    using assms(3) by (simp add: deactivate_objs)
  have n: "process_one ((sub_obj c p)\<lparr>active := False, sub_closeOnce := b\<rparr>) = None"
    "process_one ((sub_obj c p)\<lparr>active := False\<rparr>) = None" for b
    using assms(5,6) by (simp_all add: process_one_def try_recv_def)
  show ?thesis
    using assms(4) n
    by (auto simp: s Subscription_Unsubscribe_def on_sub_def Let_def)
qed

end
