(* ===== verification/Reconnect.thy ===== *)
theory Reconnect
  imports Client
begin

text \<open>
  The automatic reconnection of the client, the second half of \<open>src/client/client.go\<close>: its
  settings, the delay between attempts, \<open>doReconnect\<close>, the restoring of subscriptions, and the
  transition system of the reconnect goroutine running beside the calls of the application and
  the client's own loops.
\<close>

section \<open>Settings and delay\<close>

definition EnableAutoReconnect :: "duration \<Rightarrow> client \<Rightarrow> client" where
  "EnableAutoReconnect interval c =
     (let c1 = c\<lparr>autoReconnect := True\<rparr>
      in if interval > 0 then c1\<lparr>reconnectInterval := interval\<rparr> else c1)"

definition SetMaxReconnectInterval :: "duration \<Rightarrow> client \<Rightarrow> client" where
  "SetMaxReconnectInterval mx c = c\<lparr>maxReconnectInterval := mx\<rparr>"

definition DisableAutoReconnect :: "client \<Rightarrow> client" where
  "DisableAutoReconnect c = c\<lparr>autoReconnect := False\<rparr>"

definition SetConnectionLostCallback :: "bool \<Rightarrow> client \<Rightarrow> client" where
  "SetConnectionLostCallback isSet c = c\<lparr>onConnectionLost := isSet\<rparr>"

definition min_int :: "int \<Rightarrow> int \<Rightarrow> int" where
  "min_int a b = (if a < b then a else b)"

text \<open>
  The delay before an attempt, without the random factor between 0.5 and 1.5 that the code applies
  at the end in floating point. The multiplication is on 64-bit durations.
\<close>

definition reconnect_delay :: "duration \<Rightarrow> duration \<Rightarrow> nat \<Rightarrow> duration" where
  "reconnect_delay base maxBackoff attempt =
     (let delay = (if attempt > 0 then wrap64 (base * 2 ^ nat (min_int (int attempt) 10)) else base)
      in if maxBackoff > 0 \<and> delay > maxBackoff then maxBackoff else delay)"

section \<open>Reconnecting and restoring\<close>

text \<open>
  \<open>doReconnect\<close>; the arguments are the cipher constructor and the result of
  \<open>kcp.DialWithOptions\<close>. The old loops have ended when \<open>wg.Wait()\<close> returns. When dialling fails the
  client keeps its old, closed connection and has a new open \<open>done\<close>.
\<close>

definition doReconnect :: "(bytes \<Rightarrow> string + 'block) \<Rightarrow> string + unit \<Rightarrow> client \<Rightarrow>
    client \<times> client_error option" where
  "doReconnect NewAESBlockCrypt dialed c =
     (let c1 = c\<lparr>c_done := safeClose (c_done c), client_conn_closed := (client_conn c \<or> client_conn_closed c)\<rparr>;
          c2 = c1\<lparr>c_done := False, receiveLoopDone := False, heartbeatDone := False\<rparr>
      in case newAES256BlockCrypt NewAESBlockCrypt (aes256Key c) of
           Inl err \<Rightarrow> (c2, Some (KeyError err))
         | Inr block \<Rightarrow>
           (case dialed of
              Inl err \<Rightarrow> (c2, Some (FailedToDial err))
            | Inr _ \<Rightarrow> (c2\<lparr>client_conn := True, client_conn_closed := False\<rparr>, None)))"

definition sendSubWithAck :: "attempt_env \<Rightarrow> string \<Rightarrow> client \<Rightarrow> client \<times> client_error option" where
  "sendSubWithAck env subject c =
     (if length subject > MaxSubjectLen then (c, Some (ClientSubjectTooLong (length subject)))
      else
        let c1 = drop_pending subject c;
            a = next_ack c1;
            c2 = add_pending subject (env_now env + ackTimeout) c1;
            encoded = Encode (NewMessageCmd CmdSub subject [])
        in if \<not> client_conn c2 then (forget_pending subject c2, Some ConnectionNotAvailable)
           else case env_writeErr env of
               Some err \<Rightarrow> (forget_pending subject c2, Some (FailedToSendSub err))
             | None \<Rightarrow>
               let c3 = c2\<lparr>outgoing := outgoing c2 @ [encoded]\<rparr>;
                   c4 = fold (handleMessage (env_now env)) (env_incoming env) c3
               in case wait_ack env a c4 of
                   GotAck \<Rightarrow> (c4, None)
                 | GotTimeout \<Rightarrow> (forget_pending subject c4, Some AckTimeoutError)
                 | GotContext err \<Rightarrow> (forget_pending subject c4, Some (ContextError err))
                 | GotDone \<Rightarrow> (c4, Some ConnectionClosed))"

function restore_loop :: "nat \<Rightarrow> (nat \<Rightarrow> attempt_env) \<Rightarrow> string \<Rightarrow> client \<Rightarrow>
    client \<times> client_error option" where
  "restore_loop attempt envs subject c =
     (if attempt < maxRetries then
        case sendSubWithAck (envs attempt) subject c of
          (c1, None) \<Rightarrow> (c1, None)
        | (c1, Some err) \<Rightarrow>
            if c_done c1 then (c1, Some ConnectionClosed)
            else if ctx_done c1 then (c1, Some (ContextError ''context canceled''))
            else restore_loop (attempt + 1) envs subject c1
      else (c, Some (RestoreFailed maxRetries)))"
  by pat_completeness auto
termination
  by (relation "measure (\<lambda>(attempt, _). maxRetries - attempt)") auto

declare restore_loop.simps [simp del]

definition restoreOneSubscription :: "(nat \<Rightarrow> attempt_env) \<Rightarrow> string \<Rightarrow> client \<Rightarrow>
    client \<times> client_error option" where
  "restoreOneSubscription envs subject c = restore_loop 0 envs subject c"

text \<open>The loop over the copied list; \<open>envs\<close> gives the environment of each subscription's attempts.\<close>

fun restore_all :: "(ptr \<Rightarrow> nat \<Rightarrow> attempt_env) \<Rightarrow> ptr list \<Rightarrow> client \<Rightarrow> client" where
  "restore_all envs [] c = c"
| "restore_all envs (p # ps) c =
     restore_all envs ps
       (if \<not> active (sub_obj c p) then c
        else case restoreOneSubscription (envs p) (sub_subject (sub_obj c p)) c of
            (c1, None) \<Rightarrow> c1
          | (c1, Some err) \<Rightarrow>
              on_sub p (\<lambda>s. s\<lparr>active := False\<rparr>)
                (c1\<lparr>subscriptionErrors := wrap64 (subscriptionErrors c1 + 1)\<rparr>))"

definition restoreSubscriptions :: "(ptr \<Rightarrow> nat \<Rightarrow> attempt_env) \<Rightarrow> client \<Rightarrow> client" where
  "restoreSubscriptions envs c = restore_all envs (subs c) c"

section \<open>The reconnect goroutine beside everything else\<close>

text \<open>Where the goroutine started by \<open>reconnect\<close> stands; the argument counts the failed attempts.\<close>

datatype reconnect_pc = NoRun | Checking nat | Sleeping nat | Restoring | Finishing

record rstate =
  cl :: client
  rpc :: reconnect_pc

text \<open>
  The calls of the application and the rounds of the client's own loops, those of the processing
  goroutines of subscriptions included. \<open>CallContextDone\<close> is the end of the context that the client was
  connected with, a timeout or a cancellation: the client's own context is derived from it.
\<close>

datatype client_call =
    CallReceive int "string + message"
  | CallHeartbeat "string option"
  | CallMonitor monitor_wake
  | CallPublish "string option" "string option" string bytes
  | CallSubscribe "nat \<Rightarrow> attempt_env" string int
  | CallUnsubscribe "string option" ptr
  | CallClose "string option"
  | CallEnable duration
  | CallDisable
  | CallSetMax duration
  | CallSetCallback bool
  | CallLatency duration
  | CallProcess ptr
  | CallContextDone

fun exec_call :: "client_call \<Rightarrow> client \<Rightarrow> client option" where
  "exec_call (CallReceive now r) c = Some (fst (receiveLoop_body now r c))"
| "exec_call (CallHeartbeat w) c = Some (fst (heartbeat_body w c))"
| "exec_call (CallMonitor w) c = Some (MonitorConnection w c)"
| "exec_call (CallPublish x w t b) c = Some (fst (PublishWithContext x w t b c))"
| "exec_call (CallSubscribe envs t cap) c = Some (fst (SubscribeWithOptionsContext envs t cap c))"
| "exec_call (CallUnsubscribe w p) c = map_option fst (Subscription_Unsubscribe w p c)"
| "exec_call (CallClose e) c = Some (fst (client_Close e c))"
| "exec_call (CallEnable d) c = Some (EnableAutoReconnect d c)"
| "exec_call CallDisable c = Some (DisableAutoReconnect c)"
| "exec_call (CallSetMax d) c = Some (SetMaxReconnectInterval d c)"
| "exec_call (CallSetCallback b) c = Some (SetConnectionLostCallback b c)"
| "exec_call (CallLatency d) c = recordLatency d c"
| "exec_call (CallProcess p) c =
     Some (case process_one (sub_obj c p) of None \<Rightarrow> c | Some s \<Rightarrow> on_sub p (\<lambda>_. s) c)"
| "exec_call CallContextDone c = Some (c\<lparr>ctx_done := True\<rparr>)"

text \<open>
  The transitions. A call that makes \<open>reconnect\<close> start its goroutine brings it to the top of its
  loop. The loop checks the setting and \<open>done\<close>, sleeps, and dials; after a success it clears
  \<open>connectionLost\<close>, restores the subscriptions, and its deferred store clears \<open>reconnecting\<close>.
\<close>

inductive rstep :: "rstate \<Rightarrow> rstate \<Rightarrow> bool" where
  r_call: "exec_call k (cl st) = Some c \<Longrightarrow>
    rstep st (st\<lparr>cl := c, rpc := if reconnect_runs c \<noteq> reconnect_runs (cl st) then Checking 0 else rpc st\<rparr>)"
| r_stop: "rpc st = Checking n \<Longrightarrow> \<not> autoReconnect (cl st) \<or> c_done (cl st) \<Longrightarrow>
    rstep st (st\<lparr>rpc := Finishing\<rparr>)"
| r_sleep: "rpc st = Checking n \<Longrightarrow> autoReconnect (cl st) \<Longrightarrow> \<not> c_done (cl st) \<Longrightarrow>
    rstep st (st\<lparr>rpc := Sleeping n\<rparr>)"
| r_dial_fail: "rpc st = Sleeping n \<Longrightarrow> doReconnect (mk :: bytes \<Rightarrow> string + bytes) r (cl st) = (c, Some err) \<Longrightarrow>
    rstep st (st\<lparr>cl := c\<lparr>connectionErrors := wrap64 (connectionErrors c + 1),
                        reconnectCount := wrap64 (reconnectCount c + 1)\<rparr>,
                 rpc := Checking (n + 1)\<rparr>)"
| r_dial_ok: "rpc st = Sleeping n \<Longrightarrow> doReconnect (mk :: bytes \<Rightarrow> string + bytes) r (cl st) = (c, None) \<Longrightarrow>
    rstep st (st\<lparr>cl := c\<lparr>connectedAt := Some now, connectionLost := False\<rparr>, rpc := Restoring\<rparr>)"
| r_restore: "rpc st = Restoring \<Longrightarrow>
    rstep st (st\<lparr>cl := restoreSubscriptions envs (cl st), rpc := Finishing\<rparr>)"
| r_finish: "rpc st = Finishing \<Longrightarrow>
    rstep st (st\<lparr>cl := (cl st)\<lparr>reconnecting := False\<rparr>, rpc := NoRun\<rparr>)"

inductive_cases rstepE: "rstep st st'"

definition rstart :: "rstate \<Rightarrow> bool" where
  "rstart st \<longleftrightarrow> rpc st = NoRun \<and>
     (\<exists>(mk :: bytes \<Rightarrow> string + bytes) r now sh ah address key.
        ConnectWithContext None mk r now sh ah address key = Inr (cl st))"

section \<open>What the calls leave alone\<close>

text \<open>The statistics that no code updates, and the flags of the reconnection.\<close>

definition core :: "client \<Rightarrow> (int \<times> int \<times> int \<times> int \<times> int \<times> int) \<times> bool \<times> bool \<times> bool \<times> nat" where
  "core c = ((messagesSent c, messagesReceived c, bytesSent c, bytesReceived c, totalSubscriptions c,
     reconnectCount c), client_conn c, connectionLost c, reconnecting c, reconnect_runs c)"

definition call_rel :: "client \<Rightarrow> client \<Rightarrow> bool" where
  "call_rel c c' \<longleftrightarrow> fst (core c') = fst (core c) \<and> client_conn c' = client_conn c \<and>
     (core c' = core c \<or>
      \<not> connectionLost c \<and> connectionLost c' \<and>
        (reconnecting c' = reconnecting c \<and> reconnect_runs c' = reconnect_runs c \<or>
         \<not> reconnecting c \<and> reconnecting c' \<and> reconnect_runs c' = Suc (reconnect_runs c)))"

lemma call_rel_core: "core c' = core c \<Longrightarrow> call_rel c c'"
  by (simp add: call_rel_def) (simp add: core_def)

lemma call_rel_trigger:
  assumes "core c1 = core c" and "core c' = core (triggerConnectionLost c1)"
  shows "call_rel c c'"
  using assms
  by (auto simp: call_rel_def core_def triggerConnectionLost_def reconnect_def Let_def split: if_splits)

lemma core_simple [simp]:
  "core (on_sub p f c) = core c" "core (removeSubscription p c) = core c"
  "core (forget_pending t c) = core c" "core (add_pending t d c) = core c"
  "core (drop_pending t c) = core c" "core (abandon t p c) = core c"
  "core (c\<lparr>receiveLoopDone := b\<rparr>) = core c" "core (c\<lparr>heartbeatDone := b\<rparr>) = core c"
  "core (c\<lparr>outgoing := o1\<rparr>) = core c" "core (c\<lparr>publishErrors := n\<rparr>) = core c"
  "core (c\<lparr>connectionErrors := n\<rparr>) = core c" "core (c\<lparr>subscriptionErrors := n\<rparr>) = core c"
  "core (c\<lparr>subs := ps\<rparr>) = core c" "core (c\<lparr>client_conn_closed := b\<rparr>) = core c"
  by (simp_all add: core_def on_sub_def removeSubscription_def forget_pending_def add_pending_def
      drop_pending_def abandon_def Let_def split: option.splits)

lemma call_rel_update [simp]:
  "call_rel c (c'\<lparr>receiveLoopDone := b\<rparr>) = call_rel c c'"
  "call_rel c (c'\<lparr>heartbeatDone := b\<rparr>) = call_rel c c'"
  by (simp_all add: call_rel_def core_def)

lemma call_rel_lost [simp]: "core c1 = core c \<Longrightarrow> call_rel c (triggerConnectionLost c1)"
  by (rule call_rel_trigger) simp_all

lemma core_deliver [simp]: "core (deliver_loop m ps c) = core c"
  by (induction ps arbitrary: c) simp_all

lemma core_confirm [simp]: "core (confirm_ack now t a c) = core c"
  by (simp add: core_def confirm_ack_def Let_def)

lemma core_handle [simp]: "core (handleMessage now m c) = core c"
  by (simp add: handleMessage_def Let_def split: option.splits)

lemma core_fold_handle [simp]: "core (fold (handleMessage now) ms c) = core c"
  by (induction ms arbitrary: c) simp_all

lemma core_registered [simp]: "core (registered n env t cap c) = core c"
  by (auto simp: registered_def Let_def core_def add_pending_def drop_pending_def split: option.splits)

lemma core_attempt:
  "case subscribe_attempt n env t cap c of Continue c' err \<Rightarrow> core c' = core c | Return c' r \<Rightarrow> core c' = core c"
  by (auto simp: subscribe_attempt_eq Let_def split: option.splits wait_result.splits)

lemma core_subscribe_loop: "core (fst (subscribe_loop n envs t cap e c)) = core c"
proof (induction n envs t cap e c rule: subscribe_loop.induct)
  case (1 n envs t cap e c)
  show ?case
    using core_attempt [where n = n and env = "envs n" and t = t and cap = cap and c = c] 1
    by (auto simp: subscribe_loop.simps [of n] split: attempt_result.splits)
qed

lemma core_deactivate [simp]: "core (deactivate_all ps c) = core c"
  by (induction ps arbitrary: c) simp_all

lemma core_clear [simp]: "core (clear_pending es c) = core c"
  by (induction es c rule: clear_pending.induct) simp_all

lemma core_send_sub: "core (fst (sendSubWithAck env t c)) = core c"
  by (auto simp: sendSubWithAck_def Let_def split: option.splits wait_result.splits)

lemma core_restore_loop: "core (fst (restore_loop n envs t c)) = core c"
proof (induction n envs t c rule: restore_loop.induct)
  case (1 n envs t c)
  show ?case
    using 1 core_send_sub [of "envs n" t c]
    by (auto simp: restore_loop.simps [of n] split: prod.splits option.splits)
qed

lemma core_restore_all: "core (restore_all envs ps c) = core c"
proof (induction ps arbitrary: c)
  case (Cons p ps)
  obtain c1 e where r: "restoreOneSubscription (envs p) (sub_subject (sub_obj c p)) c = (c1, e)"
    by fastforce
  then have "core c1 = core c"
    using core_restore_loop [of 0 "envs p" "sub_subject (sub_obj c p)" c]
    by (simp add: restoreOneSubscription_def)
  then show ?case
    using Cons r by (cases e) simp_all
qed simp

lemma call_rel_exec:
  assumes "exec_call k c = Some c'"
  shows "call_rel c c'"
proof (cases k)
  case (CallReceive now r)
  then show ?thesis
    using assms
    by (auto simp: receiveLoop_body_def Let_def call_rel_core
        split: sum.splits if_splits)
next
  case (CallHeartbeat w)
  then show ?thesis
    using assms
    by (auto simp: heartbeat_body_def call_rel_core
        split: option.splits if_splits)
next
  case (CallMonitor w)
  then show ?thesis
    using assms
    by (auto simp: MonitorConnection_def call_rel_core
        split: monitor_wake.splits)
next
  case (CallPublish x w t b)
  then show ?thesis
    using assms
    by (auto simp: PublishWithContext_def Let_def call_rel_core
        split: option.splits if_splits)
next
  case (CallSubscribe envs t cap)
  then show ?thesis
    using assms
    by (auto simp: SubscribeWithOptionsContext_def Let_def core_subscribe_loop intro!: call_rel_core)
next
  case (CallUnsubscribe w p)
  then show ?thesis
    using assms
    by (intro call_rel_core)
      (auto simp: Subscription_Unsubscribe_def Let_def split: if_splits option.splits)
next
  case (CallClose e)
  have "core (c\<lparr>c_closeOnce := True, ctx_done := True, c_done := True, receiveLoopDone := True,
      heartbeatDone := True\<rparr>) = core c" by (simp add: core_def)
  then show ?thesis
    using assms CallClose by (intro call_rel_core) (auto simp: client_Close_def Let_def)
next
  case (CallLatency d)
  then show ?thesis
    using assms by (intro call_rel_core) (auto simp: recordLatency_def core_def split: bind_splits)
next
  case (CallProcess p)
  then show ?thesis
    using assms by (intro call_rel_core) (auto split: option.splits)
qed (use assms in \<open>auto intro!: call_rel_core simp: core_def EnableAutoReconnect_def Let_def
    DisableAutoReconnect_def SetMaxReconnectInterval_def SetConnectionLostCallback_def\<close>)

section \<open>Restoring\<close>

text \<open>What sending one SUB and waiting for its acknowledgement leaves alone.\<close>

definition restore_frame :: "client \<Rightarrow> client \<Rightarrow> bool" where
  "restore_frame c c' \<longleftrightarrow> client_ok c' \<and> subs c' = subs c \<and> next_sub c' = next_sub c \<and>
     subscriptionErrors c' = subscriptionErrors c \<and>
     (\<forall>p. active (sub_obj c' p) = active (sub_obj c p) \<and>
          sub_subject (sub_obj c' p) = sub_subject (sub_obj c p))"

lemma restore_frame_trans: "restore_frame c c1 \<Longrightarrow> restore_frame c1 c2 \<Longrightarrow> restore_frame c c2"
  by (simp add: restore_frame_def)

lemma handle_errors [simp]: "subscriptionErrors (handleMessage now m c) = subscriptionErrors c"
proof -
  have "subscriptionErrors (deliver_loop m ps c) = subscriptionErrors c" for ps
    by (induction ps arbitrary: c) (simp_all add: on_sub_def)
  then show ?thesis
    by (simp add: handleMessage_def confirm_ack_def Let_def split: option.splits)
qed

lemma fold_handle_errors [simp]:
  "subscriptionErrors (fold (handleMessage now) ms c) = subscriptionErrors c"
  by (induction ms arbitrary: c) simp_all

lemma client_ok_outgoing [simp]: "client_ok (c\<lparr>outgoing := ps\<rparr>) = client_ok c"
  by (simp add: client_ok_def)

lemma forget_ok: "client_ok c \<Longrightarrow> client_ok (forget_pending t c)"
  by (auto simp: client_ok_def forget_pending_def split: if_splits)

text \<open>The client after \<open>sendSubWithAck\<close> has registered its acknowledgement.\<close>

lemma renewed:
  fixes t :: string and d :: int
  assumes "client_ok c"
  defines "c2 \<equiv> add_pending t d (drop_pending t c)"
  shows "client_ok c2 \<and> subs c2 = subs c \<and> sub_obj c2 = sub_obj c \<and> next_sub c2 = next_sub c \<and>
    subscriptionErrors c2 = subscriptionErrors c \<and> client_conn c2 = client_conn c \<and>
    \<not> acked (ack_obj c2 (next_ack c)) \<and> ack_subject (ack_obj c2 (next_ack c)) = t"
proof -
  have "subscriptionErrors (drop_pending t c) = subscriptionErrors c"
    by (simp add: drop_pending_def Let_def split: option.splits)
  then show ?thesis
    using assms(1)
    by (auto simp: c2_def client_ok_def add_pending_def less_Suc_eq split: if_splits)
qed

lemma send_sub_outcome:
  assumes ok: "client_ok c" and r: "sendSubWithAck env t c = (c', e)"
  shows "restore_frame c c' \<and> (e = None \<longrightarrow> (\<exists>m \<in> set (env_incoming env). acks t m))"
proof -
  let ?c2 = "add_pending t (env_now env + ackTimeout) (drop_pending t c)"
  let ?c3 = "?c2\<lparr>outgoing := outgoing ?c2 @ [Encode (NewMessageCmd CmdSub t [])]\<rparr>"
  let ?c4 = "fold (handleMessage (env_now env)) (env_incoming env) ?c3"
  note n = renewed [OF ok, of t "env_now env + ackTimeout"]
  have ok3: "client_ok ?c3" using n by simp
  note k4 = handle_fold_ok [OF ok3, of "env_now env" "env_incoming env"]
  note f4 = handle_fold_frame [of "env_now env" "env_incoming env" ?c3]
  have forget: "restore_frame c (forget_pending t x)" if "restore_frame c x" for x
    using that forget_ok [of x t] by (simp add: restore_frame_def forget_pending_def)
  have rf: "restore_frame c c" "restore_frame c ?c2" "restore_frame c ?c4"
    using ok n k4 f4 by (simp_all add: restore_frame_def)
  have a: "\<exists>m \<in> set (env_incoming env). acks t m" if "acked (ack_obj ?c4 (next_ack c))"
    using handle_fold_acked [OF ok3 _ that] n by simp
  show ?thesis
    using r rf forget a
    by (auto simp: sendSubWithAck_def wait_ack_def Let_def
        split: if_splits option.splits wait_choice.splits)
qed

lemma restore_loop_outcome:
  assumes "client_ok c" and "restore_loop n envs t c = (c', e)"
  shows "restore_frame c c' \<and>
    (e = None \<longrightarrow> (\<exists>k m. k < maxRetries \<and> m \<in> set (env_incoming (envs k)) \<and> acks t m))"
  using assms
proof (induction n envs t c arbitrary: c' e rule: restore_loop.induct)
  case (1 n envs t c)
  show ?case
  proof (cases "n < maxRetries")
    case False
    then show ?thesis
      using "1.prems" by (auto simp: restore_loop.simps [of n] restore_frame_def)
  next
    case True
    obtain c1 e1 where s: "sendSubWithAck (envs n) t c = (c1, e1)" by fastforce
    note o = send_sub_outcome [OF "1.prems"(1) s]
    show ?thesis
    proof (cases "e1 = None \<or> c_done c1 \<or> ctx_done c1")
      case True': True
      then show ?thesis
        using "1.prems"(2) True s o
        by (auto simp: restore_loop.simps [of n] split: option.splits if_splits)
    next
      case False
      then obtain err where err: "e1 = Some err" by auto
      have ok1: "client_ok c1" using o by (simp add: restore_frame_def)
      have l: "restore_loop (n + 1) envs t c1 = (c', e)"
        using "1.prems"(2) True s err False by (simp add: restore_loop.simps [of n])
      show ?thesis
        using "1.IH" [OF True s [symmetric] err _ _ ok1 l] False o restore_frame_trans by blast
    qed
  qed
qed

text \<open>The loop over the list, for a distinct list \<open>ps\<close> of subscriptions.\<close>

lemma restore_all_outcome:
  assumes "client_ok c" and "distinct ps" and "0 \<le> subscriptionErrors c"
    and "subscriptionErrors c + int (length ps) \<le> 2 ^ 62"
  shows "subs (restore_all envs ps c) = subs c \<and> client_ok (restore_all envs ps c) \<and>
    (\<forall>p. p \<notin> set ps \<longrightarrow> active (sub_obj (restore_all envs ps c) p) = active (sub_obj c p)) \<and>
    (\<forall>p \<in> set ps. active (sub_obj (restore_all envs ps c) p) \<longrightarrow> active (sub_obj c p) \<and>
       (\<exists>k m. k < maxRetries \<and> m \<in> set (env_incoming (envs p k)) \<and>
          acks (sub_subject (sub_obj c p)) m)) \<and>
    subscriptionErrors (restore_all envs ps c) = subscriptionErrors c +
      int (length (filter (\<lambda>p. active (sub_obj c p) \<and> \<not> active (sub_obj (restore_all envs ps c) p)) ps))"
  using assms
proof (induction ps arbitrary: c)
  case Nil
  then show ?case by simp
next
  case (Cons p ps)
  define d where "d = (if \<not> active (sub_obj c p) then c
        else case restoreOneSubscription (envs p) (sub_subject (sub_obj c p)) c of
            (c1, None) \<Rightarrow> c1
          | (c1, Some err) \<Rightarrow> on_sub p (\<lambda>s. s\<lparr>active := False\<rparr>)
                (c1\<lparr>subscriptionErrors := wrap64 (subscriptionErrors c1 + 1)\<rparr>))"
  obtain c1 e where r: "restoreOneSubscription (envs p) (sub_subject (sub_obj c p)) c = (c1, e)"
    by fastforce
  note o = restore_loop_outcome [OF Cons.prems(1) r [unfolded restoreOneSubscription_def]]
  have d: "client_ok d" "subs d = subs c"
    "\<forall>q. sub_subject (sub_obj d q) = sub_subject (sub_obj c q)"
    "\<forall>q. q \<noteq> p \<longrightarrow> active (sub_obj d q) = active (sub_obj c q)"
    "active (sub_obj d p) \<longrightarrow> active (sub_obj c p) \<and>
       (\<exists>k m. k < maxRetries \<and> m \<in> set (env_incoming (envs p k)) \<and> acks (sub_subject (sub_obj c p)) m)"
    "subscriptionErrors d = subscriptionErrors c +
       (if active (sub_obj c p) \<and> \<not> active (sub_obj d p) then 1 else 0)"
    using o Cons.prems r
    by (auto simp: d_def restore_frame_def on_sub_def client_ok_def split: option.splits)
  have "0 \<le> subscriptionErrors d" "subscriptionErrors d + int (length ps) \<le> 2 ^ 62"
    using d(6) Cons.prems(3,4) by auto
  note ih = Cons.IH [OF d(1) _ this]
  have rp: "active (sub_obj (restore_all envs ps d) p) = active (sub_obj d p)"
    using ih Cons.prems(2) by simp
  have fl: "filter (\<lambda>q. active (sub_obj d q) \<and> \<not> active (sub_obj (restore_all envs ps d) q)) ps =
      filter (\<lambda>q. active (sub_obj c q) \<and> \<not> active (sub_obj (restore_all envs ps d) q)) ps"
    using d(4) Cons.prems(2) by (intro filter_cong) auto
  have eq: "restore_all envs (p # ps) c = restore_all envs ps d" by (simp add: d_def)
  show ?case
    unfolding eq using ih d rp fl Cons.prems(2) by auto
qed

section \<open>Invariant\<close>

definition rinv :: "rstate \<Rightarrow> bool" where
  "rinv st \<longleftrightarrow> (reconnecting (cl st) \<longleftrightarrow> rpc st \<noteq> NoRun) \<and> client_conn (cl st) \<and>
     messagesSent (cl st) = 0 \<and> messagesReceived (cl st) = 0 \<and> bytesSent (cl st) = 0 \<and>
     bytesReceived (cl st) = 0 \<and> totalSubscriptions (cl st) = 0"

lemma connect_fields:
  assumes "ConnectWithContext None mk r now sh ah address key = Inr c"
  shows "reconnecting c = False" "client_conn c" "messagesSent c = 0" "messagesReceived c = 0"
    "bytesSent c = 0" "bytesReceived c = 0" "totalSubscriptions c = 0"
  using assms by (auto simp: ConnectWithContext_def split: sum.splits)

lemma doReconnect_core:
  assumes "doReconnect mk r c = (c', e)" and "client_conn c"
  shows "core c' = core c"
  using assms
  by (auto simp: doReconnect_def core_def Let_def split: sum.splits)

lemma rinv_start:
  assumes "rstart st"
  shows "rinv st"
proof -
  obtain mk :: "bytes \<Rightarrow> string + bytes" and r now sh ah address key
    where "ConnectWithContext None mk r now sh ah address key = Inr (cl st)" and "rpc st = NoRun"
    using assms unfolding rstart_def by blast
  then show ?thesis
    using connect_fields [of mk r now sh ah address key "cl st"] by (simp add: rinv_def)
qed

lemma rinv_step:
  assumes "rstep st st'" and "rinv st"
  shows "rinv st'"
  using assms
proof (induction rule: rstep.induct)
  case (r_call k st c)
  then show ?case
    using call_rel_exec [OF r_call(1)] by (auto simp: rinv_def call_rel_def core_def)
next
  case (r_dial_fail st n mk r c err)
  then show ?case
    using doReconnect_core [OF r_dial_fail(2)] by (simp add: rinv_def core_def)
next
  case (r_dial_ok st n mk r c now)
  then show ?case
    using doReconnect_core [OF r_dial_ok(2)] by (simp add: rinv_def core_def)
next
  case (r_restore st envs)
  then show ?case
    using core_restore_all [of envs "subs (cl st)" "cl st"]
    by (simp add: rinv_def restoreSubscriptions_def core_def)
qed (simp_all add: rinv_def)

interpretation rc: invariant_system rstart rstep rinv
  by unfold_locales (auto intro: rinv_start rinv_step)

text \<open>
  A client in the lost state without a reconnect goroutine stays so: only that goroutine clears
  \<open>connectionLost\<close>, and only a change of \<open>connectionLost\<close> starts the goroutine.
\<close>

definition abandoned :: "rstate \<Rightarrow> bool" where
  "abandoned st \<longleftrightarrow> connectionLost (cl st) \<and> rpc st = NoRun"

lemma abandoned_step: "rstep st st' \<Longrightarrow> abandoned st \<Longrightarrow> abandoned st'"
proof (induction rule: rstep.induct)
  case (r_call k st c)
  then show ?case
    using call_rel_exec [OF r_call(1)] by (auto simp: abandoned_def call_rel_def core_def)
qed (auto simp: abandoned_def)

lemma abandoned_forever: "rstep\<^sup>*\<^sup>* st st' \<Longrightarrow> abandoned st \<Longrightarrow> abandoned st'"
  by (induction rule: rtranclp_induct) (auto intro: abandoned_step)

section \<open>Example runs\<close>

definition fresh :: rstate where
  "fresh = \<lparr>cl = example_client, rpc = NoRun\<rparr>"

lemma fresh_start: "reach rstart rstep fresh"
proof (rule reach_start)
  have "ConnectWithContext None (Inr :: bytes \<Rightarrow> string + bytes) (Inr ()) 0
     (\<lambda>p. new_subscription ''x'' 1)
     (\<lambda>a. \<lparr>ack_subject = [], acked = False, ackedAt = None, ack_timeout = 0\<rparr>) ''srv''
     (replicate 32 0) = Inr example_client"
    by (simp add: example_client_def ConnectWithContext_def newAES256BlockCrypt_def)
  then show "rstart fresh"
    unfolding rstart_def fresh_def rstate.simps by blast
qed

text \<open>The connection is lost with automatic reconnection enabled, and the goroutine sleeps.\<close>

definition lost_client :: client where
  "lost_client = example_client\<lparr>autoReconnect := True, reconnectInterval := 1, connectionLost := True,
     reconnecting := True, reconnect_runs := 1, heartbeatDone := True\<rparr>"

lemma example_client_flags:
  "ctx_done example_client = False" "connectionLost example_client = False"
  "reconnecting example_client = False" "reconnect_runs example_client = 0"
  "onConnectionLost example_client = False" "aes256Key example_client = replicate 32 0"
  "client_conn_closed example_client = False"
  by (simp_all add: example_client_def ConnectWithContext_def newAES256BlockCrypt_def)

lemma lost_reach: "reach rstart rstep \<lparr>cl = lost_client, rpc = Sleeping 0\<rparr>"
proof -
  let ?c1 = "example_client\<lparr>autoReconnect := True, reconnectInterval := 1\<rparr>"
  have e: "exec_call (CallEnable 1) example_client = Some ?c1"
    by (simp add: EnableAutoReconnect_def)
  have h: "exec_call (CallHeartbeat (Some ''broken'')) ?c1 = Some lost_client"
    by (simp add: heartbeat_body_def triggerConnectionLost_def reconnect_def example_client_fields
        example_client_flags Let_def lost_client_def)
  have 1: "reach rstart rstep \<lparr>cl = ?c1, rpc = NoRun\<rparr>"
    using reach_step [OF fresh_start r_call, of "CallEnable 1" ?c1] e by (simp add: fresh_def)
  have 2: "reach rstart rstep \<lparr>cl = lost_client, rpc = Checking 0\<rparr>"
    using reach_step [OF 1 r_call, of "CallHeartbeat (Some ''broken'')" lost_client] h
    by (simp add: lost_client_def example_client_flags)
  show ?thesis
    using reach_step [OF 2 r_sleep, of 0] by (simp add: lost_client_def example_client_fields)
qed

lemma lost_dial:
  "doReconnect (Inr :: bytes \<Rightarrow> string + bytes) (Inr ()) lost_client =
     (lost_client\<lparr>c_done := False, receiveLoopDone := False, heartbeatDone := False,
        client_conn := True, client_conn_closed := False\<rparr>, None)"
  by (simp add: doReconnect_def newAES256BlockCrypt_def lost_client_def example_client_flags Let_def)

section \<open>Properties\<close>

text \<open>At every moment at most one reconnect goroutine runs: the flag \<open>reconnecting\<close> is set exactly
  while the goroutine is between its start and its deferred store, whatever calls and losses
  happen meanwhile.\<close>

lemma reconnect_flag_exact:
  assumes "reach rstart rstep st"
  shows "reconnecting (cl st) \<longleftrightarrow> rpc st \<noteq> NoRun"
  using rc.reach_inv [OF assms] by (simp add: rinv_def)

text \<open>The client statistics are never counted: in every reachable state the numbers of messages
  and bytes sent and received and the total of subscriptions are 0, whatever was published,
  received or subscribed, and the statistics report the client as connected, even after a loss
  or after Close.\<close>

lemma stats_never_counted:
  assumes "reach rstart rstep st"
  shows "MessagesSent (client_GetStats now (cl st)) = 0 \<and>
    MessagesReceived (client_GetStats now (cl st)) = 0 \<and>
    BytesSent (client_GetStats now (cl st)) = 0 \<and> BytesReceived (client_GetStats now (cl st)) = 0 \<and>
    ClientTotalSubscriptions (client_GetStats now (cl st)) = 0 \<and>
    Connected (client_GetStats now (cl st))"
  using rc.reach_inv [OF assms] by (simp add: rinv_def client_GetStats_def Let_def)

text \<open>C29: A second loss during the restoring of subscriptions is forgotten: there is a reachable state
  with automatic reconnection enabled and the client not closed, in which the connection is marked
  lost, no reconnect goroutine runs, and no call, loss or setting will ever start one again.\<close>

theorem reconnect_lost_wakeup:
  "\<exists>st. reach rstart rstep st \<and> autoReconnect (cl st) \<and> \<not> c_done (cl st) \<and> \<not> ctx_done (cl st) \<and>
     connectionLost (cl st) \<and> rpc st = NoRun \<and>
     (\<forall>st'. rstep\<^sup>*\<^sup>* st st' \<longrightarrow> connectionLost (cl st') \<and> rpc st' = NoRun)"
proof -
  let ?c = "lost_client\<lparr>c_done := False, receiveLoopDone := False, heartbeatDone := False,
        client_conn := True, client_conn_closed := False, connectedAt := Some 0, connectionLost := False\<rparr>"
  let ?d = "?c\<lparr>connectionLost := True, heartbeatDone := True\<rparr>"
  have 1: "reach rstart rstep \<lparr>cl = ?c, rpc = Restoring\<rparr>"
    using reach_step [OF lost_reach r_dial_ok, of 0 Inr "Inr ()" _ 0] lost_dial by simp
  have h: "exec_call (CallHeartbeat (Some ''broken'')) ?c = Some ?d"
    by (simp add: heartbeat_body_def triggerConnectionLost_def reconnect_def lost_client_def
        example_client_fields example_client_flags Let_def)
  have 2: "reach rstart rstep \<lparr>cl = ?d, rpc = Restoring\<rparr>"
    using reach_step [OF 1 r_call, of "CallHeartbeat (Some ''broken'')" ?d] h by simp
  have 3: "reach rstart rstep \<lparr>cl = ?d, rpc = Finishing\<rparr>"
    using reach_step [OF 2 r_restore]
    by (simp add: restoreSubscriptions_def lost_client_def example_client_fields)
  have 4: "reach rstart rstep \<lparr>cl = ?d\<lparr>reconnecting := False\<rparr>, rpc = NoRun\<rparr>"
    using reach_step [OF 3 r_finish] by simp
  show ?thesis
  proof (intro exI conjI allI impI)
    show "reach rstart rstep \<lparr>cl = ?d\<lparr>reconnecting := False\<rparr>, rpc = NoRun\<rparr>" by (rule 4)
    fix st' assume s: "rstep\<^sup>*\<^sup>* \<lparr>cl = ?d\<lparr>reconnecting := False\<rparr>, rpc = NoRun\<rparr> st'"
    show "connectionLost (cl st')" "rpc st' = NoRun"
      using abandoned_forever [OF s] by (simp_all add: abandoned_def)
  qed (simp_all add: lost_client_def example_client_flags)
qed

theorem reconnect_lost_wakeup_witness:
  "\<exists>st. reach rstart rstep st \<and> autoReconnect (cl st) \<and> connectionLost (cl st) \<and> rpc st = NoRun"
  using reconnect_lost_wakeup by blast

text \<open>C30: Close during the reconnect delay does not stick: there is a reachable state in which Close
  has run, but the goroutine has opened a new connection with a new \<open>done\<close>; the heartbeat on it
  keeps sending, since it does not look at the context, and a further Close has no effect.\<close>

theorem close_during_reconnect_revives:
  "\<exists>st. reach rstart rstep st \<and> c_closeOnce (cl st) \<and> ctx_done (cl st) \<and>
     client_conn (cl st) \<and> \<not> client_conn_closed (cl st) \<and> \<not> c_done (cl st) \<and>
     heartbeat_body None (cl st) =
       ((cl st)\<lparr>outgoing := outgoing (cl st) @ [Encode (NewMessageCmd CmdPing [] [])]\<rparr>, True) \<and>
     client_Close None (cl st) = (cl st, None)"
proof -
  let ?c = "lost_client\<lparr>c_closeOnce := True, ctx_done := True, c_done := True, receiveLoopDone := True,
      heartbeatDone := True, client_conn_closed := True\<rparr>"
  have k: "exec_call (CallClose None) lost_client = Some ?c"
    by (simp add: client_Close_def lost_client_def example_client_fields Let_def)
  have 1: "reach rstart rstep \<lparr>cl = ?c, rpc = Sleeping 0\<rparr>"
    using reach_step [OF lost_reach r_call, of "CallClose None" ?c] k by simp
  let ?d = "?c\<lparr>c_done := False, receiveLoopDone := False, heartbeatDone := False, client_conn := True,
      client_conn_closed := False\<rparr>"
  have d: "doReconnect (Inr :: bytes \<Rightarrow> string + bytes) (Inr ()) ?c = (?d, None)"
    by (simp add: doReconnect_def newAES256BlockCrypt_def lost_client_def example_client_flags Let_def)
  have 2: "reach rstart rstep \<lparr>cl = ?d\<lparr>connectedAt := Some 0, connectionLost := False\<rparr>, rpc = Restoring\<rparr>"
    using reach_step [OF 1 r_dial_ok, of 0 Inr "Inr ()" ?d 0] d by simp
  then show ?thesis
    by (intro exI conjI, assumption)
      (simp_all add: heartbeat_body_def client_Close_def)
qed

text \<open>The nominal delay before a reconnect attempt follows the exponential back-off: as long as
  the base does not exceed \<open>2 ^ 52\<close> nanoseconds no multiplication overflows, the delay is the base
  times \<open>2 ^ min attempt 10\<close> capped by a positive maximum, it never shrinks from one attempt to the
  next, and it is never longer than that maximum.\<close>

lemma reconnect_backoff:
  assumes "0 < base" and "base \<le> 2 ^ 52"
  shows "reconnect_delay base mx n =
      (if 0 < mx then min mx (base * 2 ^ min n 10) else base * 2 ^ min n 10) \<and>
    reconnect_delay base mx n \<le> reconnect_delay base mx (Suc n) \<and>
    (0 < mx \<longrightarrow> reconnect_delay base mx n \<le> mx)"
proof -
  have m: "nat (min_int (int k) 10) = min k 10" for k :: nat
    by (auto simp: min_int_def)
  have p: "(2::int) ^ min k 10 \<le> 2 ^ 10" for k :: nat
    by (rule power_increasing) simp_all
  have w: "wrap64 (base * 2 ^ min k 10) = base * 2 ^ min k 10" for k :: nat
  proof -
    have "base * 2 ^ min k 10 \<le> 2 ^ 52 * 2 ^ 10"
      using assms p [of k] by (intro mult_mono) simp_all
    moreover have "0 \<le> base * 2 ^ min k 10" using assms by simp
    ultimately show ?thesis by (simp add: wrap64_id)
  qed
  have e: "reconnect_delay base mx k =
      (if 0 < mx then min mx (base * 2 ^ min k 10) else base * 2 ^ min k 10)" for k
    by (cases "k = 0") (auto simp: reconnect_delay_def m w Let_def)
  have "(2::int) ^ min n 10 \<le> 2 ^ min (Suc n) 10"
    by (rule power_increasing) simp_all
  then have "base * 2 ^ min n 10 \<le> base * 2 ^ min (Suc n) 10"
    using assms(1) by (intro mult_left_mono) simp_all
  then show ?thesis
    unfolding e by (auto simp: min_def)
qed

text \<open>Restoring the subscriptions after a reconnection keeps the list as it is; a subscription
  that is active afterwards was active before and was acknowledged again by an OK message during
  one of its at most three attempts; the number of subscriptions that lost their activity is the
  increase of the error counter.\<close>

lemma restore_outcome:
  fixes envs :: "ptr \<Rightarrow> nat \<Rightarrow> attempt_env"
  assumes "client_ok c" and "0 \<le> subscriptionErrors c"
    and "subscriptionErrors c + int (length (subs c)) \<le> 2 ^ 62"
  defines "c' \<equiv> restoreSubscriptions envs c"
  shows "subs c' = subs c \<and> client_ok c' \<and>
    (\<forall>p \<in> set (subs c). active (sub_obj c' p) \<longrightarrow> active (sub_obj c p) \<and>
       (\<exists>k m. k < maxRetries \<and> m \<in> set (env_incoming (envs p k)) \<and>
          acks (sub_subject (sub_obj c p)) m)) \<and>
    subscriptionErrors c' = subscriptionErrors c +
      int (length (filter (\<lambda>p. active (sub_obj c p) \<and> \<not> active (sub_obj c' p)) (subs c)))"
proof -
  have "distinct (subs c)" using assms(1) by (simp add: client_ok_def)
  from restore_all_outcome [OF assms(1) this assms(2,3), of envs] show ?thesis
    by (simp add: c'_def restoreSubscriptions_def)
qed

end
