(* ===== verification/Client_Types.thy ===== *)
theory Client_Types
  imports Reconnect
begin

text \<open>
  The types that the client's data keep: the lists and maps of the struct \<open>Client\<close> hold what their
  names say (\<^const>\<open>client_ok\<close>), and every subscription object has a queue within its capacity and,
  while it is active, an open channel with a running goroutine and an \<open>Unsubscribe\<close> still to come.
  Each operation of the client and of the reconnection preserves this; so no reachable call of \<open>Unsubscribe\<close> closes a closed channel.
\<close>

section \<open>Well-typed clients\<close>

definition sub_typed :: "subscription \<Rightarrow> bool" where
  "sub_typed s \<longleftrightarrow> chan_ok (msgChan s) \<and>
     (active s \<longrightarrow> processing s \<and> \<not> chan_closed (msgChan s) \<and> \<not> sub_closeOnce s)"

definition client_typed :: "client \<Rightarrow> bool" where
  "client_typed c \<longleftrightarrow> client_ok c \<and> (\<forall>p < next_sub c. sub_typed (sub_obj c p))"

text \<open>Operations on one subscription object that keep it well typed.\<close>

lemma new_sub_typed [simp]: "sub_typed (new_subscription t n)"
  by (simp add: sub_typed_def new_subscription_def startProcessing_def make_chan_def chan_ok_def)

lemma enqueue_typed [simp]: "sub_typed s \<Longrightarrow> sub_typed (fst (TryEnqueue m s))"
  by (auto simp: sub_typed_def TryEnqueue_def try_send_def chan_ok_def)

lemma inactive_typed [simp]: "sub_typed s \<Longrightarrow> sub_typed (s\<lparr>active := False\<rparr>)"
  by (simp add: sub_typed_def)

lemma process_typed: "sub_typed s \<Longrightarrow> process_one s = Some s' \<Longrightarrow> sub_typed s'"
  by (auto simp: sub_typed_def process_one_def try_recv_def chan_ok_def
      split: if_splits option.splits list.splits)

lemma process_active: "process_one s = Some s' \<Longrightarrow> active s' = active s"
  by (auto simp: process_one_def split: if_splits option.splits)

lemma drain_typed: "sub_typed s \<Longrightarrow> sub_typed (drain s) \<and> active (drain s) = active s"
proof (induction s rule: drain.induct)
  case (1 s)
  show ?case
  proof (cases "process_one s")
    case None
    then show ?thesis using "1.prems" by (simp add: drain.simps [of s])
  next
    case (Some s')
    then show ?thesis
      using "1.IH" [OF Some process_typed [OF "1.prems" Some]] process_active [OF Some]
      by (simp add: drain.simps [of s])
  qed
qed

lemma closed_typed: "sub_typed s \<Longrightarrow> sub_typed (close_msgChan (s\<lparr>active := False\<rparr>))"
  by (simp add: sub_typed_def close_msgChan_def chan_ok_def)

lemma on_sub_typed:
  "client_typed c \<Longrightarrow> (sub_typed (sub_obj c p) \<Longrightarrow> sub_typed (f (sub_obj c p))) \<Longrightarrow> client_typed (on_sub p f c)"
  by (simp add: client_typed_def on_sub_def client_ok_def)

section \<open>Preservation by the operations\<close>

lemma trigger_typed [simp]: "client_typed (triggerConnectionLost c) = client_typed c"
  by (simp add: client_typed_def client_ok_def)

lemma handle_typed: "client_typed c \<Longrightarrow> client_typed (handleMessage now m c)"
proof -
  assume t: "client_typed c"
  then have ok: "client_ok c" and d: "distinct (subs c)" by (simp_all add: client_typed_def client_ok_def)
  have "sub_typed (sub_obj (handleMessage now m c) p)" if "p < next_sub c" for p
    using t that d
    by (auto simp: handleMessage_def deliver_loop_objs client_typed_def Let_def split: option.splits)
  then show ?thesis using handle_ok [OF ok] by (simp add: client_typed_def handle_frame)
qed

lemma handle_fold_typed: "client_typed c \<Longrightarrow> client_typed (fold (handleMessage now) ms c)"
  by (induction ms arbitrary: c) (simp_all add: handle_typed)

text \<open>What a list of received messages leaves in the queue of a subscription with enough room.\<close>

definition as_client_message :: "message \<Rightarrow> client_message" where
  "as_client_message m = \<lparr>MsgSubject = Subject m, MsgData = Payload m\<rparr>"

lemma handle_other: "Command m \<noteq> CmdMsg \<Longrightarrow> sub_obj (handleMessage now m c) = sub_obj c"
  by (auto simp: handleMessage_def Let_def split: option.splits)

lemma handle_fold_waiting:
  assumes "client_ok c" and "p \<in> set (subs c)" and "active (sub_obj c p)" and "\<not> chan_closed (msgChan (sub_obj c p))"
    and "length (waiting (sub_obj c p)) + length (filter (\<lambda>m. Command m = CmdMsg \<and>
      matchSubject (sub_subject (sub_obj c p)) (Subject m)) ms) \<le> chan_cap (msgChan (sub_obj c p))"
  shows "waiting (sub_obj (fold (handleMessage now) ms c) p) = waiting (sub_obj c p) @ map as_client_message
    (filter (\<lambda>m. Command m = CmdMsg \<and> matchSubject (sub_subject (sub_obj c p)) (Subject m)) ms)"
  using assms
proof (induction ms arbitrary: c)
  case (Cons m ms)
  let ?c = "handleMessage now m c"
  have d: "distinct (subs c)" using Cons.prems(1) by (simp add: client_ok_def)
  note keep = handle_ok [OF Cons.prems(1), of now m] handle_frame(1) [of now m c] handle_sub_frame [OF d, of now m p]
  show ?case
  proof (cases "Command m = CmdMsg")
    case True
    then show ?thesis
      using message_dispatch [OF Cons.prems(1) True Cons.prems(4), of now] Cons.IH [of ?c] Cons.prems keep
      by (auto simp: Let_def as_client_message_def split: if_splits)
  next
    case False
    then show ?thesis using Cons.IH [of ?c] Cons.prems keep by (simp add: handle_other)
  qed
qed simp

lemma registered_typed: "client_typed c \<Longrightarrow> client_typed (registered n env t cap c)"
  using registered_ok [of c n env t cap]
  by (auto simp: client_typed_def registered_fields less_Suc_eq)

lemma remove_ok: "client_ok c \<Longrightarrow> client_ok (removeSubscription p c)"
  by (auto simp: client_ok_def removeSubscription_def dest: notin_set_remove1)

lemma remove_typed: "client_typed c \<Longrightarrow> client_typed (removeSubscription p c)"
  using remove_ok [of c p] by (simp add: client_typed_def removeSubscription_def)

lemma forget_typed: "client_typed c \<Longrightarrow> client_typed (forget_pending t c)"
  using forget_ok [of c t] by (simp add: client_typed_def forget_pending_def)

lemma outgoing_typed [simp]: "client_typed (c\<lparr>outgoing := ps\<rparr>) = client_typed c"
  by (simp add: client_typed_def)

lemma abandon_typed: "client_typed c \<Longrightarrow> client_typed (abandon t p c)"
proof -
  assume c: "client_typed c"
  let ?c2 = "removeSubscription p (forget_pending t c)"
  have "client_typed ?c2" by (intro remove_typed forget_typed c)
  then have "client_typed (on_sub p (\<lambda>s. close_msgChan (s\<lparr>active := False\<rparr>)) ?c2)"
    by (intro on_sub_typed) (simp_all add: closed_typed)
  then show ?thesis by (simp add: abandon_def on_sub_def Let_def)
qed

lemma attempt_typed:
  assumes "client_typed c"
  shows "case subscribe_attempt n env t cap c of Continue c' _ \<Rightarrow> client_typed c' | Return c' _ \<Rightarrow> client_typed c'"
proof -
  let ?c6 = "fold (handleMessage (env_now env)) (env_incoming env)
      ((registered n env t cap c)\<lparr>outgoing := outgoing c @ [Encode (NewMessageCmd CmdSub t [])]\<rparr>)"
  have r: "client_typed (registered n env t cap c)" by (rule registered_typed [OF assms])
  then have "client_typed ?c6" by (intro handle_fold_typed) simp
  then show ?thesis
    using r assms abandon_typed
    by (auto simp: subscribe_attempt_eq Let_def split: option.splits wait_result.splits)
qed

lemma subscribe_typed: "client_typed c \<Longrightarrow> client_typed (fst (subscribe_loop n envs t cap e c))"
proof (induction n envs t cap e c rule: subscribe_loop.induct)
  case (1 n envs t cap e c)
  show ?case
    using "1.IH" attempt_typed [OF "1.prems", of n "envs n" t cap] "1.prems"
    by (subst subscribe_loop.simps) (auto split: attempt_result.splits)
qed

text \<open>Objects are never freed.\<close>

lemma attempt_allocates:
  "case subscribe_attempt n env t cap c of
     Continue c' _ \<Rightarrow> next_sub c \<le> next_sub c' | Return c' _ \<Rightarrow> next_sub c \<le> next_sub c'"
  using handle_fold_frame [of "env_now env" "env_incoming env"
      "(registered n env t cap c)\<lparr>outgoing := outgoing c @ [Encode (NewMessageCmd CmdSub t [])]\<rparr>"]
  by (auto simp: subscribe_attempt_eq registered_fields abandon_def on_sub_def removeSubscription_def
      forget_pending_def Let_def split: option.splits wait_result.splits)

lemma subscribe_loop_allocates: "next_sub c \<le> next_sub (fst (subscribe_loop n envs t cap e c))"
proof (induction n envs t cap e c rule: subscribe_loop.induct)
  case (1 n envs t cap e c)
  show ?case
    using "1.IH" attempt_allocates [where n = n and env = "envs n" and t = t and cap = cap and c = c]
    by (subst subscribe_loop.simps) (fastforce split: attempt_result.splits)
qed

lemma subscribe_allocates:
  "next_sub c \<le> next_sub (fst (SubscribeWithOptionsContext envs t cap c))"
  using subscribe_loop_allocates [of c] by (auto simp: SubscribeWithOptionsContext_def Let_def)

lemma unsubscribe_typed:
  assumes "client_typed c" and "Subscription_Unsubscribe w p c = Some (c', e)"
  shows "client_typed c'"
proof -
  let ?f = "\<lambda>s. drain (close_msgChan (s\<lparr>sub_closeOnce := True, active := False\<rparr>))"
  have f: "sub_typed s \<Longrightarrow> sub_typed (?f s)" for s
    using drain_typed [of "close_msgChan (s\<lparr>sub_closeOnce := True, active := False\<rparr>)"]
    by (simp add: sub_typed_def close_msgChan_def chan_ok_def)
  have 1: "client_typed (on_sub p (\<lambda>s. s\<lparr>sub_closeOnce := True\<rparr>) c)" if "\<not> active (sub_obj c p)"
    using assms(1) that by (intro on_sub_typed) (simp_all add: sub_typed_def)
  have 2: "client_typed (on_sub p ?f c)"
    using assms(1) by (intro on_sub_typed f)
  have 3: "on_sub p (\<lambda>s. drain (close_msgChan (s\<lparr>active := False\<rparr>))) (on_sub p (\<lambda>s. s\<lparr>sub_closeOnce := True\<rparr>) c) =
      on_sub p ?f c"
    by (simp add: on_sub_def)
  show ?thesis
    using assms 1 2 remove_typed [OF 2] remove_typed [of "(on_sub p ?f c)\<lparr>outgoing := ps\<rparr>" for ps]
    by (auto simp: Subscription_Unsubscribe_def Let_def 3 split: if_splits option.splits)
qed

lemma unsubscribe_returns:
  assumes "client_typed c" and "p < next_sub c"
  shows "\<exists>c' e. Subscription_Unsubscribe w p c = Some (c', e) \<and> client_typed c' \<and> next_sub c' = next_sub c"
proof -
  have "sub_typed (sub_obj c p)" using assms by (simp add: client_typed_def)
  then have "\<exists>c' e. Subscription_Unsubscribe w p c = Some (c', e) \<and> next_sub c' = next_sub c"
    by (auto simp: Subscription_Unsubscribe_def sub_typed_def on_sub_def removeSubscription_def Let_def
        split: option.splits)
  then show ?thesis using unsubscribe_typed [OF assms(1)] by blast
qed

lemma close_typed: "client_typed c \<Longrightarrow> client_typed (fst (client_Close e c))"
proof -
  assume c: "client_typed c"
  have deact: "client_typed d \<Longrightarrow> client_typed (deactivate_all ps d)" for ps d
    by (induction ps arbitrary: d) (simp_all add: on_sub_typed)
  have drop: "client_typed d \<Longrightarrow> client_typed (drop_pending t d)" for t d
    by (auto simp: client_typed_def client_ok_def split: if_splits)
  have clear: "client_typed d \<Longrightarrow> client_typed (clear_pending es d)" for es d
    by (induction es d rule: clear_pending.induct) (auto intro: drop)
  have upd: "client_typed d \<Longrightarrow> client_typed (d\<lparr>subs := []\<rparr>)" "client_typed d \<Longrightarrow> client_typed (d\<lparr>client_conn_closed := b\<rparr>)" for d b
    by (simp_all add: client_typed_def client_ok_def)
  have "client_typed (c\<lparr>c_closeOnce := True, ctx_done := True, c_done := d, receiveLoopDone := True, heartbeatDone := True\<rparr>)" for d
    using c by (simp add: client_typed_def client_ok_def)
  then show ?thesis
    using c by (auto simp: client_Close_def Let_def intro!: upd clear deact)
qed

text \<open>A successful subscribe call returns a subscription that is at work.\<close>

lemma subscribe_working:
  assumes "client_typed c" and "client_conn c" and "SubscribeWithOptionsContext envs t cap c = (c', Inr p)"
  shows "client_typed c' \<and> p < next_sub c' \<and> active (sub_obj c' p) \<and> sub_subject (sub_obj c' p) = t"
proof -
  have l: "subscribe_loop 0 envs t (nat (if cap \<le> 0 then 100 else cap)) None c = (c', Inr p)"
    using assms(3) by (simp add: SubscribeWithOptionsContext_def split: if_splits)
  have "client_ok c" using assms(1) by (simp add: client_typed_def)
  from subscribe_loop_outcome [OF this assms(2) l] have
    o: "subs c' = subs c @ [p]" "active (sub_obj c' p)" "sub_subject (sub_obj c' p) = t" "client_ok c'"
    by (auto simp: subscribed_def)
  moreover have "client_typed c'" using subscribe_typed [OF assms(1), of 0 envs t _ None] l by (metis fst_conv)
  ultimately show ?thesis by (simp add: client_ok_def)
qed

text \<open>Settings and counters do not touch what the invariant is about.\<close>

lemma settings_typed [simp]:
  "client_typed (EnableAutoReconnect d c) = client_typed c" "client_typed (DisableAutoReconnect c) = client_typed c"
  "client_typed (SetMaxReconnectInterval d c) = client_typed c"
  "client_typed (SetConnectionLostCallback b c) = client_typed c"
  "client_typed (c\<lparr>receiveLoopDone := b\<rparr>) = client_typed c" "client_typed (c\<lparr>heartbeatDone := b\<rparr>) = client_typed c"
  "client_typed (c\<lparr>connectionErrors := n\<rparr>) = client_typed c" "client_typed (c\<lparr>publishErrors := n\<rparr>) = client_typed c"
  "client_typed (c\<lparr>subscriptionErrors := n\<rparr>) = client_typed c" "client_typed (c\<lparr>reconnectCount := n\<rparr>) = client_typed c"
  "client_typed (c\<lparr>connectedAt := x\<rparr>) = client_typed c" "client_typed (c\<lparr>connectionLost := b\<rparr>) = client_typed c"
  "client_typed (c\<lparr>reconnecting := b\<rparr>) = client_typed c" "client_typed (c\<lparr>ctx_done := b\<rparr>) = client_typed c"
  "client_typed (c\<lparr>lastLatency := d, latencyBuffer := rb\<rparr>) = client_typed c"
  by (simp_all add: client_typed_def client_ok_def EnableAutoReconnect_def DisableAutoReconnect_def
      SetMaxReconnectInterval_def SetConnectionLostCallback_def Let_def)

lemma exec_call_typed: "exec_call k c = Some c' \<Longrightarrow> client_typed c \<Longrightarrow> client_typed c'"
proof (cases k)
  case (CallSubscribe envs t cap)
  then show "exec_call k c = Some c' \<Longrightarrow> client_typed c \<Longrightarrow> client_typed c'"
    by (auto simp: SubscribeWithOptionsContext_def Let_def subscribe_typed)
next
  case (CallUnsubscribe w p)
  then show "exec_call k c = Some c' \<Longrightarrow> client_typed c \<Longrightarrow> client_typed c'"
    by (auto intro: unsubscribe_typed)
next
  case (CallProcess p)
  then show "exec_call k c = Some c' \<Longrightarrow> client_typed c \<Longrightarrow> client_typed c'"
    by (auto split: option.splits intro!: on_sub_typed dest: process_typed)
qed (auto simp: receiveLoop_body_def heartbeat_body_def MonitorConnection_def PublishWithContext_def
    recordLatency_def handle_typed close_typed Let_def split: if_splits sum.splits option.splits
    monitor_wake.splits bind_splits)

section \<open>Preservation by the reconnection\<close>

lemma drop_typed: "client_typed c \<Longrightarrow> client_typed (drop_pending t c)"
  by (auto simp: client_typed_def client_ok_def split: if_splits)

lemma add_pending_typed: "client_typed c \<Longrightarrow> client_typed (add_pending t d c)"
  by (auto simp: client_typed_def client_ok_def add_pending_def less_Suc_eq split: if_splits)

lemma send_sub_typed: "client_typed c \<Longrightarrow> client_typed (fst (sendSubWithAck env t c))"
  by (auto simp: sendSubWithAck_def Let_def intro!: forget_typed handle_fold_typed add_pending_typed drop_typed
      split: option.splits wait_result.splits)

lemma restore_loop_typed: "client_typed c \<Longrightarrow> client_typed (fst (restore_loop n envs t c))"
proof (induction n envs t c rule: restore_loop.induct)
  case (1 n envs t c)
  show ?case
    using "1.IH" send_sub_typed [OF "1.prems", of "envs n" t] "1.prems"
    by (subst restore_loop.simps) (auto split: prod.splits option.splits)
qed

lemma restore_all_typed: "client_typed c \<Longrightarrow> client_typed (restore_all envs ps c)"
proof (induction ps arbitrary: c)
  case (Cons p ps)
  obtain c1 e where r: "restoreOneSubscription (envs p) (sub_subject (sub_obj c p)) c = (c1, e)" by fastforce
  then have c1: "client_typed c1"
    using restore_loop_typed [OF Cons.prems, of 0 "envs p" "sub_subject (sub_obj c p)"]
    by (simp add: restoreOneSubscription_def)
  then have "client_typed (on_sub p (\<lambda>s. s\<lparr>active := False\<rparr>) (c1\<lparr>subscriptionErrors := n\<rparr>))" for n
    by (intro on_sub_typed) simp_all
  with c1 show ?case using Cons by (simp add: r split: option.splits)
qed simp

lemma doReconnect_typed: "doReconnect mk r c = (c', e) \<Longrightarrow> client_typed c \<Longrightarrow> client_typed c'"
  by (auto simp: doReconnect_def client_typed_def client_ok_def Let_def split: sum.splits)

lemma rstep_typed:
  assumes "rstep st st'" and "client_typed (cl st)"
  shows "client_typed (cl st')"
  using assms
proof (induction rule: rstep.induct)
  case (r_call k st c)
  then show ?case by (simp add: exec_call_typed)
next
  case (r_dial_fail st n mk r c err)
  then show ?case using doReconnect_typed [OF r_dial_fail(2)] by simp
next
  case (r_dial_ok st n mk r c now)
  then show ?case using doReconnect_typed [OF r_dial_ok(2)] by simp
next
  case (r_restore st envs)
  then show ?case by (simp add: restoreSubscriptions_def restore_all_typed)
qed simp_all

lemma connect_typed:
  assumes "ConnectWithContext ctxErr mk r now sh ah address key = Inr c"
  shows "client_typed c"
  using assms by (auto simp: ConnectWithContext_def client_typed_def client_ok_def split: sum.splits option.splits)

lemma rstart_typed:
  assumes "rstart st"
  shows "client_typed (cl st)"
proof -
  obtain mk :: "bytes \<Rightarrow> string + bytes" and r now sh ah address key
    where "ConnectWithContext None mk r now sh ah address key = Inr (cl st)"
    using assms unfolding rstart_def by blast
  then show ?thesis by (rule connect_typed)
qed

interpretation ct: invariant_system rstart rstep "\<lambda>st. client_typed (cl st)"
  by unfold_locales (auto intro: rstart_typed rstep_typed)

section \<open>Properties\<close>

text \<open>C33: The client's data stay well typed: in every state that calls of the application, rounds of the
  client's loops and goroutines, and the reconnection can reach, the subscription list holds distinct
  allocated subscriptions, the pending acknowledgements belong to their subjects, every queue is
  within its capacity, and every active subscription has an open channel and a running goroutine;
  therefore \<open>Unsubscribe\<close> on any subscription returns without a panic.\<close>

theorem client_typed_always:
  assumes "reach rstart rstep st" and "p < next_sub (cl st)"
  shows "client_ok (cl st) \<and> chan_ok (msgChan (sub_obj (cl st) p)) \<and>
    (active (sub_obj (cl st) p) \<longrightarrow>
       processing (sub_obj (cl st) p) \<and> \<not> chan_closed (msgChan (sub_obj (cl st) p))) \<and>
    (\<exists>c' e. Subscription_Unsubscribe w p (cl st) = Some (c', e))"
proof -
  have t: "client_typed (cl st)" by (rule ct.reach_inv [OF assms(1)])
  then have s: "sub_typed (sub_obj (cl st) p)" using assms(2) by (simp add: client_typed_def)
  have "\<exists>c' e. Subscription_Unsubscribe w p (cl st) = Some (c', e)"
    using unsubscribe_returns [OF t assms(2)] by blast
  then show ?thesis using t s by (auto simp: client_typed_def sub_typed_def)
qed

definition subscribed_client :: client where
  "subscribed_client = fst (SubscribeWithOptionsContext (\<lambda>k. ack_env) ''x'' 0 example_client)"

lemma subscribed_allocates: "0 < next_sub subscribed_client"
proof -
  have t: "Contains ''subscribed to x'' ''subscribed to ''"
    "TrimPrefix ''subscribed to x'' ''subscribed to '' = ''x''"
    by code_simp+
  have "next_sub (fst (subscribe_loop 0 (\<lambda>k. ack_env) ''x'' 100 None example_client)) = 1"
    using t
    by (simp add: subscribe_loop.simps [of 0] maxRetries_def subscribe_attempt_eq ack_env_def Let_def
        registered_def add_pending_def handleMessage_def NewMessageCmd_def cmd_defs wait_ack_def
        confirm_ack_def example_client_fields)
  then show ?thesis by (simp add: subscribed_client_def SubscribeWithOptionsContext_def max_lens)
qed

lemma subscribed_reach: "\<exists>pc. reach rstart rstep \<lparr>cl = subscribed_client, rpc = pc\<rparr>"
proof -
  have "exec_call (CallSubscribe (\<lambda>k. ack_env) ''x'' 0) (cl fresh) = Some subscribed_client"
    by (simp add: fresh_def subscribed_client_def)
  from reach_step [OF fresh_start r_call [OF this]] show ?thesis by (simp add: fresh_def) blast
qed

theorem client_typed_always_witness:
  "chan_ok (msgChan (sub_obj subscribed_client 0)) \<and>
   (\<exists>c' e. Subscription_Unsubscribe (Some ''broken'') 0 subscribed_client = Some (c', e))"
proof -
  obtain pc where "reach rstart rstep \<lparr>cl = subscribed_client, rpc = pc\<rparr>" using subscribed_reach by blast
  from client_typed_always [OF this, of 0 "Some ''broken''"] subscribed_allocates show ?thesis by simp
qed

end
