(* ===== verification/Client_System.thy ===== *)
theory Client_System
  imports Client_Types
begin

text \<open>
  The running client: any number of goroutines of the application that subscribe, unsubscribe and
  close, beside the receive loop, the heartbeat, the goroutine of every subscription and the
  reconnection. A step is one atomic access or one critical section of \<open>client.go\<close> and
  \<open>subscription.go\<close>; between them everything else may happen. A critical section under \<open>c.mu.Lock\<close>
  waits while a receive loop delivers a message, which holds the read lock (\<open>locked\<close>); sections under
  \<open>pendingSubsMu\<close> are single steps. Timers and the caller's context may fire at any time. A reconnection
  replaces the channels \<open>done\<close>, \<open>receiveLoopDone\<close> and \<open>heartbeatDone\<close>; a goroutine that has read one of
  them keeps the one that it read, so the channels are numbered by their generation (\<open>gen\<close>).
\<close>

section \<open>Subscribe calls\<close>

text \<open>What follows the clean-up of a failed attempt.\<close>

datatype sub_after = Retry client_error | Abort client_error

text \<open>
  The program points of \<open>SubscribeWithOptionsContext\<close>: attempt number, subscription, acknowledgement,
  and in \<open>S_Wait\<close> the generation of the \<open>done\<close> channel that the \<open>select\<close> waits for; a replaced one is
  closed. \<open>S_Panic\<close> is the close of a closed channel.
\<close>

datatype sub_pc =
    S_Top nat "client_error option"
  | S_Clean nat
  | S_Append nat
  | S_Pend nat ptr
  | S_Write nat ptr ptr
  | S_Wait nat ptr ptr nat
  | S_Forget nat ptr sub_after
  | S_Remove nat ptr sub_after
  | S_Off nat ptr sub_after
  | S_CloseChan nat ptr sub_after
  | S_Returned "client_error + ptr"
  | S_Panic

definition register :: "string \<Rightarrow> nat \<Rightarrow> client \<Rightarrow> client" where
  "register t cap c = c\<lparr>sub_obj := (sub_obj c)(next_sub c := new_subscription t cap), next_sub := next_sub c + 1,
     subs := subs c @ [next_sub c]\<rparr>"

fun resume :: "nat \<Rightarrow> sub_after \<Rightarrow> sub_pc" where
  "resume n (Retry err) = S_Top (Suc n) (Some err)"
| "resume n (Abort err) = S_Returned (Inl err)"

inductive sub_step :: "bool \<Rightarrow> nat \<Rightarrow> string \<Rightarrow> nat \<Rightarrow> sub_pc \<Rightarrow> client \<Rightarrow> sub_pc \<Rightarrow> client \<Rightarrow> bool"
  for locked :: bool and gen :: nat and t :: string and cap :: nat where
  s_exhausted: "\<not> n < maxRetries \<Longrightarrow>
    sub_step locked gen t cap (S_Top n e) c (S_Returned (Inl (SubscriptionFailed maxRetries e))) c"
| s_cancelled: "n < maxRetries \<Longrightarrow> sub_step locked gen t cap (S_Top n e) c (S_Returned (Inl (ContextError err))) c"
| s_begin: "n < maxRetries \<Longrightarrow> sub_step locked gen t cap (S_Top n e) c (if n > 0 then S_Clean n else S_Append n) c"
| s_clean: "sub_step locked gen t cap (S_Clean n) c (S_Append n) (drop_pending t c)"
| s_append: "\<not> locked \<Longrightarrow> sub_step locked gen t cap (S_Append n) c (S_Pend n (next_sub c)) (register t cap c)"
| s_pend: "sub_step locked gen t cap (S_Pend n p) c (S_Write n p (next_ack c)) (add_pending t (now + ackTimeout) c)"
| s_no_conn: "\<not> client_conn c \<Longrightarrow>
    sub_step locked gen t cap (S_Write n p a) c (S_Top (Suc n) (Some ConnectionNotAvailable)) c"
| s_write_fail: "client_conn c \<Longrightarrow>
    sub_step locked gen t cap (S_Write n p a) c (S_Forget n p (Retry (FailedToSendSub err))) c"
| s_write: "client_conn c \<Longrightarrow> sub_step locked gen t cap (S_Write n p a) c (S_Wait n p a gen)
    (c\<lparr>outgoing := outgoing c @ [Encode (NewMessageCmd CmdSub t [])]\<rparr>)"
| s_acked: "acked (ack_obj c a) \<Longrightarrow> sub_step locked gen t cap (S_Wait n p a d) c (S_Returned (Inr p)) c"
| s_timeout: "sub_step locked gen t cap (S_Wait n p a d) c (S_Forget n p (Retry AckTimeoutError)) c"
| s_context: "sub_step locked gen t cap (S_Wait n p a d) c (S_Forget n p (Abort (ContextError err))) c"
| s_done: "c_done c \<or> d < gen \<Longrightarrow> sub_step locked gen t cap (S_Wait n p a d) c (S_Returned (Inl ConnectionClosed)) c"
| s_forget: "sub_step locked gen t cap (S_Forget n p k) c (S_Remove n p k) (forget_pending t c)"
| s_remove: "\<not> locked \<Longrightarrow> sub_step locked gen t cap (S_Remove n p k) c (S_Off n p k) (removeSubscription p c)"
| s_off: "sub_step locked gen t cap (S_Off n p k) c (S_CloseChan n p k) (on_sub p (\<lambda>s. s\<lparr>active := False\<rparr>) c)"
| s_close: "\<not> chan_closed (msgChan (sub_obj c p)) \<Longrightarrow>
    sub_step locked gen t cap (S_CloseChan n p k) c (resume n k) (on_sub p close_msgChan c)"
| s_panic: "chan_closed (msgChan (sub_obj c p)) \<Longrightarrow> sub_step locked gen t cap (S_CloseChan n p k) c S_Panic c"

section \<open>Unsubscribe calls\<close>

text \<open>
  \<open>closeOnce.Do\<close> lets the first caller in and makes every other one wait until it has returned (\<open>inside\<close>
  says that a call for this subscription is in). \<open>wg.Wait()\<close> waits for the goroutine of the subscription.
\<close>

datatype unsub_pc =
    U_Once | U_Load | U_Store | U_Close | U_WaitProc | U_Write | U_Remove
  | U_Returned "client_error option"
  | U_Panic

inductive unsub_step :: "bool \<Rightarrow> bool \<Rightarrow> ptr \<Rightarrow> unsub_pc \<Rightarrow> client \<Rightarrow> unsub_pc \<Rightarrow> client \<Rightarrow> bool"
  for locked :: bool and inside :: bool and p :: ptr where
  u_first: "\<not> sub_closeOnce (sub_obj c p) \<Longrightarrow>
    unsub_step locked inside p U_Once c U_Load (on_sub p (\<lambda>s. s\<lparr>sub_closeOnce := True\<rparr>) c)"
| u_again: "sub_closeOnce (sub_obj c p) \<Longrightarrow> \<not> inside \<Longrightarrow> unsub_step locked inside p U_Once c (U_Returned None) c"
| u_inactive: "\<not> active (sub_obj c p) \<Longrightarrow> unsub_step locked inside p U_Load c (U_Returned None) c"
| u_active: "active (sub_obj c p) \<Longrightarrow> unsub_step locked inside p U_Load c U_Store c"
| u_store: "unsub_step locked inside p U_Store c U_Close (on_sub p (\<lambda>s. s\<lparr>active := False\<rparr>) c)"
| u_close: "\<not> chan_closed (msgChan (sub_obj c p)) \<Longrightarrow>
    unsub_step locked inside p U_Close c U_WaitProc (on_sub p close_msgChan c)"
| u_panic: "chan_closed (msgChan (sub_obj c p)) \<Longrightarrow> unsub_step locked inside p U_Close c U_Panic c"
| u_wait: "\<not> processing (sub_obj c p) \<Longrightarrow> unsub_step locked inside p U_WaitProc c U_Write c"
| u_no_conn: "\<not> client_conn c \<Longrightarrow> unsub_step locked inside p U_Write c U_Remove c"
| u_write_fail: "client_conn c \<Longrightarrow> unsub_step locked inside p U_Write c (U_Returned (Some (WriteError err))) c"
| u_write: "client_conn c \<Longrightarrow> unsub_step locked inside p U_Write c U_Remove
    (c\<lparr>outgoing := outgoing c @ [Encode (NewMessageCmd CmdUnsub (sub_subject (sub_obj c p)) [])]\<rparr>)"
| u_remove: "\<not> locked \<Longrightarrow> unsub_step locked inside p U_Remove c (U_Returned None) (removeSubscription p c)"

section \<open>The receive loop\<close>

text \<open>
  \<open>L_Top\<close> looks at \<open>done\<close> and the context, \<open>L_Reading\<close> is inside \<open>ParseFromReader\<close>. For a MSG the loop goes
  over the subscriptions with the read lock held: \<open>L_Next\<close> decides about the next one, \<open>L_Try\<close> and
  \<open>L_Send\<close> are the two accesses of \<open>TryEnqueue\<close>. After \<open>L_Ended\<close> only the deferred functions are left.
\<close>

datatype recv_pc =
    L_Top | L_Reading
  | L_Next message "ptr list"
  | L_Try message ptr "ptr list"
  | L_Send message ptr "ptr list"
  | L_Ended

fun holds_lock :: "recv_pc \<Rightarrow> bool" where
  "holds_lock (L_Next m ps) = True"
| "holds_lock (L_Try m p ps) = True"
| "holds_lock (L_Send m p ps) = True"
| "holds_lock pc = False"

text \<open>The send of \<open>TryEnqueue\<close>, after the flag was read.\<close>

definition enqueue :: "client_message \<Rightarrow> subscription \<Rightarrow> subscription" where
  "enqueue msg s =
     (case try_send msg (msgChan s) of
        (c, Sent) \<Rightarrow> s\<lparr>msgChan := c\<rparr>
      | (c, Full) \<Rightarrow> s\<lparr>droppedCount := wrap64 (droppedCount s + 1)\<rparr>
      | (c, SendPanic) \<Rightarrow> s)"

text \<open>What a step shows: the subject of an OK message, or a message that a subscription's channel took.\<close>

datatype recv_event = NoEvent | HandledOk string | Accepted ptr client_message

inductive recv_step :: "recv_pc \<Rightarrow> client \<Rightarrow> recv_pc \<Rightarrow> client \<Rightarrow> recv_event \<Rightarrow> bool" where
  l_stop: "c_done c \<or> ctx_done c \<Longrightarrow> recv_step L_Top c L_Ended c NoEvent"
| l_read: "\<not> c_done c \<Longrightarrow> \<not> ctx_done c \<Longrightarrow> client_conn c \<Longrightarrow> recv_step L_Top c L_Reading c NoEvent"
| l_no_conn: "\<not> c_done c \<Longrightarrow> \<not> ctx_done c \<Longrightarrow> \<not> client_conn c \<Longrightarrow>
    recv_step L_Top c L_Ended (triggerConnectionLost c) NoEvent"
| l_error: "recv_step L_Reading c L_Ended
    (triggerConnectionLost (c\<lparr>connectionErrors := wrap64 (connectionErrors c + 1)\<rparr>)) NoEvent"
| l_msg: "Command m = CmdMsg \<Longrightarrow> recv_step L_Reading c (L_Next m (subs c)) c NoEvent"
| l_ok: "Command m = CmdOk \<Longrightarrow> recv_step L_Reading c L_Top (handleMessage now m c) (HandledOk (Subject m))"
| l_other: "Command (m :: message) \<noteq> CmdMsg \<Longrightarrow> Command m \<noteq> CmdOk \<Longrightarrow> recv_step L_Reading c L_Top c NoEvent"
| l_finish: "recv_step (L_Next m []) c L_Top c NoEvent"
| l_hit: "active (sub_obj c p) \<and> matchSubject (sub_subject (sub_obj c p)) (Subject m) \<Longrightarrow>
    recv_step (L_Next m (p # ps)) c (L_Try m p ps) c NoEvent"
| l_skip: "\<not> (active (sub_obj c p) \<and> matchSubject (sub_subject (sub_obj c p)) (Subject m)) \<Longrightarrow>
    recv_step (L_Next m (p # ps)) c (L_Next m ps) c NoEvent"
| l_inactive: "\<not> active (sub_obj c p) \<Longrightarrow> recv_step (L_Try m p ps) c (L_Next m ps) c NoEvent"
| l_active: "active (sub_obj c p) \<Longrightarrow> recv_step (L_Try m p ps) c (L_Send m p ps) c NoEvent"
| l_send: "recv_step (L_Send m p ps) c (L_Next m ps) (on_sub p (enqueue (as_client_message m)) c)
    (if snd (try_send (as_client_message m) (msgChan (sub_obj c p))) = Sent
     then Accepted p (as_client_message m) else NoEvent)"

section \<open>Closing\<close>

text \<open>\<open>closing\<close> says that another call is inside \<open>closeOnce.Do\<close>, \<open>loops\<close> that the receive loop or the heartbeat runs.\<close>

datatype close_pc =
    K_Once | K_Cancel | K_Done | K_WaitLoops | K_Subs | K_Pending | K_Conn
  | K_Returned "client_error option"

inductive close_step :: "bool \<Rightarrow> bool \<Rightarrow> bool \<Rightarrow> close_pc \<Rightarrow> client \<Rightarrow> close_pc \<Rightarrow> client \<Rightarrow> bool"
  for locked :: bool and closing :: bool and loops :: bool where
  k_first: "\<not> c_closeOnce c \<Longrightarrow> close_step locked closing loops K_Once c K_Cancel (c\<lparr>c_closeOnce := True\<rparr>)"
| k_again: "c_closeOnce c \<Longrightarrow> \<not> closing \<Longrightarrow> close_step locked closing loops K_Once c (K_Returned None) c"
| k_cancel: "close_step locked closing loops K_Cancel c K_Done (c\<lparr>ctx_done := True\<rparr>)"
| k_done: "close_step locked closing loops K_Done c K_WaitLoops (c\<lparr>c_done := safeClose (c_done c)\<rparr>)"
| k_wait: "\<not> loops \<Longrightarrow> close_step locked closing loops K_WaitLoops c K_Subs c"
| k_subs: "\<not> locked \<Longrightarrow>
    close_step locked closing loops K_Subs c K_Pending ((deactivate_all (subs c) c)\<lparr>subs := []\<rparr>)"
| k_pending: "close_step locked closing loops K_Pending c K_Conn (clear_pending (pendingSubs c) c)"
| k_conn: "client_conn c \<Longrightarrow> close_step locked closing loops K_Conn c (K_Returned (map_option WriteError closeErr))
    (c\<lparr>client_conn_closed := True\<rparr>)"
| k_no_conn: "\<not> client_conn c \<Longrightarrow> close_step locked closing loops K_Conn c (K_Returned None) c"

section \<open>The reconnection\<close>

text \<open>
  The goroutine of \<open>reconnect\<close>: its loop (the number counts the failed attempts), \<open>doReconnect\<close> from
  \<open>G_Close\<close> to \<open>G_Dial\<close>, and the restoring of the subscriptions, where a number counts the attempts of
  \<open>restoreOneSubscription\<close>. \<open>G_Make\<close> is where the channels are replaced; the flag of a step says that the
  two loops are started.
\<close>

datatype redial_pc =
    G_None
  | G_Check nat | G_Sleep nat | G_Close nat | G_Wait nat | G_Make nat | G_Dial nat | G_Mark
  | G_Copy
  | G_Next "ptr list"
  | G_Send nat ptr "ptr list"
  | G_Write nat ptr ptr "ptr list"
  | G_Ack nat ptr ptr "ptr list"
  | G_Forget nat ptr "ptr list"
  | G_Again nat ptr "ptr list"
  | G_Fail ptr "ptr list"
  | G_Finish

definition restored :: "client \<Rightarrow> ptr \<Rightarrow> string" where
  "restored c p = sub_subject (sub_obj c p)"

inductive redial_step :: "bool \<Rightarrow> bool \<Rightarrow> redial_pc \<Rightarrow> client \<Rightarrow> redial_pc \<Rightarrow> client \<Rightarrow> bool \<Rightarrow> bool"
  for locked :: bool and loops :: bool where
  g_stop: "\<not> autoReconnect c \<or> c_done c \<Longrightarrow> redial_step locked loops (G_Check n) c G_Finish c False"
| g_sleep: "autoReconnect c \<Longrightarrow> \<not> c_done c \<Longrightarrow> redial_step locked loops (G_Check n) c (G_Sleep n) c False"
| g_wake: "redial_step locked loops (G_Sleep n) c (G_Close n) c False"
| g_close: "redial_step locked loops (G_Close n) c (G_Wait n)
    (c\<lparr>c_done := safeClose (c_done c), client_conn_closed := (client_conn c \<or> client_conn_closed c)\<rparr>) False"
| g_wait: "\<not> loops \<Longrightarrow> redial_step locked loops (G_Wait n) c (G_Make n) c False"
| g_make: "\<not> locked \<Longrightarrow> redial_step locked loops (G_Make n) c (G_Dial n)
    (c\<lparr>c_done := False, receiveLoopDone := False, heartbeatDone := False\<rparr>) False"
| g_fail: "redial_step locked loops (G_Dial n) c (G_Check (Suc n))
    (c\<lparr>connectionErrors := wrap64 (connectionErrors c + 1), reconnectCount := wrap64 (reconnectCount c + 1)\<rparr>) False"
| g_dial: "\<not> locked \<Longrightarrow> redial_step locked loops (G_Dial n) c G_Mark
    (c\<lparr>client_conn := True, client_conn_closed := False\<rparr>) True"
| g_mark: "redial_step locked loops G_Mark c G_Copy (c\<lparr>connectedAt := Some now, connectionLost := False\<rparr>) False"
| g_copy: "\<not> locked \<Longrightarrow> redial_step locked loops G_Copy c (G_Next (subs c)) c False"
| g_restored: "redial_step locked loops (G_Next []) c G_Finish c False"
| g_skip: "\<not> active (sub_obj c p) \<Longrightarrow> redial_step locked loops (G_Next (p # ps)) c (G_Next ps) c False"
| g_begin: "active (sub_obj c p) \<Longrightarrow> redial_step locked loops (G_Next (p # ps)) c (G_Send 0 p ps) c False"
| g_long: "length (restored c p) > MaxSubjectLen \<Longrightarrow> redial_step locked loops (G_Send n p ps) c (G_Again n p ps) c False"
| g_send: "length (restored c p) \<le> MaxSubjectLen \<Longrightarrow>
    redial_step locked loops (G_Send n p ps) c (G_Write n p (next_ack c) ps)
      (add_pending (restored c p) (now + ackTimeout) (drop_pending (restored c p) c)) False"
| g_write_fail: "redial_step locked loops (G_Write n p a ps) c (G_Forget n p ps) c False"
| g_write: "client_conn c \<Longrightarrow> redial_step locked loops (G_Write n p a ps) c (G_Ack n p a ps)
    (c\<lparr>outgoing := outgoing c @ [Encode (NewMessageCmd CmdSub (restored c p) [])]\<rparr>) False"
| g_acked: "acked (ack_obj c a) \<Longrightarrow> redial_step locked loops (G_Ack n p a ps) c (G_Next ps) c False"
| g_timeout: "redial_step locked loops (G_Ack n p a ps) c (G_Forget n p ps) c False"
| g_done: "c_done c \<Longrightarrow> redial_step locked loops (G_Ack n p a ps) c (G_Again n p ps) c False"
| g_forget: "redial_step locked loops (G_Forget n p ps) c (G_Again n p ps) (forget_pending (restored c p) c) False"
| g_give_up: "c_done c \<or> ctx_done c \<or> \<not> Suc n < maxRetries \<Longrightarrow>
    redial_step locked loops (G_Again n p ps) c (G_Fail p ps) c False"
| g_retry: "\<not> c_done c \<Longrightarrow> \<not> ctx_done c \<Longrightarrow> Suc n < maxRetries \<Longrightarrow>
    redial_step locked loops (G_Again n p ps) c (G_Send (Suc n) p ps) c False"
| g_failed: "redial_step locked loops (G_Fail p ps) c (G_Next ps)
    (on_sub p (\<lambda>s. s\<lparr>active := False\<rparr>) (c\<lparr>subscriptionErrors := wrap64 (subscriptionErrors c + 1)\<rparr>)) False"
| g_finish: "redial_step locked loops G_Finish c G_None (c\<lparr>reconnecting := False\<rparr>) False"

section \<open>The running client\<close>

datatype call =
    Idle
  | Subscribing string nat sub_pc
  | Unsubscribing ptr unsub_pc
  | Closing close_pc

text \<open>
  A goroutine of the client: after the \<open>go\<close> statement it first calls \<open>c.wg.Add(1)\<close> and reads the channel
  that it is going to close (its generation); at the end it closes that channel and calls \<open>c.wg.Done()\<close>.
\<close>

datatype 'a loop = Off | Started | Running nat 'a | Stopping nat | Stopped | LoopPanic

fun in_group :: "'a loop \<Rightarrow> bool" where
  "in_group (Running g pc) = True"
| "in_group (Stopping g) = True"
| "in_group l = False"

text \<open>
  The state: the client, the generation of its channels, the calls, in which subscription's callback a
  call was made (if in one), the receive loops and heartbeats started so far, which of their channels
  are closed, and the reconnection. Ghost fields record the subjects of the OK messages handled
  and the messages that each subscription's channel accepted.
\<close>

record csys =
  cc :: client
  gen :: nat
  calls :: "nat \<Rightarrow> call"
  origin :: "nat \<Rightarrow> ptr option"
  recv :: "nat \<Rightarrow> recv_pc loop"
  beat :: "nat \<Rightarrow> unit loop"
  recv_closed :: "nat \<Rightarrow> bool"
  beat_closed :: "nat \<Rightarrow> bool"
  redial :: redial_pc
  oks :: "string list"
  taken :: "ptr \<Rightarrow> client_message list"

definition given :: "csys \<Rightarrow> ptr \<Rightarrow> bool" where
  "given st p \<longleftrightarrow> (\<exists>i t cap. calls st i = Subscribing t cap (S_Returned (Inr p)))"

fun inside_once :: "unsub_pc \<Rightarrow> bool" where
  "inside_once U_Once = False"
| "inside_once (U_Returned e) = False"
| "inside_once pc = True"

fun inside_close :: "close_pc \<Rightarrow> bool" where
  "inside_close K_Once = False"
| "inside_close (K_Returned e) = False"
| "inside_close pc = True"

definition unsub_inside :: "csys \<Rightarrow> ptr \<Rightarrow> bool" where
  "unsub_inside st p \<longleftrightarrow> (\<exists>i pc. calls st i = Unsubscribing p pc \<and> inside_once pc)"

definition close_inside :: "csys \<Rightarrow> bool" where
  "close_inside st \<longleftrightarrow> (\<exists>i pc. calls st i = Closing pc \<and> inside_close pc)"

definition locked :: "csys \<Rightarrow> bool" where
  "locked st \<longleftrightarrow> (\<exists>k g pc. recv st k = Running g pc \<and> holds_lock pc)"

definition loops_run :: "csys \<Rightarrow> bool" where
  "loops_run st \<longleftrightarrow> (\<exists>k. in_group (recv st k) \<or> in_group (beat st k))"

fun returned :: "call \<Rightarrow> bool" where
  "returned Idle = True"
| "returned (Subscribing t cap pc) = (\<exists>res. pc = S_Returned res)"
| "returned (Unsubscribing p pc) = (\<exists>e. pc = U_Returned e)"
| "returned (Closing pc) = (\<exists>e. pc = K_Returned e)"

text \<open>
  A callback that made a call which has not returned keeps the goroutine of its subscription busy. Only a
  goroutine that runs, has passed a message to its callback and is not busy can make a call.
\<close>

definition callback_busy :: "csys \<Rightarrow> ptr \<Rightarrow> bool" where
  "callback_busy st p \<longleftrightarrow> (\<exists>i. origin st i = Some p \<and> \<not> returned (calls st i))"

definition caller_free :: "csys \<Rightarrow> ptr option \<Rightarrow> bool" where
  "caller_free st caller \<longleftrightarrow> (case caller of
      None \<Rightarrow> True
    | Some p \<Rightarrow> p < next_sub (cc st) \<and> processing (sub_obj (cc st) p) \<and> handled (sub_obj (cc st) p) \<noteq> [] \<and>
        \<not> callback_busy st p)"

definition begin_call :: "nat \<Rightarrow> call \<Rightarrow> ptr option \<Rightarrow> csys \<Rightarrow> csys" where
  "begin_call i k caller st = st\<lparr>calls := (calls st)(i := k), origin := (origin st)(i := caller)\<rparr>"

text \<open>A change of the client; the reconnection starts when \<open>triggerConnectionLost\<close> has started its goroutine.\<close>

definition with_client :: "client \<Rightarrow> csys \<Rightarrow> csys" where
  "with_client c' st = st\<lparr>cc := c',
     redial := (if reconnect_runs c' \<noteq> reconnect_runs (cc st) then G_Check 0 else redial st)\<rparr>"

fun record_event :: "recv_event \<Rightarrow> csys \<Rightarrow> csys" where
  "record_event NoEvent st = st"
| "record_event (HandledOk u) st = st\<lparr>oks := oks st @ [u]\<rparr>"
| "record_event (Accepted p m) st = st\<lparr>taken := (taken st)(p := taken st p @ [m])\<rparr>"

inductive cstep :: "csys \<Rightarrow> csys \<Rightarrow> bool" where
  c_subscribe: "calls st i = Idle \<Longrightarrow> length t \<le> MaxSubjectLen \<Longrightarrow> caller_free st caller \<Longrightarrow>
    cstep st (begin_call i (Subscribing t cap (S_Top 0 None)) caller st)"
| c_unsubscribe: "calls st i = Idle \<Longrightarrow> given st p \<Longrightarrow> caller_free st caller \<Longrightarrow>
    cstep st (begin_call i (Unsubscribing p U_Once) caller st)"
| c_closing: "calls st i = Idle \<Longrightarrow> caller_free st caller \<Longrightarrow> cstep st (begin_call i (Closing K_Once) caller st)"
| c_sub: "calls st i = Subscribing t cap pc \<Longrightarrow> sub_step (locked st) (gen st) t cap pc (cc st) pc' c' \<Longrightarrow>
    cstep st (st\<lparr>cc := c', calls := (calls st)(i := Subscribing t cap pc')\<rparr>)"
| c_unsub: "calls st i = Unsubscribing p pc \<Longrightarrow>
    unsub_step (locked st) (unsub_inside st p) p pc (cc st) pc' c' \<Longrightarrow>
    cstep st (st\<lparr>cc := c', calls := (calls st)(i := Unsubscribing p pc')\<rparr>)"
| c_close: "calls st i = Closing pc \<Longrightarrow>
    close_step (locked st) (close_inside st) (loops_run st) pc (cc st) pc' c' \<Longrightarrow>
    cstep st (st\<lparr>cc := c', calls := (calls st)(i := Closing pc')\<rparr>)"
| c_recv_enter: "recv st k = Started \<Longrightarrow> cstep st (st\<lparr>recv := (recv st)(k := Running (gen st) L_Top)\<rparr>)"
| c_recv: "recv st k = Running g pc \<Longrightarrow> recv_step pc (cc st) pc' c' ev \<Longrightarrow>
    cstep st (record_event ev (with_client c'
      (st\<lparr>recv := (recv st)(k := (if pc' = L_Ended then Stopping g else Running g pc'))\<rparr>)))"
| c_recv_exit: "recv st k = Stopping g \<Longrightarrow> \<not> recv_closed st g \<Longrightarrow>
    cstep st (st\<lparr>recv := (recv st)(k := Stopped), recv_closed := (recv_closed st)(g := True),
      cc := (if g = gen st then (cc st)\<lparr>receiveLoopDone := True\<rparr> else cc st)\<rparr>)"
| c_recv_panic: "recv st k = Stopping g \<Longrightarrow> recv_closed st g \<Longrightarrow>
    cstep st (st\<lparr>recv := (recv st)(k := LoopPanic)\<rparr>)"
| c_beat_enter: "beat st k = Started \<Longrightarrow> cstep st (st\<lparr>beat := (beat st)(k := Running (gen st) ())\<rparr>)"
| c_beat: "beat st k = Running g u \<Longrightarrow> heartbeat_body w (cc st) = (c', goOn) \<Longrightarrow>
    cstep st (with_client (c'\<lparr>heartbeatDone := heartbeatDone (cc st)\<rparr>)
      (st\<lparr>beat := (beat st)(k := (if goOn then Running g () else Stopping g))\<rparr>))"
| c_beat_exit: "beat st k = Stopping g \<Longrightarrow> \<not> beat_closed st g \<Longrightarrow>
    cstep st (st\<lparr>beat := (beat st)(k := Stopped), beat_closed := (beat_closed st)(g := True),
      cc := (if g = gen st then (cc st)\<lparr>heartbeatDone := True\<rparr> else cc st)\<rparr>)"
| c_beat_panic: "beat st k = Stopping g \<Longrightarrow> beat_closed st g \<Longrightarrow>
    cstep st (st\<lparr>beat := (beat st)(k := LoopPanic)\<rparr>)"
| c_monitor: "cstep st (with_client (MonitorConnection w (cc st)) st)"
| c_publish: "PublishWithContext x w t b (cc st) = (c', res) \<Longrightarrow> cstep st (with_client c' st)"
| c_enable: "cstep st (st\<lparr>cc := EnableAutoReconnect d (cc st)\<rparr>)"
| c_disable: "cstep st (st\<lparr>cc := DisableAutoReconnect (cc st)\<rparr>)"
| c_expire: "cstep st (st\<lparr>cc := (cc st)\<lparr>ctx_done := True\<rparr>\<rparr>)"
| c_process: "p < next_sub (cc st) \<Longrightarrow> process_one (sub_obj (cc st) p) = Some s' \<Longrightarrow> \<not> callback_busy st p \<Longrightarrow>
    cstep st (st\<lparr>cc := on_sub p (\<lambda>_. s') (cc st)\<rparr>)"
| c_redial: "redial_step (locked st) (loops_run st) (redial st) (cc st) pc' c' False \<Longrightarrow>
    cstep st (st\<lparr>cc := c', redial := pc',
      gen := (case redial st of G_Make n \<Rightarrow> Suc (gen st) | _ \<Rightarrow> gen st)\<rparr>)"
| c_redialled: "redial_step (locked st) (loops_run st) (redial st) (cc st) pc' c' True \<Longrightarrow>
    recv st k = Off \<Longrightarrow> beat st k = Off \<Longrightarrow>
    cstep st (st\<lparr>cc := c', redial := pc', recv := (recv st)(k := Started), beat := (beat st)(k := Started)\<rparr>)"

text \<open>The client as \<open>ConnectWithContext\<close> returns it, the goroutines of its two loops started.\<close>

definition cstart :: "csys \<Rightarrow> bool" where
  "cstart st \<longleftrightarrow> (\<exists>(mk :: bytes \<Rightarrow> string + bytes) r now sh ah address key.
      ConnectWithContext None mk r now sh ah address key = Inr (cc st)) \<and> gen st = 0 \<and>
    (\<forall>i. calls st i = Idle) \<and> (\<forall>i. origin st i = None) \<and>
    (\<forall>k. recv st k = (if k = 0 then Started else Off)) \<and> (\<forall>k. beat st k = (if k = 0 then Started else Off)) \<and>
    (\<forall>g. \<not> recv_closed st g) \<and> (\<forall>g. \<not> beat_closed st g) \<and> redial st = G_None \<and>
    oks st = [] \<and> (\<forall>p. taken st p = [])"

end
