(* ===== verification/Client_Concurrency.thy ===== *)
theory Client_Concurrency
  imports Client_System
begin

text \<open>
  What the interleavings of theory \<open>Client_System\<close> can and cannot do: no call of the application closes a
  closed channel, the messages that a subscription accepted are handled once and in order, and the
  guarantees of an acknowledged subscription, with the exceptions that the code has.
\<close>

section \<open>What the steps change\<close>

text \<open>A change of a subscription object that leaves its channel, its goroutine and its \<open>closeOnce\<close> alone.\<close>

definition calm :: "subscription \<Rightarrow> subscription \<Rightarrow> bool" where
  "calm s s' \<longleftrightarrow> msgChan s' = msgChan s \<and> handled s' = handled s \<and> processing s' = processing s \<and>
     sub_closeOnce s' = sub_closeOnce s \<and> sub_subject s' = sub_subject s"

definition quiet :: "client \<Rightarrow> client \<Rightarrow> bool" where
  "quiet c c' \<longleftrightarrow> next_sub c' = next_sub c \<and> set (subs c') \<subseteq> set (subs c) \<and> (\<forall>q. calm (sub_obj c q) (sub_obj c' q))"

lemma calm_refl [simp]: "calm s s" and calm_inactive [simp]: "calm s (s\<lparr>active := False\<rparr>)"
  by (simp_all add: calm_def)

lemma calm_trans: "calm s s1 \<Longrightarrow> calm s1 s2 \<Longrightarrow> calm s s2"
  by (simp add: calm_def)

lemma quiet_trans: "quiet c c1 \<Longrightarrow> quiet c1 c2 \<Longrightarrow> quiet c c2"
  by (auto simp: quiet_def intro: calm_trans)

lemma quiet_same: "next_sub c' = next_sub c \<Longrightarrow> set (subs c') \<subseteq> set (subs c) \<Longrightarrow> sub_obj c' = sub_obj c \<Longrightarrow> quiet c c'"
  by (simp add: quiet_def)

lemma quiet_refl [simp]: "quiet c c"
  by (simp add: quiet_same)

lemma quiet_inactive: "quiet c (on_sub p (\<lambda>s. s\<lparr>active := False\<rparr>) c)"
  by (simp add: quiet_def on_sub_def)

lemma deactivate_quiet: "quiet c (deactivate_all ps c)"
proof (induction ps arbitrary: c)
  case (Cons p ps)
  show ?case
    using quiet_trans [OF quiet_inactive [of c p] Cons.IH] by simp
qed simp

lemma clear_pending_next [simp]: "next_sub (clear_pending es c) = next_sub c"
  by (induction es c rule: clear_pending.induct) simp_all

lemma pending_quiet [simp]:
  "quiet c (drop_pending t c)" "quiet c (forget_pending t c)" "quiet c (add_pending t d c)"
  "quiet c (removeSubscription p c)" "quiet c (clear_pending es c)" "quiet c (triggerConnectionLost c)"
  "quiet c (c\<lparr>outgoing := ps\<rparr>)"
  by (auto intro!: quiet_same simp: forget_pending_def add_pending_def removeSubscription_def clear_pending_frame
      dest: set_remove1_subset [THEN subsetD])

lemma handle_quiet: "Command m = CmdOk \<Longrightarrow> quiet c (handleMessage now m c)"
  by (rule quiet_same) (simp_all add: handle_frame handle_other cmd_defs)

text \<open>The subscription of a subscribe call, from the append on; \<open>working\<close> until the call returns.\<close>

fun sub_of :: "sub_pc \<Rightarrow> ptr option" where
  "sub_of (S_Pend n p) = Some p"
| "sub_of (S_Write n p a) = Some p"
| "sub_of (S_Wait n p a d) = Some p"
| "sub_of (S_Forget n p k) = Some p"
| "sub_of (S_Remove n p k) = Some p"
| "sub_of (S_Off n p k) = Some p"
| "sub_of (S_CloseChan n p k) = Some p"
| "sub_of (S_Returned (Inr p)) = Some p"
| "sub_of pc = None"

fun working :: "sub_pc \<Rightarrow> bool" where
  "working (S_Returned res) = False"
| "working S_Panic = False"
| "working pc = True"

lemma resume_simps [simp]: "sub_of (resume n k) = None" "resume n k \<noteq> S_Panic"
  by (cases k; simp)+

lemma sub_step_effect:
  assumes "sub_step l g t cap pc c pc' c'"
  shows "working pc \<and>
    (quiet c c' \<and> sub_of pc' \<in> {sub_of pc, None} \<and> pc' \<noteq> S_Panic \<or>
     c' = register t cap c \<and> sub_of pc = None \<and> sub_of pc' = Some (next_sub c) \<and> working pc' \<or>
     (\<exists>p. sub_of pc = Some p \<and> \<not> chan_closed (msgChan (sub_obj c p)) \<and> c' = on_sub p close_msgChan c \<and>
        sub_of pc' = None \<and> pc' \<noteq> S_Panic) \<or>
     (\<exists>p. sub_of pc = Some p \<and> chan_closed (msgChan (sub_obj c p))))"
  using assms by cases (auto intro: quiet_inactive)

fun before_close :: "unsub_pc \<Rightarrow> bool" where
  "before_close U_Load = True"
| "before_close U_Store = True"
| "before_close U_Close = True"
| "before_close pc = False"

lemma before_close_inside: "before_close pc \<Longrightarrow> inside_once pc"
  by (cases pc) simp_all

lemma unsub_step_effect:
  assumes "unsub_step l inside p pc c pc' c'"
  shows "quiet c c' \<and> (inside_once pc' \<longrightarrow> inside_once pc) \<and> (before_close pc' \<longrightarrow> before_close pc) \<and> pc' \<noteq> U_Panic \<or>
    pc = U_Once \<and> pc' = U_Load \<and> \<not> sub_closeOnce (sub_obj c p) \<and> c' = on_sub p (\<lambda>s. s\<lparr>sub_closeOnce := True\<rparr>) c \<or>
    pc = U_Close \<and> pc' = U_WaitProc \<and> \<not> chan_closed (msgChan (sub_obj c p)) \<and> c' = on_sub p close_msgChan c \<or>
    pc = U_Close \<and> chan_closed (msgChan (sub_obj c p))"
  using assms by cases (auto intro: quiet_inactive)

lemma close_step_quiet: "close_step l k b pc c pc' c' \<Longrightarrow> quiet c c'"
proof (induction rule: close_step.induct)
  case (k_subs c)
  have "quiet (deactivate_all (subs c) c) ((deactivate_all (subs c) c)\<lparr>subs := []\<rparr>)"
    by (rule quiet_same) simp_all
  then show ?case
    using quiet_trans [OF deactivate_quiet] by blast
qed (auto intro: quiet_same)

lemma redial_step_quiet: "redial_step l b pc c pc' c' go \<Longrightarrow> quiet c c'"
proof (induction rule: redial_step.induct)
  case (g_send c p n ps now)
  show ?case by (rule quiet_trans [OF pending_quiet(1) pending_quiet(3)])
next
  case (g_failed p ps c)
  show ?case by (rule quiet_trans [OF quiet_same quiet_inactive]) simp_all
qed (auto intro: quiet_same)

lemma recv_step_effect:
  assumes "recv_step pc c pc' c' ev"
  shows "quiet c c' \<and> (\<forall>p m. ev \<noteq> Accepted p m) \<or>
    (\<exists>m p ps. pc = L_Send m p ps \<and> c' = on_sub p (enqueue (as_client_message m)) c \<and>
       ev = (if snd (try_send (as_client_message m) (msgChan (sub_obj c p))) = Sent
             then Accepted p (as_client_message m) else NoEvent))"
  using assms
proof cases
  case l_error
  then show ?thesis using quiet_trans [OF quiet_same pending_quiet(6)] by simp
qed (auto simp: handle_quiet)

lemma simple_quiet [simp]:
  "quiet c (MonitorConnection w c)" "quiet c (fst (PublishWithContext x w' t b c))" "quiet c (EnableAutoReconnect d c)"
  "quiet c (DisableAutoReconnect c)" "quiet c (fst (heartbeat_body w'' c))"
  by (auto intro!: quiet_same simp: MonitorConnection_def PublishWithContext_def EnableAutoReconnect_def
      DisableAutoReconnect_def heartbeat_body_def Let_def split: monitor_wake.splits option.splits)

section \<open>Calls never panic\<close>

text \<open>
  What a call has to do with subscriptions: the one that it made, the one whose channel it is still going
  to close, the one in whose \<open>closeOnce\<close> it is, the one that it returned, and the one it unsubscribes.
\<close>

fun made :: "call \<Rightarrow> ptr option" where
  "made (Subscribing t cap pc) = sub_of pc"
| "made k = None"

fun closes :: "call \<Rightarrow> ptr option" where
  "closes (Subscribing t cap pc) = (if working pc then sub_of pc else None)"
| "closes (Unsubscribing p pc) = (if before_close pc then Some p else None)"
| "closes k = None"

fun once_in :: "call \<Rightarrow> ptr option" where
  "once_in (Unsubscribing p pc) = (if inside_once pc then Some p else None)"
| "once_in k = None"

fun result_of :: "call \<Rightarrow> ptr option" where
  "result_of (Subscribing t cap (S_Returned (Inr p))) = Some p"
| "result_of k = None"

fun target :: "call \<Rightarrow> ptr option" where
  "target (Unsubscribing p pc) = Some p"
| "target k = None"

fun panicked :: "call \<Rightarrow> bool" where
  "panicked (Subscribing t cap pc) = (pc = S_Panic)"
| "panicked (Unsubscribing p pc) = (pc = U_Panic)"
| "panicked k = False"

abbreviation closed_sub :: "client \<Rightarrow> ptr \<Rightarrow> bool" where
  "closed_sub c p \<equiv> chan_closed (msgChan (sub_obj c p))"

lemma result_of_eq: "result_of k = Some p \<longleftrightarrow> (\<exists>t cap. k = Subscribing t cap (S_Returned (Inr p)))"
  by (cases k rule: result_of.cases) auto

lemma given_eq: "given st p \<longleftrightarrow> (\<exists>i. result_of (calls st i) = Some p)"
  by (simp add: given_def result_of_eq)

lemma unsub_inside_eq: "unsub_inside st p \<longleftrightarrow> (\<exists>i. once_in (calls st i) = Some p)"
proof -
  have "once_in k = Some p \<longleftrightarrow> (\<exists>pc. k = Unsubscribing p pc \<and> inside_once pc)" for k
    by (cases k) auto
  then show ?thesis by (simp add: unsub_inside_def)
qed

text \<open>
  Two forms of statements about all calls, and how they survive the update of one call: what every
  pointer of a kind satisfies, and that no two calls have the same.
\<close>

definition every :: "(call \<Rightarrow> ptr option) \<Rightarrow> (nat \<Rightarrow> call) \<Rightarrow> (ptr \<Rightarrow> bool) \<Rightarrow> bool" where
  "every f ks P \<longleftrightarrow> (\<forall>i p. f (ks i) = Some p \<longrightarrow> P p)"

definition unique :: "(call \<Rightarrow> ptr option) \<Rightarrow> (nat \<Rightarrow> call) \<Rightarrow> bool" where
  "unique f ks \<longleftrightarrow> (\<forall>i j p. f (ks i) = Some p \<longrightarrow> f (ks j) = Some p \<longrightarrow> i = j)"

lemma every_update:
  "every f ks P \<Longrightarrow> (\<And>p. f k' = Some p \<Longrightarrow> P' p) \<Longrightarrow> (\<And>j p. j \<noteq> i \<Longrightarrow> f (ks j) = Some p \<Longrightarrow> P p \<Longrightarrow> P' p) \<Longrightarrow>
    every f (ks(i := k')) P'"
  by (simp add: every_def)

lemma every_less: "every f ks P \<Longrightarrow> f k' \<in> {f (ks i), None} \<Longrightarrow> every f (ks(i := k')) P"
  by (fastforce simp: every_def)

lemma unique_less: "unique f ks \<Longrightarrow> f k' \<in> {f (ks i), None} \<Longrightarrow> unique f (ks(i := k'))"
  unfolding unique_def by (metis empty_iff fun_upd_apply insertE option.distinct(1))

lemma unique_new: "unique f ks \<Longrightarrow> f k' = Some q \<Longrightarrow> (\<And>j. f (ks j) \<noteq> Some q) \<Longrightarrow> unique f (ks(i := k'))"
  unfolding unique_def by (metis fun_upd_apply option.inject)

lemma everyD: "every f ks P \<Longrightarrow> f (ks i) = Some p \<Longrightarrow> P p"
  by (simp add: every_def)

lemma uniqueD: "unique f ks \<Longrightarrow> f (ks i) = Some p \<Longrightarrow> f (ks j) = Some p \<Longrightarrow> i = j"
  by (simp add: unique_def)

definition returned_subs :: "(nat \<Rightarrow> call) \<Rightarrow> ptr set" where
  "returned_subs ks = {p. \<exists>i. result_of (ks i) = Some p}"

lemma returned_subs_update: "result_of (ks i) = None \<Longrightarrow>
    returned_subs (ks(i := k')) = returned_subs ks \<union> set_option (result_of k')"
  unfolding returned_subs_def by auto (metis fun_upd_apply option.distinct(1))+

text \<open>
  A subscription has one subscribe call; the channel of a call that is still going to close it is
  open; one call at most is inside the \<open>closeOnce\<close> of a subscription; a subscription that was
  returned is closed only by its \<open>closeOnce\<close>.
\<close>

definition calls_ok :: "(nat \<Rightarrow> call) \<Rightarrow> client \<Rightarrow> bool" where
  "calls_ok ks c \<longleftrightarrow>
     every made ks (\<lambda>p. p < next_sub c) \<and> unique made ks \<and>
     every closes ks (\<lambda>p. \<not> closed_sub c p) \<and>
     every target ks (\<lambda>p. p \<in> returned_subs ks) \<and>
     every once_in ks (\<lambda>p. sub_closeOnce (sub_obj c p)) \<and> unique once_in ks \<and>
     every result_of ks (\<lambda>p. closed_sub c p \<longrightarrow> sub_closeOnce (sub_obj c p)) \<and>
     (\<forall>i. \<not> panicked (ks i))"

lemma made_result: "result_of k = Some p \<Longrightarrow> made k = Some p"
  by (auto simp: result_of_eq)

lemma once_target: "once_in k = Some p \<Longrightarrow> target k = Some p"
  by (cases k) (auto split: if_splits)

text \<open>Replacing a call by one that has less to do, with a quiet change of the client.\<close>

lemma calls_ok_quiet:
  assumes ok: "calls_ok ks c" and q: "quiet c c'"
    and le: "made k' \<in> {made (ks i), None}" "closes k' \<in> {closes (ks i), None}" "once_in k' \<in> {once_in (ks i), None}"
      "result_of k' \<in> {closes (ks i), None}" "result_of (ks i) = None" "\<not> panicked k'"
    and target: "\<And>p. target k' = Some p \<Longrightarrow> p \<in> returned_subs ks"
  shows "calls_ok (ks(i := k')) c'"
proof -
  have obs: "closed_sub c' p = closed_sub c p" "sub_closeOnce (sub_obj c' p) = sub_closeOnce (sub_obj c p)" for p
    using q by (simp_all add: quiet_def calm_def)
  have n: "next_sub c' = next_sub c"
    using q by (simp add: quiet_def)
  note o = ok [unfolded calls_ok_def]
  have res: "every result_of (ks(i := k')) (\<lambda>p. closed_sub c p \<longrightarrow> sub_closeOnce (sub_obj c p))"
    using o le(4) everyD [of closes ks "\<lambda>p. \<not> closed_sub c p" i]
    by (intro every_update [where P = "\<lambda>p. closed_sub c p \<longrightarrow> sub_closeOnce (sub_obj c p)"]) auto
  have tar: "every target (ks(i := k')) (\<lambda>p. p \<in> returned_subs (ks(i := k')))"
    using o target returned_subs_update [of ks i k', OF le(5)]
    by (auto intro!: every_update [where P = "\<lambda>p. p \<in> returned_subs ks"])
  show ?thesis
    using o le res tar unfolding calls_ok_def obs n by (simp add: every_less unique_less)
qed

text \<open>The pointers of the calls are allocated, so that only the allocated objects matter.\<close>

lemma calls_allocated:
  assumes "calls_ok ks c"
  shows "every made ks (\<lambda>p. p < next_sub c)" "every result_of ks (\<lambda>p. p < next_sub c)"
    "every target ks (\<lambda>p. p < next_sub c)" "every once_in ks (\<lambda>p. p < next_sub c)"
    "every closes ks (\<lambda>p. p < next_sub c)"
proof -
  note o = assms [unfolded calls_ok_def]
  show m: "every made ks (\<lambda>p. p < next_sub c)" using o by blast
  then show r: "every result_of ks (\<lambda>p. p < next_sub c)"
    using made_result by (auto simp: every_def)
  then show t: "every target ks (\<lambda>p. p < next_sub c)"
    using o unfolding every_def returned_subs_def by blast
  then show "every once_in ks (\<lambda>p. p < next_sub c)"
    using once_target by (auto simp: every_def)
  have "closes k = Some p \<Longrightarrow> made k = Some p \<or> target k = Some p" for k p
    by (cases k) (auto split: if_splits)
  then show "every closes ks (\<lambda>p. p < next_sub c)"
    using m t unfolding every_def by blast
qed

lemma every_allocated:
  "every f ks (\<lambda>p. p < n) \<Longrightarrow> every f ks P \<Longrightarrow> (\<And>p. p < n \<Longrightarrow> P p \<Longrightarrow> P' p) \<Longrightarrow> every f ks P'"
  by (simp add: every_def)

lemma calls_ok_agree:
  assumes ok: "calls_ok ks c" and "next_sub c \<le> next_sub c'"
    and same: "\<And>p. p < next_sub c \<Longrightarrow> sub_obj c' p = sub_obj c p"
  shows "calls_ok ks c'"
proof -
  note o = ok [unfolded calls_ok_def]
  note a = calls_allocated [OF ok, THEN every_allocated]
  show ?thesis
    unfolding calls_ok_def
    using o assms(2) same
      a(1) [of "\<lambda>p. p < next_sub c" "\<lambda>p. p < next_sub c'"]
      a(5) [of "\<lambda>p. \<not> closed_sub c p" "\<lambda>p. \<not> closed_sub c' p"]
      a(4) [of "\<lambda>p. sub_closeOnce (sub_obj c p)" "\<lambda>p. sub_closeOnce (sub_obj c' p)"]
      a(2) [of "\<lambda>p. closed_sub c p \<longrightarrow> sub_closeOnce (sub_obj c p)"
        "\<lambda>p. closed_sub c' p \<longrightarrow> sub_closeOnce (sub_obj c' p)"]
    by simp
qed

text \<open>A subscribe call that creates its subscription.\<close>

lemma calls_ok_register:
  assumes ok: "calls_ok ks c"
    and k: "made k' = Some (next_sub c)" "closes k' = Some (next_sub c)" "once_in k' = None" "result_of k' = None"
      "target k' = None" "\<not> panicked k'" "result_of (ks i) = None"
  shows "calls_ok (ks(i := k')) (register t cap c)"
proof -
  let ?c = "register t cap c"
  have f: "next_sub ?c = next_sub c + 1" "\<not> closed_sub ?c (next_sub c)"
    by (simp_all add: register_def new_subscription_def startProcessing_def make_chan_def)
  have o: "calls_ok ks ?c"
    by (rule calls_ok_agree [OF ok]) (simp_all add: register_def)
  have new: "made (ks j) \<noteq> Some (next_sub c)" for j
    using everyD [OF calls_allocated(1) [OF ok]] by blast
  have m: "every made (ks(i := k')) (\<lambda>p. p < next_sub ?c)" "every closes (ks(i := k')) (\<lambda>p. \<not> closed_sub ?c p)"
    using o k(1,2) f unfolding calls_ok_def by (auto intro: every_update)
  have "unique made (ks(i := k'))"
    using o k(1) new unfolding calls_ok_def by (auto intro: unique_new)
  with m show ?thesis
    using o k unfolding calls_ok_def by (simp add: every_less unique_less returned_subs_update)
qed

text \<open>A call that closes the channel of its subscription.\<close>

lemma calls_ok_close:
  assumes ok: "calls_ok ks c" and mine: "closes (ks i) = Some p" "closes k' = None"
    and k: "made k' \<in> {made (ks i), None}" "once_in k' \<in> {once_in (ks i), None}" "target k' \<in> {target (ks i), None}"
      "result_of k' = None" "\<not> panicked k'" "result_of (ks i) = None"
    and other: "\<And>j. j \<noteq> i \<Longrightarrow> closes (ks j) \<noteq> Some p"
    and once: "p \<in> returned_subs ks \<Longrightarrow> sub_closeOnce (sub_obj c p)"
  shows "calls_ok (ks(i := k')) (on_sub p close_msgChan c)"
proof -
  let ?c = "on_sub p close_msgChan c"
  have f: "next_sub ?c = next_sub c" "closed_sub ?c q \<longleftrightarrow> q = p \<or> closed_sub c q"
    "sub_closeOnce (sub_obj ?c q) = sub_closeOnce (sub_obj c q)" for q
    by (simp_all add: on_sub_def close_msgChan_def)
  note o = ok [unfolded calls_ok_def]
  have m: "every closes (ks(i := k')) (\<lambda>q. \<not> closed_sub ?c q)"
    using o mine other f by (intro every_update [where P = "\<lambda>q. \<not> closed_sub c q"]) auto
  have "every result_of (ks(i := k')) (\<lambda>q. closed_sub ?c q \<longrightarrow> sub_closeOnce (sub_obj c q))"
    using o k(4) f once
    by (intro every_update [where P = "\<lambda>q. closed_sub c q \<longrightarrow> sub_closeOnce (sub_obj c q)"])
      (auto simp: returned_subs_def)
  with m show ?thesis
    using o k f unfolding calls_ok_def by (simp add: every_less unique_less returned_subs_update)
qed

text \<open>The first unsubscribe call enters \<open>closeOnce\<close>.\<close>

lemma calls_ok_once:
  assumes ok: "calls_ok ks c" and i: "ks i = Unsubscribing p U_Once" and once: "\<not> sub_closeOnce (sub_obj c p)"
  shows "calls_ok (ks(i := Unsubscribing p U_Load)) (on_sub p (\<lambda>s. s\<lparr>sub_closeOnce := True\<rparr>) c)"
proof -
  let ?c = "on_sub p (\<lambda>s. s\<lparr>sub_closeOnce := True\<rparr>) c" and ?k = "Unsubscribing p U_Load"
  have f: "next_sub ?c = next_sub c" "closed_sub ?c q = closed_sub c q"
    "sub_closeOnce (sub_obj ?c q) \<longleftrightarrow> q = p \<or> sub_closeOnce (sub_obj c q)" for q
    by (simp_all add: on_sub_def)
  note o = ok [unfolded calls_ok_def]
  have "p \<in> returned_subs ks"
    using o everyD [of target ks _ i p] i by auto
  then have op: "\<not> closed_sub c p"
    using o once by (auto simp: returned_subs_def every_def)
  have no: "once_in (ks j) \<noteq> Some p" for j
    using o once everyD [of once_in ks] by blast
  have m: "every closes (ks(i := ?k)) (\<lambda>q. \<not> closed_sub c q)"
    using o op by (auto intro: every_update)
  have u: "unique once_in (ks(i := ?k))"
    using o no by (auto intro: unique_new)
  have t: "every once_in (ks(i := ?k)) (\<lambda>q. sub_closeOnce (sub_obj ?c q))"
    using o f by (auto intro: every_update)
  have "every result_of (ks(i := ?k)) (\<lambda>q. closed_sub c q \<longrightarrow> sub_closeOnce (sub_obj ?c q))"
    using o f by (auto intro: every_update)
  with m u t show ?thesis
    using o i unfolding calls_ok_def f(1,2) by (simp add: every_less unique_less returned_subs_update)
qed

section \<open>The steps keep it\<close>

lemma calls_okD:
  assumes "calls_ok ks c"
  shows "closes (ks i) = Some p \<Longrightarrow> \<not> closed_sub c p" "target (ks i) = Some p \<Longrightarrow> p \<in> returned_subs ks"
    "once_in (ks i) = Some p \<Longrightarrow> sub_closeOnce (sub_obj c p)" "made (ks i) = Some p \<Longrightarrow> made (ks j) = Some p \<Longrightarrow> i = j"
    "once_in (ks i) = Some p \<Longrightarrow> once_in (ks j) = Some p \<Longrightarrow> i = j" "\<not> panicked (ks i)"
  using assms unfolding calls_ok_def every_def unique_def by blast+

lemma working_simps: "working pc \<Longrightarrow> result_of (Subscribing t cap pc) = None"
  by (cases pc) simp_all

text \<open>The subscription of a call that works on it has not been returned to anybody.\<close>

lemma unreturned:
  assumes ok: "calls_ok ks c" and i: "made (ks i) = Some p" "result_of (ks i) = None"
  shows "p \<notin> returned_subs ks"
proof
  assume "p \<in> returned_subs ks"
  then obtain j where j: "result_of (ks j) = Some p" by (auto simp: returned_subs_def)
  then have "j = i" using calls_okD(4) [OF ok] i(1) made_result by blast
  with j i(2) show False by simp
qed

lemma closes_cases: "closes k = Some p \<Longrightarrow> made k = Some p \<or> target k = Some p \<and> once_in k = Some p"
  by (cases k) (auto split: if_splits dest: before_close_inside)

lemma calls_ok_sub:
  assumes ok: "calls_ok ks c" and i: "ks i = Subscribing t cap pc" and step: "sub_step l g t cap pc c pc' c'"
  shows "calls_ok (ks(i := Subscribing t cap pc')) c'"
proof -
  note e = sub_step_effect [OF step]
  have w: "working pc" and r: "result_of (ks i) = None" using e i working_simps by auto
  have cl: "closes (ks i) = sub_of pc" using i w by simp
  have nopanic: "\<not> closed_sub c p" if "sub_of pc = Some p" for p
    using calls_okD(1) [OF ok] cl that by simp
  have fresh: "p \<notin> returned_subs ks" if "sub_of pc = Some p" for p
    using unreturned [OF ok _ r] that i by simp
  have own: "closes (ks j) \<noteq> Some p" if "sub_of pc = Some p" "j \<noteq> i" for j p
    using closes_cases [of "ks j" p] calls_okD(2,4) [OF ok] fresh that i by auto
  consider
      (quiet) "quiet c c'" "sub_of pc' \<in> {sub_of pc, None}" "pc' \<noteq> S_Panic"
    | (register) "c' = register t cap c" "sub_of pc' = Some (next_sub c)" "working pc'"
    | (close) p where "sub_of pc = Some p" "c' = on_sub p close_msgChan c" "sub_of pc' = None" "pc' \<noteq> S_Panic"
    using e nopanic by blast
  then show ?thesis
  proof cases
    case quiet
    have "result_of (Subscribing t cap pc') \<in> {sub_of pc', None}"
      by (cases "Subscribing t cap pc'" rule: result_of.cases) auto
    then show ?thesis
      using quiet i w r cl by (intro calls_ok_quiet [OF ok]) auto
  next
    case register
    then have "pc' \<noteq> S_Panic" by auto
    then show ?thesis
      using register i r working_simps [of pc' t cap] by (auto intro!: calls_ok_register [OF ok])
  next
    case close
    have "result_of (Subscribing t cap pc') = None"
      using close(3) made_result [of "Subscribing t cap pc'"]
      by (cases "result_of (Subscribing t cap pc')") auto
    then show ?thesis
      unfolding close(2) using close(1,3,4) cl r i own fresh by (intro calls_ok_close [OF ok]) auto
  qed
qed

lemma calls_ok_unsub:
  assumes ok: "calls_ok ks c" and i: "ks i = Unsubscribing p pc" and step: "unsub_step l b p pc c pc' c'"
  shows "calls_ok (ks(i := Unsubscribing p pc')) c'"
proof -
  note e = unsub_step_effect [OF step]
  have t: "p \<in> returned_subs ks" using calls_okD(2) [OF ok, of i p] i by simp
  have nopanic: "\<not> closed_sub c p" if "pc = U_Close"
    using calls_okD(1) [OF ok, of i p] i that by simp
  consider
      (quiet) "quiet c c'" "inside_once pc' \<longrightarrow> inside_once pc" "before_close pc' \<longrightarrow> before_close pc" "pc' \<noteq> U_Panic"
    | (once) "pc = U_Once" "pc' = U_Load" "\<not> sub_closeOnce (sub_obj c p)"
        "c' = on_sub p (\<lambda>s. s\<lparr>sub_closeOnce := True\<rparr>) c"
    | (close) "pc = U_Close" "pc' = U_WaitProc" "c' = on_sub p close_msgChan c"
    using e nopanic by blast
  then show ?thesis
  proof cases
    case quiet
    then show ?thesis
      using i t by (intro calls_ok_quiet [OF ok]) auto
  next
    case once
    then show ?thesis using calls_ok_once [OF ok, of i p] i by simp
  next
    case close
    have me: "once_in (ks i) = Some p" using i close by simp
    have own: "closes (ks j) \<noteq> Some p" if "j \<noteq> i" for j
    proof
      assume "closes (ks j) = Some p"
      then consider "made (ks j) = Some p" "result_of (ks j) = None" | "once_in (ks j) = Some p"
        by (cases "ks j") (auto simp: working_simps split: if_splits dest: before_close_inside)
      then show False
        using unreturned [OF ok] calls_okD(5) [OF ok me] t that by cases auto
    qed
    show ?thesis
      unfolding close(3) using i close own calls_okD(3) [OF ok me] by (intro calls_ok_close [OF ok]) auto
  qed
qed

text \<open>Steps of the other goroutines change no call, and the objects at most in other fields.\<close>

definition same_close :: "client \<Rightarrow> client \<Rightarrow> bool" where
  "same_close c c' \<longleftrightarrow> next_sub c' = next_sub c \<and>
     (\<forall>p. closed_sub c' p = closed_sub c p \<and> sub_closeOnce (sub_obj c' p) = sub_closeOnce (sub_obj c p))"

lemma quiet_same_close: "quiet c c' \<Longrightarrow> same_close c c'"
  by (simp add: quiet_def calm_def same_close_def)

lemma calls_ok_same: "calls_ok ks c \<Longrightarrow> same_close c c' \<Longrightarrow> calls_ok ks c'"
  by (simp add: calls_ok_def same_close_def)

lemma offer_frame [simp]:
  "chan_closed (msgChan (enqueue m s)) = chan_closed (msgChan s)" "sub_closeOnce (enqueue m s) = sub_closeOnce s"
  "processing (enqueue m s) = processing s" "handled (enqueue m s) = handled s" "active (enqueue m s) = active s"
  "chan_cap (msgChan (enqueue m s)) = chan_cap (msgChan s)" "sub_subject (enqueue m s) = sub_subject s"
  by (auto simp: enqueue_def try_send_def)

lemma process_frame:
  "process_one s = Some s' \<Longrightarrow> chan_closed (msgChan s') = chan_closed (msgChan s) \<and> sub_closeOnce s' = sub_closeOnce s \<and>
     sub_subject s' = sub_subject s \<and> chan_cap (msgChan s') = chan_cap (msgChan s)"
  by (auto simp: process_one_def try_recv_def split: if_splits option.splits list.splits)

lemma recv_same_close: "recv_step pc c pc' c' ev \<Longrightarrow> same_close c c'"
  by (drule recv_step_effect)
    (auto simp: same_close_def on_sub_def dest: quiet_same_close [unfolded same_close_def] split: if_splits)

lemma event_frame [simp]:
  "cc (record_event ev st) = cc st" "calls (record_event ev st) = calls st" "origin (record_event ev st) = origin st"
  "cc (with_client c st) = c" "calls (with_client c st) = calls st" "origin (with_client c st) = origin st"
  by (cases ev; simp add: with_client_def)+

definition calls_inv :: "csys \<Rightarrow> bool" where
  "calls_inv st \<longleftrightarrow> calls_ok (calls st) (cc st)"

lemma calls_inv_start: "cstart st \<Longrightarrow> calls_inv st"
  by (auto simp: cstart_def calls_inv_def calls_ok_def every_def unique_def)

lemma begin_fields [simp]:
  "cc (begin_call i k caller st) = cc st" "calls (begin_call i k caller st) = (calls st)(i := k)"
  "origin (begin_call i k caller st) = (origin st)(i := caller)" "recv (begin_call i k caller st) = recv st"
  "beat (begin_call i k caller st) = beat st" "taken (begin_call i k caller st) = taken st"
  by (simp_all add: begin_call_def)

lemma begin_ok:
  assumes "calls_inv st" and "calls st i = Idle"
    and "k \<in> {Subscribing t cap (S_Top 0 None), Closing K_Once} \<or> k = Unsubscribing p U_Once \<and> given st p"
  shows "calls_inv (begin_call i k caller st)"
  using assms unfolding calls_inv_def
  by (auto intro!: calls_ok_quiet simp: given_eq returned_subs_def)

lemma calls_inv_same: "calls_inv st \<Longrightarrow> calls st' = calls st \<Longrightarrow> same_close (cc st) (cc st') \<Longrightarrow> calls_inv st'"
  unfolding calls_inv_def by (simp add: calls_ok_same)

lemma same_close_flags [simp]:
  "same_close c (c\<lparr>receiveLoopDone := b\<rparr>)" "same_close c (c\<lparr>heartbeatDone := b\<rparr>)" "same_close c (c\<lparr>ctx_done := b\<rparr>)"
  "same_close c c" "same_close c (c'\<lparr>heartbeatDone := b\<rparr>) = same_close c c'"
  by (simp_all add: same_close_def)

lemma same_close_simple [simp]:
  "same_close c (MonitorConnection w c)" "same_close c (EnableAutoReconnect d c)" "same_close c (DisableAutoReconnect c)"
  by (simp_all add: quiet_same_close)

lemma calls_inv_step:
  assumes "cstep st st'" and "calls_inv st"
  shows "calls_inv st'"
  using assms
proof (induction rule: cstep.induct)
  case (c_subscribe st i t caller cap)
  then show ?case by (blast intro: begin_ok)
next
  case (c_unsubscribe st i p caller)
  then show ?case by (blast intro: begin_ok)
next
  case (c_closing st i caller)
  then show ?case by (blast intro: begin_ok)
next
  case (c_sub st i t cap pc pc' c')
  then show ?case using calls_ok_sub by (simp add: calls_inv_def)
next
  case (c_unsub st i p pc pc' c')
  then show ?case using calls_ok_unsub by (simp add: calls_inv_def)
next
  case (c_close st i pc pc' c')
  then show ?case
    using calls_ok_quiet [of "calls st" "cc st" c' "Closing pc'" i] close_step_quiet by (simp add: calls_inv_def)
next
  case (c_recv st k g pc pc' c' ev)
  show ?case
    by (rule calls_inv_same [OF c_recv(3)]) (simp_all add: recv_same_close [OF c_recv(2)])
next
  case (c_beat st k g u w c' goOn)
  then show ?case
    using quiet_same_close [OF simple_quiet(5), of "cc st" w] by (auto intro: calls_inv_same)
next
  case (c_publish x w t b st c' res)
  then show ?case
    using quiet_same_close [OF simple_quiet(2), of "cc st" x w t b] by (auto intro: calls_inv_same)
next
  case (c_process p st s')
  then show ?case
    by (auto intro!: calls_inv_same [of st] simp: same_close_def on_sub_def dest: process_frame)
next
  case (c_redial st pc' c')
  then show ?case
    using quiet_same_close [OF redial_step_quiet] by (auto intro: calls_inv_same)
next
  case (c_redialled st pc' c' k)
  then show ?case
    using quiet_same_close [OF redial_step_quiet] by (auto intro: calls_inv_same)
qed (auto intro: calls_inv_same)

section \<open>Messages of a subscription\<close>

fun targets_of :: "recv_pc \<Rightarrow> ptr list" where
  "targets_of (L_Next m ps) = ps"
| "targets_of (L_Try m p ps) = p # ps"
| "targets_of (L_Send m p ps) = p # ps"
| "targets_of pc = []"

definition flow_ok :: "client_message list \<Rightarrow> subscription \<Rightarrow> bool" where
  "flow_ok ms s \<longleftrightarrow> handled s @ waiting s = ms \<and> length (waiting s) \<le> chan_cap (msgChan s) \<and>
     (\<not> processing s \<longrightarrow> chan_closed (msgChan s) \<and> waiting s = [])"

definition flow_inv :: "csys \<Rightarrow> bool" where
  "flow_inv st \<longleftrightarrow> set (subs (cc st)) \<subseteq> {..<next_sub (cc st)} \<and>
     (\<forall>k g pc. recv st k = Running g pc \<longrightarrow> set (targets_of pc) \<subseteq> {..<next_sub (cc st)}) \<and>
     (\<forall>p. flow_ok (taken st p) (sub_obj (cc st) p) \<and> p < next_sub (cc st) \<or> taken st p = [] \<and> next_sub (cc st) \<le> p)"

text \<open>A change that moves no message; a channel may be closed.\<close>

definition keeps :: "client \<Rightarrow> client \<Rightarrow> bool" where
  "keeps c c' \<longleftrightarrow> next_sub c' = next_sub c \<and> set (subs c') \<subseteq> set (subs c) \<and>
     (\<forall>p. handled (sub_obj c' p) = handled (sub_obj c p) \<and> waiting (sub_obj c' p) = waiting (sub_obj c p) \<and>
        chan_cap (msgChan (sub_obj c' p)) = chan_cap (msgChan (sub_obj c p)) \<and>
        processing (sub_obj c' p) = processing (sub_obj c p) \<and> (closed_sub c p \<longrightarrow> closed_sub c' p))"

lemma quiet_keeps: "quiet c c' \<Longrightarrow> keeps c c'"
  by (simp add: quiet_def calm_def keeps_def)

lemma keeps_simps [simp]:
  "keeps c c" "keeps c (on_sub p close_msgChan c)" "keeps c (on_sub p (\<lambda>s. s\<lparr>sub_closeOnce := b\<rparr>) c)"
  by (simp_all add: keeps_def on_sub_def close_msgChan_def)

definition lists_ok :: "csys \<Rightarrow> bool" where
  "lists_ok st \<longleftrightarrow> (\<forall>k g pc. recv st k = Running g pc \<longrightarrow> set (targets_of pc) \<subseteq> {..<next_sub (cc st)})"

lemma flow_inv_keeps:
  assumes "flow_inv st" and "keeps (cc st) (cc st')" and "taken st' = taken st" and "lists_ok st'"
  shows "flow_inv st'"
  using assms unfolding flow_inv_def keeps_def flow_ok_def lists_ok_def by (simp, blast)

lemma flow_lists: "flow_inv st \<Longrightarrow> lists_ok st"
  by (simp add: flow_inv_def lists_ok_def)

lemma lists_same: "lists_ok st \<Longrightarrow> recv st' = recv st \<Longrightarrow> next_sub (cc st) \<le> next_sub (cc st') \<Longrightarrow> lists_ok st'"
  unfolding lists_ok_def by (metis lessThan_subset_iff subset_trans)

lemma lists_update:
  assumes "lists_ok st" and "recv st' = (recv st)(k := l)" and "next_sub (cc st') = next_sub (cc st)"
    and "\<And>g pc. l = Running g pc \<Longrightarrow> set (targets_of pc) \<subseteq> {..<next_sub (cc st)}"
  shows "lists_ok st'"
  using assms by (auto simp: lists_ok_def)

lemma sub_step_keeps:
  assumes "sub_step l g t cap pc c pc' c'"
  shows "keeps c c' \<or> c' = register t cap c"
  using assms by cases (auto intro: quiet_keeps quiet_inactive)

lemma unsub_step_keeps: "unsub_step l b p pc c pc' c' \<Longrightarrow> keeps c c'"
  by (erule unsub_step.cases) (auto intro: quiet_keeps quiet_inactive)

lemma recv_step_targets:
  assumes "recv_step pc c pc' c' ev"
  shows "set (targets_of pc') \<subseteq> set (targets_of pc) \<union> set (subs c)"
  using assms by cases auto

lemma flow_register:
  assumes "flow_inv st" and "cc st' = register t cap (cc st)" and "taken st' = taken st" and "recv st' = recv st"
  shows "flow_inv st'"
proof -
  let ?c = "cc st"
  have "flow_ok [] (new_subscription t cap)"
    by (simp add: flow_ok_def new_subscription_def startProcessing_def make_chan_def)
  moreover have "lists_ok st'"
    using lists_same [OF flow_lists [OF assms(1)]] assms by (simp add: register_def)
  ultimately show ?thesis
    using assms unfolding flow_inv_def lists_ok_def by (auto simp: register_def less_Suc_eq Suc_le_eq)
qed

lemma flow_enqueue:
  assumes "flow_ok ms s"
  shows "flow_ok (if snd (try_send m (msgChan s)) = Sent then ms @ [m] else ms) (enqueue m s)"
  using assms by (auto simp: flow_ok_def enqueue_def try_send_def)

lemma flow_process: "flow_ok ms s \<Longrightarrow> process_one s = Some s' \<Longrightarrow> flow_ok ms s'"
  by (auto simp: flow_ok_def process_one_def try_recv_def split: if_splits option.splits list.splits)

lemma flow_at:
  assumes "flow_inv st" and "p < next_sub (cc st)"
  shows "flow_ok (taken st p) (sub_obj (cc st) p)"
  using assms by (auto simp: flow_inv_def)

lemma flow_on_sub:
  assumes inv: "flow_inv st" and p: "p < next_sub (cc st)" and c: "cc st' = on_sub p f (cc st)"
    and t: "taken st' = (taken st)(p := ms)" and f: "flow_ok ms (f (sub_obj (cc st) p))" and l: "lists_ok st'"
  shows "flow_inv st'"
  using assms unfolding flow_inv_def lists_ok_def by (auto simp: on_sub_def)

lemma event_fields [simp]:
  "recv (record_event ev st) = recv st" "recv (with_client c st) = recv st" "taken (with_client c st) = taken st"
  by (cases ev; simp add: with_client_def)+

lemma event_taken: "\<forall>p m. ev \<noteq> Accepted p m \<Longrightarrow> taken (record_event ev st) = taken st"
  by (cases ev) simp_all

lemma flow_recv:
  assumes inv: "flow_inv st" and k: "recv st k = Running g pc" and step: "recv_step pc (cc st) pc' c' ev"
    and cc: "cc st' = c'" and recv: "recv st' = (recv st)(k := (if pc' = L_Ended then Stopping g else Running g pc'))"
    and taken: "taken st' = taken (record_event ev st)"
  shows "flow_inv st'"
proof -
  have n: "next_sub c' = next_sub (cc st)"
    using recv_same_close [OF step] by (simp add: same_close_def)
  have bound: "set (targets_of pc) \<union> set (subs (cc st)) \<subseteq> {..<next_sub (cc st)}"
    using inv k by (auto simp: flow_inv_def)
  have l: "lists_ok st'"
    using recv_step_targets [OF step] bound n recv cc
    by (intro lists_update [OF flow_lists [OF inv] recv]) (auto split: if_splits)
  consider "quiet (cc st) c'" "\<forall>p m. ev \<noteq> Accepted p m"
    | m p ps where "pc = L_Send m p ps" "c' = on_sub p (enqueue (as_client_message m)) (cc st)"
        "ev = (if snd (try_send (as_client_message m) (msgChan (sub_obj (cc st) p))) = Sent
               then Accepted p (as_client_message m) else NoEvent)"
    using recv_step_effect [OF step] by blast
  then show ?thesis
  proof cases
    case 1
    then show ?thesis
      using flow_inv_keeps [OF inv _ _ l] cc taken by (simp add: quiet_keeps event_taken)
  next
    case 2
    let ?m = "as_client_message m"
    have p: "p < next_sub (cc st)" using bound 2(1) by simp
    have "taken st' = (taken st)(p := (if snd (try_send ?m (msgChan (sub_obj (cc st) p))) = Sent
        then taken st p @ [?m] else taken st p))"
      using taken 2(3) by auto
    then show ?thesis
      using flow_on_sub [OF inv p, where f = "enqueue ?m", OF _ _ flow_enqueue [OF flow_at [OF inv p]] l] cc 2(2)
      by simp
  qed
qed

lemma flow_keeps_same:
  assumes inv: "flow_inv st" and "keeps (cc st) (cc st')" and "taken st' = taken st" and "recv st' = recv st"
  shows "flow_inv st'"
  using assms(2) by (intro flow_inv_keeps [OF inv assms(2,3)] lists_same [OF flow_lists [OF inv] assms(4)]) (simp add: keeps_def)

lemma flow_keeps_loop:
  assumes inv: "flow_inv st" and "keeps (cc st) (cc st')" and "taken st' = taken st" and "recv st' = (recv st)(k := l)"
    and "\<And>g pc. l = Running g pc \<Longrightarrow> targets_of pc = []"
  shows "flow_inv st'"
  using assms(2,5) by (intro flow_inv_keeps [OF inv assms(2,3)] lists_update [OF flow_lists [OF inv] assms(4)])
    (auto simp: keeps_def)

lemma keeps_flags [simp]:
  "keeps c (c\<lparr>receiveLoopDone := b\<rparr>)" "keeps c (c\<lparr>heartbeatDone := b\<rparr>)" "keeps c (c\<lparr>ctx_done := b\<rparr>)"
  "keeps c (c'\<lparr>heartbeatDone := b\<rparr>) = keeps c c'" "keeps c (MonitorConnection w c)" "keeps c (EnableAutoReconnect d c)"
  "keeps c (DisableAutoReconnect c)"
  by (simp_all add: quiet_keeps) (simp_all add: keeps_def)

lemma flow_inv_step:
  assumes "cstep st st'" and "flow_inv st"
  shows "flow_inv st'"
  using assms
proof (induction rule: cstep.induct)
  case (c_sub st i t cap pc pc' c')
  consider "keeps (cc st) c'" | "c' = register t cap (cc st)" using sub_step_keeps [OF c_sub(2)] by blast
  then show ?case
    using flow_keeps_same [OF c_sub(3)] flow_register [OF c_sub(3)] by cases simp_all
next
  case (c_unsub st i p pc pc' c')
  show ?case
    by (rule flow_keeps_same [OF c_unsub(3)]) (simp_all add: unsub_step_keeps [OF c_unsub(2)])
next
  case (c_close st i pc pc' c')
  show ?case
    by (rule flow_keeps_same [OF c_close(3)]) (simp_all add: quiet_keeps [OF close_step_quiet [OF c_close(2)]])
next
  case (c_recv st k g pc pc' c' ev)
  show ?case
    by (rule flow_recv [OF c_recv(3,1,2)]) (cases ev; simp)+
next
  case (c_beat st k g u w c' goOn)
  then show ?case
    using quiet_keeps [OF simple_quiet(5), of "cc st" w] by - (rule flow_keeps_same [of st], simp_all)
next
  case (c_publish x w t b st c' res)
  then show ?case
    using quiet_keeps [OF simple_quiet(2), of "cc st" x w t b] by - (rule flow_keeps_same [of st], simp_all)
next
  case (c_process p st s')
  then show ?case
    using flow_on_sub [OF c_process(4,1), of _ "\<lambda>_. s'" "taken st p"] flow_process [OF flow_at [OF c_process(4,1)]]
      lists_same [OF flow_lists [OF c_process(4)]] by (simp add: on_sub_def)
next
  case (c_redial st pc' c')
  then show ?case
    using quiet_keeps [OF redial_step_quiet] by - (rule flow_keeps_same [of st], auto)
next
  case (c_redialled st pc' c' k)
  then show ?case
    using quiet_keeps [OF redial_step_quiet] by - (rule flow_keeps_loop [of st _ k Started], auto)
next
  case (c_recv_enter st k)
  then show ?case by - (rule flow_keeps_loop [of st], auto)
next
  case (c_recv_exit st k g)
  then show ?case by - (rule flow_keeps_loop [of st], auto)
next
  case (c_recv_panic st k g)
  then show ?case by - (rule flow_keeps_loop [of st], auto)
qed (auto intro: flow_keeps_same)

lemma connect_empty:
  "ConnectWithContext None mk r now sh ah address key = Inr c \<Longrightarrow>
    next_sub c = 0 \<and> next_ack c = 0 \<and> subs c = [] \<and> pendingSubs c = [] \<and> reconnect_runs c = 0 \<and> \<not> c_done c"
  by (auto simp: ConnectWithContext_def split: sum.splits)

lemma flow_inv_start:
  assumes "cstart st"
  shows "flow_inv st"
proof -
  have "next_sub (cc st) = 0 \<and> subs (cc st) = []"
    using assms connect_empty unfolding cstart_def by blast
  then show ?thesis
    using assms by (simp add: cstart_def flow_inv_def)
qed

section \<open>The loops before a reconnection\<close>

text \<open>Until a reconnection starts there is one loop of each kind, which has closed nothing yet when it ends.\<close>

definition lone :: "(nat \<Rightarrow> 'a loop) \<Rightarrow> (nat \<Rightarrow> bool) \<Rightarrow> bool" where
  "lone ls ch \<longleftrightarrow> (\<forall>k > 0. ls k = Off) \<and> ls 0 \<noteq> LoopPanic \<and>
     (\<forall>g. ls 0 = Stopping g \<or> (\<exists>pc. ls 0 = Running g pc) \<longrightarrow> g = 0) \<and> (ls 0 \<noteq> Stopped \<longrightarrow> \<not> ch 0)"

lemma lone_update:
  "lone ls ch \<Longrightarrow> in_group (ls k) \<or> ls k = Started \<Longrightarrow> (\<And>g. l = Stopping g \<or> (\<exists>pc. l = Running g pc) \<Longrightarrow> g = 0) \<Longrightarrow>
     l \<noteq> LoopPanic \<Longrightarrow> l \<noteq> Stopped \<Longrightarrow> lone (ls(k := l)) ch"
  unfolding lone_def by (cases "k = 0") auto

lemma lone_stopped: "lone ls ch \<Longrightarrow> ls k = Stopping g \<Longrightarrow> lone (ls(k := Stopped)) (ch(g := True))"
  unfolding lone_def by (cases "k = 0") auto

lemma lone_group:
  assumes "lone ls ch"
  shows "ls k = Running g pc \<Longrightarrow> g = 0" "ls k = Stopping g \<Longrightarrow> g = 0 \<and> \<not> ch g"
  using assms unfolding lone_def by (cases "k = 0"; fastforce)+

definition loops_inv :: "csys \<Rightarrow> bool" where
  "loops_inv st \<longleftrightarrow> (reconnect_runs (cc st) = 0 \<longrightarrow>
     gen st = 0 \<and> redial st = G_None \<and> lone (recv st) (recv_closed st) \<and> lone (beat st) (beat_closed st))"

lemma trigger_runs: "reconnect_runs c \<le> reconnect_runs (triggerConnectionLost c)"
  by (simp add: triggerConnectionLost_def reconnect_def Let_def)

lemma handle_runs [simp]: "reconnect_runs (handleMessage now m c) = reconnect_runs c"
proof -
  have d: "reconnect_runs (deliver_loop m ps c) = reconnect_runs c" for ps c
    by (induction ps arbitrary: c) (simp_all add: on_sub_def)
  have "reconnect_runs (confirm_ack now t a c) = reconnect_runs c" for t a
    by (simp add: confirm_ack_def Let_def)
  with d show ?thesis by (auto simp: handleMessage_def Let_def split: option.splits)
qed

lemma pending_runs [simp]:
  "reconnect_runs (drop_pending t c) = reconnect_runs c" "reconnect_runs (forget_pending t c) = reconnect_runs c"
  "reconnect_runs (add_pending t d c) = reconnect_runs c" "reconnect_runs (removeSubscription p c) = reconnect_runs c"
  "reconnect_runs (on_sub p f c) = reconnect_runs c" "reconnect_runs (register t cap c) = reconnect_runs c"
  by (simp_all add: drop_pending_def forget_pending_def add_pending_def removeSubscription_def on_sub_def register_def
      Let_def split: option.splits)

lemma deactivate_runs [simp]: "reconnect_runs (deactivate_all ps c) = reconnect_runs c"
  by (induction ps arbitrary: c) simp_all

lemma clear_runs [simp]: "reconnect_runs (clear_pending es c) = reconnect_runs c"
  by (induction es c rule: clear_pending.induct) simp_all

lemma simple_runs:
  "reconnect_runs c \<le> reconnect_runs (MonitorConnection w c)" "reconnect_runs (EnableAutoReconnect d c) = reconnect_runs c"
  "reconnect_runs c \<le> reconnect_runs (fst (PublishWithContext x w' t b c))"
  "reconnect_runs c \<le> reconnect_runs (fst (heartbeat_body w'' c))" "reconnect_runs (DisableAutoReconnect c) = reconnect_runs c"
  using trigger_runs [of c] trigger_runs [of "c\<lparr>publishErrors := wrap64 (publishErrors c + 1)\<rparr>"]
  by (auto simp: MonitorConnection_def PublishWithContext_def EnableAutoReconnect_def DisableAutoReconnect_def
      heartbeat_body_def Let_def split: monitor_wake.splits option.splits)

lemma call_step_runs:
  "sub_step l g t cap pc c pc' c' \<Longrightarrow> reconnect_runs c' = reconnect_runs c"
  "unsub_step l b p upc c upc' c' \<Longrightarrow> reconnect_runs c' = reconnect_runs c"
  "close_step l b b' kpc c kpc' c' \<Longrightarrow> reconnect_runs c' = reconnect_runs c"
  "redial_step l b gpc c gpc' c' go \<Longrightarrow> reconnect_runs c' = reconnect_runs c"
  by (auto elim!: sub_step.cases unsub_step.cases close_step.cases redial_step.cases)

lemma recv_step_runs: "recv_step pc c pc' c' ev \<Longrightarrow> reconnect_runs c \<le> reconnect_runs c'"
  using trigger_runs [of "c\<lparr>connectionErrors := wrap64 (connectionErrors c + 1)\<rparr>"] trigger_runs [of c]
  by (auto elim!: recv_step.cases)

inductive_cases no_redial [elim!]: "redial_step l b G_None c pc' c' go"

lemma loops_same:
  "loops_inv st \<Longrightarrow> reconnect_runs (cc st') = reconnect_runs (cc st) \<Longrightarrow> gen st' = gen st \<Longrightarrow> redial st' = redial st \<Longrightarrow>
   recv st' = recv st \<Longrightarrow> beat st' = beat st \<Longrightarrow> recv_closed st' = recv_closed st \<Longrightarrow> beat_closed st' = beat_closed st \<Longrightarrow>
   loops_inv st'"
  by (simp add: loops_inv_def)

lemma event_loops [simp]:
  "gen (record_event ev st) = gen st" "redial (record_event ev st) = redial st" "beat (record_event ev st) = beat st"
  "recv_closed (record_event ev st) = recv_closed st" "beat_closed (record_event ev st) = beat_closed st"
  "gen (with_client c st) = gen st" "beat (with_client c st) = beat st" "recv_closed (with_client c st) = recv_closed st"
  "beat_closed (with_client c st) = beat_closed st"
  "redial (with_client c st) = (if reconnect_runs c \<noteq> reconnect_runs (cc st) then G_Check 0 else redial st)"
  by (cases ev; simp add: with_client_def)+

lemma loops_inv_step:
  assumes "cstep st st'" and "loops_inv st"
  shows "loops_inv st' \<and> reconnect_runs (cc st) \<le> reconnect_runs (cc st')"
  using assms
proof (induction rule: cstep.induct)
  case (c_recv st k g pc pc' c' ev)
  have le: "reconnect_runs (cc st) \<le> reconnect_runs c'" by (rule recv_step_runs [OF c_recv(2)])
  have "lone ((recv st)(k := (if pc' = L_Ended then Stopping g else Running g pc'))) (recv_closed st)"
    if "lone (recv st) (recv_closed st)"
    using that c_recv(1) lone_group(1) [OF that c_recv(1)] by (auto intro: lone_update)
  then show ?case using c_recv(3) le by (simp add: loops_inv_def)
next
  case (c_beat st k g u w c' goOn)
  have le: "reconnect_runs (cc st) \<le> reconnect_runs c'" using simple_runs(4) [of "cc st" w] c_beat(2) by simp
  have "lone ((beat st)(k := (if goOn then Running g () else Stopping g))) (beat_closed st)"
    if "lone (beat st) (beat_closed st)"
    using that c_beat(1) lone_group(1) [OF that c_beat(1)] by (auto intro: lone_update)
  then show ?case using c_beat(3) le by (simp add: loops_inv_def)
next
  case (c_publish x w t b st c' res)
  have le: "reconnect_runs (cc st) \<le> reconnect_runs c'" using simple_runs(3) [of "cc st" x w t b] c_publish(1) by simp
  then show ?case using c_publish(2) by (simp add: loops_inv_def)
next
  case (c_monitor st w)
  then show ?case using simple_runs(1) [of "cc st" w] by (simp add: loops_inv_def)
next
  case (c_sub st i t cap pc pc' c')
  then show ?case using call_step_runs(1) by (simp add: loops_inv_def)
next
  case (c_unsub st i p pc pc' c')
  then show ?case using call_step_runs(2) by (simp add: loops_inv_def)
next
  case (c_close st i pc pc' c')
  then show ?case using call_step_runs(3) by (simp add: loops_inv_def)
next
  case (c_redial st pc' c')
  then show ?case using call_step_runs(4) [OF c_redial(1)] by (auto simp: loops_inv_def)
next
  case (c_redialled st pc' c' k)
  then show ?case using call_step_runs(4) [OF c_redialled(1)] by (auto simp: loops_inv_def)
qed (auto simp: loops_inv_def begin_call_def simple_runs intro: lone_update lone_stopped dest: lone_group)

lemma loops_inv_start: "cstart st \<Longrightarrow> loops_inv st"
  by (auto simp: cstart_def loops_inv_def lone_def)

section \<open>Acknowledgements\<close>

text \<open>The bookkeeping of the client stays consistent.\<close>

lemma client_ok_simps [simp]:
  "client_ok (on_sub p f c) = client_ok c" "client_ok (triggerConnectionLost c) = client_ok c"
  "client_ok c \<Longrightarrow> client_ok (register t cap c)"
  by (auto simp: client_ok_def on_sub_def register_def less_Suc_eq)

lemma client_ok_pending:
  assumes "client_ok c"
  shows "client_ok (drop_pending t c)" "client_ok (add_pending t d c)" "client_ok (clear_pending es c)"
    "client_ok (forget_pending t c)" "client_ok (removeSubscription p c)"
proof -
  have d: "client_ok (drop_pending t c)" if "client_ok c" for t c
    using that by (auto simp: client_ok_def split: if_splits)
  then show "client_ok (drop_pending t c)" using assms by simp
  show "client_ok (add_pending t d c)"
    using assms by (auto simp: client_ok_def add_pending_def less_Suc_eq split: if_splits)
  show "client_ok (clear_pending es c)"
    using assms by (induction es c rule: clear_pending.induct) (simp_all add: d)
  show "client_ok (forget_pending t c)" "client_ok (removeSubscription p c)"
    using assms by (simp_all add: forget_ok remove_ok)
qed

lemma deactivate_next_ack [simp]: "next_ack (deactivate_all ps c) = next_ack c"
  by (induction ps arbitrary: c) (simp_all add: on_sub_def)

lemma deactivate_ok: "client_ok c \<Longrightarrow> client_ok ((deactivate_all ps c)\<lparr>subs := []\<rparr>)"
  by (auto simp: client_ok_def)

lemma settings_ok [simp]:
  "client_ok (c\<lparr>c_closeOnce := b\<rparr>) = client_ok c" "client_ok (c\<lparr>ctx_done := b\<rparr>) = client_ok c"
  "client_ok (c\<lparr>c_done := b\<rparr>) = client_ok c" "client_ok (c\<lparr>client_conn_closed := b\<rparr>) = client_ok c"
  "client_ok (c\<lparr>client_conn := b\<rparr>) = client_ok c" "client_ok (c\<lparr>receiveLoopDone := b\<rparr>) = client_ok c"
  "client_ok (c\<lparr>heartbeatDone := b\<rparr>) = client_ok c" "client_ok (c\<lparr>connectionErrors := e\<rparr>) = client_ok c"
  "client_ok (c\<lparr>reconnectCount := e\<rparr>) = client_ok c" "client_ok (c\<lparr>subscriptionErrors := e\<rparr>) = client_ok c"
  "client_ok (c\<lparr>connectedAt := u\<rparr>) = client_ok c" "client_ok (c\<lparr>connectionLost := b\<rparr>) = client_ok c"
  "client_ok (c\<lparr>autoReconnect := b\<rparr>) = client_ok c" "client_ok (c\<lparr>reconnectInterval := e\<rparr>) = client_ok c"
  "client_ok (c\<lparr>reconnecting := b\<rparr>) = client_ok c" "client_ok (c\<lparr>publishErrors := e\<rparr>) = client_ok c"
  by (simp_all add: client_ok_def)

lemma steps_ok:
  assumes "client_ok c"
  shows "sub_step l g t cap pc c pc' c' \<Longrightarrow> client_ok c'"
    "unsub_step l b p upc c upc' c' \<Longrightarrow> client_ok c'" "close_step l b b' kpc c kpc' c' \<Longrightarrow> client_ok c'"
    "redial_step l b gpc c gpc' c' go \<Longrightarrow> client_ok c'" "recv_step lpc c lpc' c' ev \<Longrightarrow> client_ok c'"
    "client_ok (MonitorConnection w c)" "client_ok (fst (PublishWithContext x w' t' d c))"
    "client_ok (fst (heartbeat_body w'' c))" "client_ok (EnableAutoReconnect i c)" "client_ok (DisableAutoReconnect c)"
  using assms
  by (auto simp: client_ok_pending deactivate_ok handle_ok MonitorConnection_def PublishWithContext_def heartbeat_body_def
      EnableAutoReconnect_def DisableAutoReconnect_def Let_def split: monitor_wake.splits option.splits
      elim!: sub_step.cases unsub_step.cases close_step.cases redial_step.cases recv_step.cases)

lemma cstep_ok:
  assumes "cstep st st'" and "client_ok (cc st)"
  shows "client_ok (cc st')"
  using assms
proof (induction rule: cstep.induct)
  case (c_sub st i t cap pc pc' c')
  then show ?case using steps_ok(1) [OF c_sub(3,2)] by simp
next
  case (c_unsub st i p pc pc' c')
  then show ?case using steps_ok(2) [OF c_unsub(3,2)] by simp
next
  case (c_close st i pc pc' c')
  then show ?case using steps_ok(3) [OF c_close(3,2)] by simp
next
  case (c_recv st k g pc pc' c' ev)
  then show ?case using steps_ok(5) [OF c_recv(3,2)] by simp
next
  case (c_beat st k g u w c' goOn)
  then show ?case using steps_ok(8) [OF c_beat(3), of w] by simp
next
  case (c_publish x w t b st c' res)
  then show ?case using steps_ok(7) [OF c_publish(2), of x w t b] by simp
next
  case (c_redial st pc' c')
  then show ?case using steps_ok(4) [OF c_redial(2,1)] by simp
next
  case (c_redialled st pc' c' k)
  then show ?case using steps_ok(4) [OF c_redialled(4,1)] by simp
qed (simp_all add: steps_ok(6,9,10))

text \<open>The subjects of OK messages that confirm a subscription.\<close>

definition confirms :: "string \<Rightarrow> string \<Rightarrow> bool" where
  "confirms t u \<longleftrightarrow> u = t \<or> Contains u ''subscribed to '' \<and> TrimPrefix u ''subscribed to '' = t"

fun ack_of :: "sub_pc \<Rightarrow> ptr option" where
  "ack_of (S_Write n p a) = Some a"
| "ack_of (S_Wait n p a d) = Some a"
| "ack_of pc = None"

text \<open>
  Why a subscribe call may see its acknowledgement: an OK message for its subject, or another subscribe
  call on that subject, a closing call, or a reconnection.
\<close>

definition explained :: "csys \<Rightarrow> nat \<Rightarrow> string \<Rightarrow> bool" where
  "explained st i t \<longleftrightarrow> (\<exists>u \<in> set (oks st). confirms t u) \<or> (\<exists>j cap pc. j \<noteq> i \<and> calls st j = Subscribing t cap pc) \<or>
     (\<exists>j pc. calls st j = Closing pc) \<or> 0 < reconnect_runs (cc st)"

definition ack_ok :: "client \<Rightarrow> sub_pc \<Rightarrow> string \<Rightarrow> bool \<Rightarrow> bool" where
  "ack_ok c pc t e \<longleftrightarrow> (\<forall>a. ack_of pc = Some a \<longrightarrow>
       a < next_ack c \<and> ack_subject (ack_obj c a) = t \<and> (acked (ack_obj c a) \<longrightarrow> e)) \<and>
     (\<forall>p. pc = S_Returned (Inr p) \<longrightarrow> e)"

definition ack_inv :: "csys \<Rightarrow> bool" where
  "ack_inv st \<longleftrightarrow> (\<forall>i t cap pc. calls st i = Subscribing t cap pc \<longrightarrow> ack_ok (cc st) pc t (explained st i t))"

text \<open>What a step may do to the acknowledgements that exist: set those of the subject \<open>t\<close>.\<close>

definition acks_change :: "(string \<Rightarrow> bool) \<Rightarrow> client \<Rightarrow> client \<Rightarrow> bool" where
  "acks_change P c c' \<longleftrightarrow> next_ack c \<le> next_ack c' \<and>
     (\<forall>a < next_ack c. ack_subject (ack_obj c' a) = ack_subject (ack_obj c a) \<and>
        (acked (ack_obj c' a) \<longrightarrow> acked (ack_obj c a) \<or> P (ack_subject (ack_obj c a))))"

lemma acks_same: "ack_obj c' = ack_obj c \<Longrightarrow> next_ack c' = next_ack c \<Longrightarrow> acks_change P c c'"
  by (simp add: acks_change_def)

lemma acks_drop: "client_ok c \<Longrightarrow> acks_change (\<lambda>u. u = t) c (drop_pending t c)"
  by (auto simp: acks_change_def drop_pending_acked client_ok_def)

lemma acks_add: "acks_change P c (add_pending t d c)"
  by (auto simp: acks_change_def add_pending_def)

lemma resume_acks [simp]: "ack_of (resume n k) = None" "resume n k \<noteq> S_Returned (Inr p)"
  by (cases k; simp)+

lemma ack_ok_change:
  "ack_ok c pc t e \<Longrightarrow> acks_change P c c' \<Longrightarrow> (e \<or> P t \<Longrightarrow> e') \<Longrightarrow> ack_ok c' pc t e'"
  unfolding ack_ok_def acks_change_def by (cases pc) auto

lemma sub_step_acks:
  assumes "sub_step l g t cap pc c pc' c'" and "client_ok c" and "ack_ok c pc t e"
  shows "acks_change (\<lambda>u. u = t) c c' \<and> ack_ok c' pc' t e"
proof
  show "acks_change (\<lambda>u. u = t) c c'"
    using assms(1,2)
    by cases (auto intro: acks_drop acks_add acks_same
        simp: register_def removeSubscription_def forget_pending_def on_sub_def)
  show "ack_ok c' pc' t e"
    using assms(1,3)
    by cases (auto simp: ack_ok_def add_pending_def register_def removeSubscription_def forget_pending_def on_sub_def)
qed

lemma recv_step_acks:
  assumes step: "recv_step pc c pc' c' ev" and ok: "client_ok c"
  shows "acks_change (\<lambda>t. \<exists>u. ev = HandledOk u \<and> confirms t u) c c'"
proof -
  have "acks_change (\<lambda>t. confirms t (Subject m)) c (handleMessage now m c)" if "Command m = CmdOk" for now m
    using handle_acked [OF ok, of now m] confirmed_acks [of m c]
    by (auto simp: acks_change_def handle_frame acks_def confirms_def)
  with step show ?thesis
    by cases (auto intro: acks_same simp: on_sub_def)
qed

lemma simple_acks:
  "acks_change P c (MonitorConnection w c)" "acks_change P c (fst (PublishWithContext x w' t b c))"
  "acks_change P c (fst (heartbeat_body w'' c))" "acks_change P c (EnableAutoReconnect d c)"
  "acks_change P c (DisableAutoReconnect c)" "unsub_step l e p upc c upc' c' \<Longrightarrow> acks_change P c c'"
  by (auto intro!: acks_same simp: MonitorConnection_def PublishWithContext_def EnableAutoReconnect_def
      DisableAutoReconnect_def heartbeat_body_def on_sub_def removeSubscription_def Let_def
      split: monitor_wake.splits option.splits elim!: unsub_step.cases)

lemma ack_inv_change:
  assumes inv: "ack_inv st" and calls: "calls st' = calls st" and oks: "oks st' = oks st"
    and runs: "reconnect_runs (cc st) \<le> reconnect_runs (cc st')" and "acks_change (\<lambda>_. False) (cc st) (cc st')"
  shows "ack_inv st'"
proof -
  have "explained st i t \<Longrightarrow> explained st' i t" for i t
    using oks calls runs unfolding explained_def by auto
  then show ?thesis
    using inv assms(5) ack_ok_change unfolding ack_inv_def calls by blast
qed

text \<open>A step of one call, or its start.\<close>

lemma ack_inv_call:
  assumes inv: "ack_inv st" and calls: "calls st' = (calls st)(i := k)" and oks: "oks st' = oks st"
    and runs: "reconnect_runs (cc st) = reconnect_runs (cc st')"
    and change: "\<And>j. j \<noteq> i \<Longrightarrow> acks_change (explained st' j) (cc st) (cc st')"
    and k: "\<And>t cap pc. k = Subscribing t cap pc \<Longrightarrow> ack_ok (cc st') pc t (explained st' i t)"
    and old: "\<And>t cap pc. calls st i = Subscribing t cap pc \<Longrightarrow> \<exists>pc'. k = Subscribing t cap pc'"
      "\<And>pc. calls st i = Closing pc \<Longrightarrow> \<exists>pc'. k = Closing pc'"
  shows "ack_inv st'"
proof -
  have mono: "explained st' j t" if "explained st j t" for j t
    using that oks runs calls old unfolding explained_def by (metis fun_upd_apply)
  have "ack_ok (cc st') pc t (explained st' j t)" if "calls st' j = Subscribing t cap pc" for j t cap pc
  proof (cases "j = i")
    case True
    then show ?thesis using that calls k by simp
  next
    case False
    then have "ack_ok (cc st) pc t (explained st j t)"
      using inv that calls unfolding ack_inv_def by auto
    then show ?thesis
      using ack_ok_change [OF _ change [OF False]] mono by blast
  qed
  then show ?thesis unfolding ack_inv_def by blast
qed

lemma ack_inv_recv:
  assumes inv: "ack_inv st" and ok: "client_ok (cc st)" and step: "recv_step pc (cc st) pc' c' ev"
    and st': "cc st' = c'" "calls st' = calls st" "oks st' = oks (record_event ev st)"
  shows "ack_inv st'"
proof -
  have runs: "reconnect_runs (cc st) \<le> reconnect_runs c'" by (rule recv_step_runs [OF step])
  have mono: "explained st' i t" if "explained st i t \<or> (\<exists>u. ev = HandledOk u \<and> confirms t u)" for i t
    using that runs unfolding explained_def st' by (cases ev) auto
  show ?thesis
    using inv ack_ok_change [OF _ recv_step_acks [OF step ok]] mono unfolding ack_inv_def st' by blast
qed

lemma event_oks [simp]:
  "oks (with_client c st) = oks st" "oks (begin_call i k caller st) = oks st"
  by (simp_all add: with_client_def begin_call_def)

lemma acks_weaken: "acks_change P c c' \<Longrightarrow> (\<And>u. P u \<Longrightarrow> Q u) \<Longrightarrow> acks_change Q c c'"
  by (auto simp: acks_change_def)

lemma acks_refl [simp]: "acks_change P c c"
  by (simp add: acks_change_def)

text \<open>\<open>Close\<close> closes every pending acknowledgement.\<close>

lemma acks_clear: "acks_change (\<lambda>u. True) c (clear_pending es c)"
proof -
  have "acks_change (\<lambda>u. True) c c' \<Longrightarrow> acks_change (\<lambda>u. True) c' c'' \<Longrightarrow> acks_change (\<lambda>u. True) c c''" for c c' c''
    by (auto simp: acks_change_def)
  moreover have "acks_change (\<lambda>u. True) c (drop_pending t c)" for t c
    by (simp add: acks_change_def)
  ultimately show ?thesis by (induction es c rule: clear_pending.induct) (simp, simp, blast)
qed

lemma close_step_acks: "close_step l b b' pc c pc' c' \<Longrightarrow> acks_change (\<lambda>u. True) c c'"
  by (erule close_step.cases) (auto intro: acks_clear acks_same)

lemma ack_inv_begin:
  assumes "ack_inv st" and "calls st i = Idle" and "\<And>t cap pc. k = Subscribing t cap pc \<Longrightarrow> pc = S_Top 0 None"
  shows "ack_inv (begin_call i k caller st)"
  using assms by (intro ack_inv_call [OF assms(1)]) (auto simp: ack_ok_def)

lemma redial_step_acks: "redial_step l b pc c pc' c' go \<Longrightarrow> acks_change (\<lambda>u. True) c c'"
  by (erule redial_step.cases)
    (auto intro: acks_same simp: acks_change_def add_pending_def forget_pending_def on_sub_def)

lemma ack_inv_redial:
  assumes inv: "ack_inv st" "loops_inv st" and step: "redial_step l b (redial st) (cc st) pc' c' go"
    and st': "cc st' = c'" "calls st' = calls st"
  shows "ack_inv st'"
proof -
  have "0 < reconnect_runs (cc st)"
    using inv(2) step by (cases "reconnect_runs (cc st) = 0") (auto simp: loops_inv_def)
  then have e: "explained st' i t" for i t
    using call_step_runs(4) [OF step] st' by (simp add: explained_def)
  show ?thesis
    using inv(1) ack_ok_change [OF _ redial_step_acks [OF step]] e unfolding ack_inv_def st' by blast
qed

lemma acks_flags:
  "acks_change P c (c\<lparr>receiveLoopDone := b\<rparr>)" "acks_change P c (c\<lparr>heartbeatDone := b\<rparr>)"
  "acks_change P c (c\<lparr>ctx_done := b\<rparr>)" "acks_change P c (on_sub p f c)"
  by (simp_all add: acks_change_def on_sub_def)

lemma ack_inv_step:
  assumes "cstep st st'" and "ack_inv st" and "client_ok (cc st)" and "loops_inv st"
  shows "ack_inv st'"
  using assms
proof (induction rule: cstep.induct)
  case (c_sub st i t cap pc pc' c')
  have a: "acks_change (\<lambda>u. u = t) (cc st) c' \<and> ack_ok c' pc' t (explained st i t)"
    using sub_step_acks [OF c_sub(2,4), of "explained st i t"] c_sub(1,3) by (simp add: ack_inv_def)
  let ?st = "st\<lparr>cc := c', calls := (calls st)(i := Subscribing t cap pc')\<rparr>"
  have e: "explained ?st i t" if "explained st i t"
    using that c_sub(1) call_step_runs(1) [OF c_sub(2)] unfolding explained_def by auto (metis call.distinct(9))
  show ?case
  proof (rule ack_inv_call [OF c_sub(3)])
    show "acks_change (explained ?st j) (cc st) (cc ?st)" if "j \<noteq> i" for j
      using a that by (auto intro!: acks_weaken [of "\<lambda>u. u = t"] simp: explained_def)
    show "ack_ok (cc ?st) pc'' s (explained ?st i s)" if "Subscribing t cap pc' = Subscribing s cap' pc''" for s cap' pc''
      using that a e by (auto simp: ack_ok_def)
  qed (use c_sub(1) call_step_runs(1) [OF c_sub(2)] in auto)
next
  case (c_unsub st i p pc pc' c')
  then show ?case
    using simple_acks(6) call_step_runs(2) by (intro ack_inv_call [OF c_unsub(3)]) auto
next
  case (c_close st i pc pc' c')
  have "acks_change (explained (st\<lparr>cc := c', calls := (calls st)(i := Closing pc')\<rparr>) j) (cc st) c'" for j
    by (rule acks_weaken [OF close_step_acks [OF c_close(2)]]) (auto simp: explained_def)
  then show ?case
    using c_close(1) call_step_runs(3) [OF c_close(2)] by (intro ack_inv_call [OF c_close(3)]) auto
next
  case (c_recv st k g pc pc' c' ev)
  show ?case
    by (rule ack_inv_recv [OF c_recv(3,4,2)]) (cases ev; simp)+
next
  case (c_beat st k g u w c' goOn)
  then show ?case
    using simple_acks(3) [of "\<lambda>_. False" "cc st" w] simple_runs(4) [of "cc st" w]
    by - (rule ack_inv_change [of st], simp_all add: acks_change_def)
next
  case (c_publish x w t b st c' res)
  then show ?case
    using simple_acks(2) [of "\<lambda>_. False" "cc st" x w t b] simple_runs(3) [of "cc st" x w t b]
    by - (rule ack_inv_change [of st], simp_all)
next
  case (c_redial st pc' c')
  show ?case
    by (rule ack_inv_redial [OF c_redial(2,4,1)]) simp_all
next
  case (c_redialled st pc' c' k)
  show ?case
    by (rule ack_inv_redial [OF c_redialled(4,6,1)]) simp_all
qed (auto intro: ack_inv_begin ack_inv_change simp: simple_acks(1-5) simple_runs acks_flags)

definition cinv :: "csys \<Rightarrow> bool" where
  "cinv st \<longleftrightarrow> calls_inv st \<and> flow_inv st \<and> loops_inv st \<and> client_ok (cc st) \<and> ack_inv st"

lemma cinv_start: "cstart st \<Longrightarrow> cinv st"
proof -
  assume s: "cstart st"
  then have e: "next_sub (cc st) = 0 \<and> subs (cc st) = [] \<and> pendingSubs (cc st) = []"
    using connect_empty unfolding cstart_def by blast
  then have "client_ok (cc st)" by (simp add: client_ok_def)
  moreover have "ack_inv st" using s by (simp add: cstart_def ack_inv_def)
  ultimately show ?thesis
    using s by (simp add: cinv_def calls_inv_start flow_inv_start loops_inv_start)
qed

interpretation ks: invariant_system cstart cstep cinv
  by unfold_locales
    (auto simp: cinv_def cinv_start [unfolded cinv_def]
      intro: calls_inv_step flow_inv_step cstep_ok ack_inv_step dest: loops_inv_step)

end
