(* ===== verification/Client_Runs.thy ===== *)
theory Client_Runs
  imports Client_Concurrency
begin

text \<open>
  Runs of the running client: a call that is not disturbed does what the sequential model of theory
  \<open>Client\<close> says, and the runs in which the code falls short. The properties of the running client are
  at the end.
\<close>

section \<open>Runs of one call\<close>

definition put :: "nat \<Rightarrow> call \<Rightarrow> client \<Rightarrow> csys \<Rightarrow> csys" where
  "put i k c st = st\<lparr>cc := c, calls := (calls st)(i := k)\<rparr>"

lemma put_fields [simp]:
  "cc (put i k c st) = c" "calls (put i k c st) = (calls st)(i := k)" "gen (put i k c st) = gen st"
  "recv (put i k c st) = recv st" "beat (put i k c st) = beat st" "origin (put i k c st) = origin st"
  "locked (put i k c st) = locked st" "loops_run (put i k c st) = loops_run st" "redial (put i k c st) = redial st"
  "oks (put i k c st) = oks st" "taken (put i k c st) = taken st"
  "put i k c (put i k' c' st) = put i k c st"
  by (simp_all add: put_def locked_def loops_run_def)

text \<open>A state with other ghost fields, and runs up to them.\<close>

definition runs_to :: "csys \<Rightarrow> csys \<Rightarrow> bool" where
  "runs_to st st' \<longleftrightarrow> (\<exists>us ms. cstep\<^sup>*\<^sup>* st (st'\<lparr>oks := us, taken := ms\<rparr>))"

text \<open>Several steps of one subscribe call while nobody holds the lock.\<close>

inductive sub_run :: "nat \<Rightarrow> string \<Rightarrow> nat \<Rightarrow> sub_pc \<Rightarrow> client \<Rightarrow> sub_pc \<Rightarrow> client \<Rightarrow> bool"
  for g :: nat and t :: string and cap :: nat where
  run_refl: "sub_run g t cap pc c pc c"
| run_step: "sub_step False g t cap pc c pc' c' \<Longrightarrow> sub_run g t cap pc' c' pc'' c'' \<Longrightarrow> sub_run g t cap pc c pc'' c''"

lemma run_trans: "sub_run g t cap pc c pc' c' \<Longrightarrow> sub_run g t cap pc' c' pc'' c'' \<Longrightarrow> sub_run g t cap pc c pc'' c''"
  by (induction rule: sub_run.induct) (auto intro: run_step)

lemma put_self: "calls st i = k \<Longrightarrow> put i k (cc st) st = st"
  by (auto simp: put_def)

lemma put_update [simp]: "(put i k c st)\<lparr>cc := c', calls := (calls st)(i := k')\<rparr> = put i k' c' st"
  by (simp add: put_def)

lemma sub_run_steps:
  assumes "sub_run g t cap pc c pc' c'" and "gen st = g" and "\<not> locked st"
  shows "cstep\<^sup>*\<^sup>* (put i (Subscribing t cap pc) c st) (put i (Subscribing t cap pc') c' st)"
  using assms
proof (induction rule: sub_run.induct)
  case (run_step pc c pc' c' pc'' c'')
  have "cstep (put i (Subscribing t cap pc) c st) (put i (Subscribing t cap pc') c' st)"
    using c_sub [of "put i (Subscribing t cap pc) c st" i t cap pc pc' c'] run_step by simp
  then show ?case
    using run_step by (meson converse_rtranclp_into_rtranclp)
qed simp

text \<open>From the start of an attempt to the sending of the SUB command.\<close>

lemma attempt_registers:
  assumes n: "n < maxRetries"
  shows "sub_run g t cap (S_Top n e) c (S_Write n (next_sub c) (next_ack c)) (registered n env t cap c)"
proof -
  define c1 where "c1 = (if n > 0 then drop_pending t c else c)"
  have f: "next_sub c1 = next_sub c" "next_ack (register t cap c1) = next_ack c"
    "add_pending t (env_now env + ackTimeout) (register t cap c1) = registered n env t cap c"
    by (simp_all add: c1_def register_def registered_def Let_def)
  have 1: "sub_run g t cap (S_Top n e) c (S_Append n) c1"
    using s_begin [OF n, of False g t cap e c]
    by (cases "n > 0") (auto simp: c1_def intro: run_step [OF _ run_refl] run_step [OF _ run_step [OF s_clean run_refl]])
  have "sub_run g t cap (S_Append n) c1 (S_Write n (next_sub c1) (next_ack (register t cap c1)))
      (add_pending t (env_now env + ackTimeout) (register t cap c1))"
    by (rule run_step [OF s_append run_step [OF s_pend run_refl]]) simp
  from run_trans [OF 1 this] show ?thesis by (simp add: f)
qed

text \<open>The clean-up of a failed attempt.\<close>

lemma attempt_abandons:
  assumes "\<not> closed_sub c p"
  shows "sub_run g t cap (S_Forget n p k) c (resume n k) (abandon t p c)"
proof -
  let ?c1 = "removeSubscription p (forget_pending t c)"
  let ?c2 = "on_sub p (\<lambda>s. s\<lparr>active := False\<rparr>) ?c1"
  have "\<not> closed_sub ?c2 p"
    using assms by (simp add: on_sub_def removeSubscription_def forget_pending_def)
  then have "sub_run g t cap (S_CloseChan n p k) ?c2 (resume n k) (on_sub p close_msgChan ?c2)"
    by (rule run_step [OF s_close run_refl])
  then have "sub_run g t cap (S_Off n p k) ?c1 (resume n k) (on_sub p close_msgChan ?c2)"
    by (rule run_step [OF s_off])
  then have "sub_run g t cap (S_Remove n p k) (forget_pending t c) (resume n k) (on_sub p close_msgChan ?c2)"
    by (rule run_step [OF s_remove, rotated]) simp
  then show ?thesis
    unfolding abandon_def Let_def by (rule run_step [OF s_forget])
qed

section \<open>Runs of the receive loop\<close>

lemma enqueue_eq: "active s \<Longrightarrow> fst (TryEnqueue m s) = enqueue m s"
  by (auto simp: TryEnqueue_def enqueue_def try_send_def)

definition hear :: "nat \<Rightarrow> nat \<Rightarrow> recv_pc \<Rightarrow> client \<Rightarrow> csys \<Rightarrow> csys" where
  "hear k g pc c st = st\<lparr>recv := (recv st)(k := Running g pc), cc := c\<rparr>"

lemma hear_fields [simp]:
  "cc (hear k g pc c st) = c" "recv (hear k g pc c st) = (recv st)(k := Running g pc)" "calls (hear k g pc c st) = calls st"
  "hear k g pc c (hear k g pc' c' st) = hear k g pc c st" "redial (hear k g pc c st) = redial st"
  "(hear k g pc c st)\<lparr>oks := us, taken := ms\<rparr> = hear k g pc c (st\<lparr>oks := us, taken := ms\<rparr>)"
  by (simp_all add: hear_def)

lemma runs_step:
  assumes "cstep st (st1\<lparr>oks := us, taken := ms\<rparr>)" and "\<And>us ms. runs_to (st1\<lparr>oks := us, taken := ms\<rparr>) st'"
  shows "runs_to st st'"
  using assms unfolding runs_to_def by (meson converse_rtranclp_into_rtranclp)

lemma hear_step:
  assumes "recv_step pc c pc' c' ev" and "pc' \<noteq> L_Ended" and "reconnect_runs c' = reconnect_runs c"
    and more_steps: "\<And>us ms. runs_to (hear k g pc' c' (st\<lparr>oks := us, taken := ms\<rparr>)) st'"
  shows "runs_to (hear k g pc c st) st'"
proof (rule runs_step)
  let ?st = "record_event ev (with_client c' ((hear k g pc c st)\<lparr>recv := (recv st)(k := Running g pc')\<rparr>))"
  show "cstep (hear k g pc c st) ((hear k g pc' c' st)\<lparr>oks := oks ?st, taken := taken ?st\<rparr>)"
    using c_recv [of "hear k g pc c st" k g pc pc' c' ev] assms(1-3) 
    by (cases ev) (simp_all add: hear_def with_client_def)
  show "runs_to ((hear k g pc' c' st)\<lparr>oks := us, taken := ms\<rparr>) st'" for us ms
    using more_steps by simp
qed

lemma runs_ghost [simp]: "runs_to st (hear k g pc c (st'\<lparr>oks := us, taken := ms\<rparr>)) = runs_to st (hear k g pc c st')"
  by (simp add: runs_to_def)

lemma runs_refl [simp]: "runs_to st st"
  unfolding runs_to_def by (rule exI [of _ "oks st"], rule exI [of _ "taken st"]) simp

lemma hear_refl [simp]: "runs_to (hear k g pc c (st\<lparr>oks := us, taken := ms\<rparr>)) (hear k g pc c st)"
  using runs_refl [of "hear k g pc c (st\<lparr>oks := us, taken := ms\<rparr>)"] by (simp only: runs_ghost)

text \<open>The loop over the subscriptions.\<close>

lemma deliver_runs: "runs_to (hear k g (L_Next m ps) c st) (hear k g L_Top (deliver_loop m ps c) st)"
proof (induction ps arbitrary: c st)
  case Nil
  show ?case by (rule hear_step [OF l_finish]) simp_all
next
  case (Cons p ps)
  have ih: "runs_to (hear k g (L_Next m ps) c' (st\<lparr>oks := us, taken := ms\<rparr>)) (hear k g L_Top (deliver_loop m ps c') st)"
    for c' us ms using Cons.IH [of c' "st\<lparr>oks := us, taken := ms\<rparr>"] by simp
  show ?case
  proof (cases "active (sub_obj c p) \<and> matchSubject (sub_subject (sub_obj c p)) (Subject m)")
    case True
    have "on_sub p (\<lambda>s. fst (TryEnqueue (as_client_message m) s)) c = on_sub p (enqueue (as_client_message m)) c"
      using True by (simp add: on_sub_def enqueue_eq)
    then have e: "deliver_loop m (p # ps) c = deliver_loop m ps (on_sub p (enqueue (as_client_message m)) c)"
      using True by (simp add: as_client_message_def)
    have send: "runs_to (hear k g (L_Send m p ps) c (st\<lparr>oks := us, taken := ms\<rparr>)) (hear k g L_Top (deliver_loop m (p # ps) c) st)"
      for us ms unfolding e by (rule hear_step [OF l_send]) (simp_all add: ih)
    have "runs_to (hear k g (L_Try m p ps) c (st\<lparr>oks := us, taken := ms\<rparr>)) (hear k g L_Top (deliver_loop m (p # ps) c) st)"
      for us ms by (rule hear_step [OF l_active]) (use True send in simp_all)
    then show ?thesis by (intro hear_step [OF l_hit [OF True]]) simp_all
  next
    case False
    then have e: "deliver_loop m (p # ps) c = deliver_loop m ps c" by auto
    show ?thesis
      unfolding e by (rule hear_step [OF l_skip [OF False]]) (simp_all add: ih)
  qed
qed

text \<open>One round of the loop.\<close>

lemma handle_runs_to:
  assumes "\<not> c_done c" and "\<not> ctx_done c" and "client_conn c"
  shows "runs_to (hear k g L_Top c st) (hear k g L_Top (handleMessage now m c) st)"
proof -
  have top: "runs_to (hear k g L_Top c st) st'" if "\<And>us ms. runs_to (hear k g L_Reading c (st\<lparr>oks := us, taken := ms\<rparr>)) st'" for st'
    by (rule hear_step [OF l_read]) (simp_all add: assms that)
  show ?thesis
  proof (rule top)
    fix us ms
    let ?st = "st\<lparr>oks := us, taken := ms\<rparr>"
    consider "Command m = CmdMsg" | "Command m = CmdOk" | "Command m \<noteq> CmdMsg" "Command m \<noteq> CmdOk" by blast
    then show "runs_to (hear k g L_Reading c ?st) (hear k g L_Top (handleMessage now m c) st)"
    proof cases
      case 1
      then show ?thesis
        using deliver_runs [of k g m "subs c" c] 
        by (intro hear_step [OF l_msg [OF 1]]) (simp_all add: handleMessage_def, metis runs_ghost)
    next
      case 2
      show ?thesis by (rule hear_step [OF l_ok [OF 2, where now = now]]) simp_all
    next
      case 3
      then have "handleMessage now m c = c" by (simp add: handleMessage_def)
      then show ?thesis by (intro hear_step [OF l_other [OF 3]]) simp_all
    qed
  qed
qed

lemma handle_ctx [simp]: "ctx_done (handleMessage now m c) = ctx_done c"
proof -
  have d: "ctx_done (deliver_loop m ps c) = ctx_done c" for ps c
    by (induction ps arbitrary: c) (simp_all add: on_sub_def)
  have "ctx_done (confirm_ack now t a c) = ctx_done c" for t a
    by (simp add: confirm_ack_def Let_def)
  with d show ?thesis by (auto simp: handleMessage_def Let_def split: option.splits)
qed

lemma runs_trans:
  assumes "runs_to st (hear k g pc c st1)" and "\<And>us ms. runs_to (hear k g pc c (st1\<lparr>oks := us, taken := ms\<rparr>)) st2"
  shows "runs_to st st2"
proof -
  obtain us ms where 1: "cstep\<^sup>*\<^sup>* st (hear k g pc c (st1\<lparr>oks := us, taken := ms\<rparr>))"
    using assms(1) unfolding runs_to_def by auto
  obtain us' ms' where 2: "cstep\<^sup>*\<^sup>* (hear k g pc c (st1\<lparr>oks := us, taken := ms\<rparr>)) (st2\<lparr>oks := us', taken := ms'\<rparr>)"
    using assms(2) unfolding runs_to_def by blast
  from rtranclp_trans [OF 1 2] show ?thesis unfolding runs_to_def by blast
qed

lemma fold_runs_to:
  assumes "\<not> c_done c" and "\<not> ctx_done c" and "client_conn c"
  shows "runs_to (hear k g L_Top c st) (hear k g L_Top (fold (handleMessage now) ms c) st)"
  using assms
proof (induction ms arbitrary: c st)
  case (Cons m ms)
  have "runs_to (hear k g L_Top (handleMessage now m c) (st\<lparr>oks := us, taken := tk\<rparr>))
      (hear k g L_Top (fold (handleMessage now) (m # ms) c) st)" for us tk
    using Cons.IH [of "handleMessage now m c" "st\<lparr>oks := us, taken := tk\<rparr>"] Cons.prems by (simp add: handle_frame)
  then show ?case
    using runs_trans [OF handle_runs_to] Cons.prems by blast
qed simp

section \<open>The sequential model of a subscribe call is a run\<close>

text \<open>The state in which a receive loop is about to read and a subscribe call is at a program point.\<close>

definition calling :: "nat \<Rightarrow> nat \<Rightarrow> nat \<Rightarrow> call \<Rightarrow> client \<Rightarrow> csys \<Rightarrow> csys" where
  "calling k g i u c st = hear k g L_Top c (put i u c st)"

lemma calling_put: "calling k g i u c st = put i u c (hear k g L_Top c' st)"
  by (simp add: calling_def hear_def put_def)

lemma calling_hear: "calling k g i u c st = hear k g L_Top c (put i u c' st)"
  by (simp add: calling_def hear_def put_def)

lemma calling_ghost [simp]:
  "runs_to s (calling k g i u c (st\<lparr>oks := us, taken := ms\<rparr>)) = runs_to s (calling k g i u c st)"
  by (simp add: runs_to_def calling_def hear_def put_def)

lemma calling_self [simp]: "runs_to (calling k g i u c (st\<lparr>oks := us, taken := ms\<rparr>)) (calling k g i u c st)"
  using runs_refl [of "calling k g i u c (st\<lparr>oks := us, taken := ms\<rparr>)"] by (simp only: calling_ghost)

lemma put_ghost: "put i u c (st\<lparr>oks := us, taken := ms\<rparr>) = (put i u c st)\<lparr>oks := us, taken := ms\<rparr>"
  by (simp add: put_def)

lemma calling_trans:
  assumes 1: "runs_to s (calling k g i u c st)"
    and 2: "\<And>us ms. runs_to (calling k g i u c (st\<lparr>oks := us, taken := ms\<rparr>)) (calling k g i u' c' (st\<lparr>oks := us, taken := ms\<rparr>))"
  shows "runs_to s (calling k g i u' c' st)"
proof (rule runs_trans)
  show "runs_to s (hear k g L_Top c (put i u c st))"
    using 1 by (simp add: calling_def)
  show "runs_to (hear k g L_Top c ((put i u c st)\<lparr>oks := us, taken := ms\<rparr>)) (calling k g i u' c' st)" for us ms
    using 2 [where us = us and ms = ms] unfolding calling_ghost unfolding calling_def put_ghost .
qed

definition quiet_loops :: "nat \<Rightarrow> csys \<Rightarrow> bool" where
  "quiet_loops k st \<longleftrightarrow> (\<forall>j g pc. j \<noteq> k \<and> recv st j = Running g pc \<longrightarrow> \<not> holds_lock pc)"

lemma unlocked: "quiet_loops k st \<Longrightarrow> \<not> locked (hear k g L_Top c st)"
  by (auto simp: quiet_loops_def locked_def)

lemma quiet_loops_ghost [simp]: "quiet_loops k (st\<lparr>oks := us, taken := ms\<rparr>) = quiet_loops k st"
  by (simp add: quiet_loops_def)

lemma run_calling:
  assumes "sub_run (gen st) t cap pc c pc' c'" and "quiet_loops k st"
  shows "runs_to (calling k g i (Subscribing t cap pc) c st) (calling k g i (Subscribing t cap pc') c' st)"
proof -
  let ?st = "hear k g L_Top c st"
  have "gen ?st = gen st" by (simp add: hear_def)
  then have "cstep\<^sup>*\<^sup>* (put i (Subscribing t cap pc) c ?st) (put i (Subscribing t cap pc') c' ?st)"
    using sub_run_steps assms unlocked by blast
  then have "cstep\<^sup>*\<^sup>* (calling k g i (Subscribing t cap pc) c st) (calling k g i (Subscribing t cap pc') c' st)"
    using calling_put [of k g i _ _ st c] by simp
  moreover have "x\<lparr>oks := oks x, taken := taken x\<rparr> = x" for x :: csys by simp
  ultimately show ?thesis unfolding runs_to_def by metis
qed

lemma fold_calling:
  assumes "\<not> c_done c" and "\<not> ctx_done c" and "client_conn c"
  shows "runs_to (calling k g i u c st) (calling k g i u (fold (handleMessage now) ms c) st)"
  using fold_runs_to [OF assms, of k g "put i u c st" now ms] by (simp add: calling_hear [of _ _ _ _ _ _ c])

text \<open>One attempt.\<close>

lemma new_sub_open: "\<not> closed_sub (registered n env t cap c) (next_sub c)"
  by (simp add: registered_fields new_subscription_def startProcessing_def make_chan_def)

lemma registered_ctx [simp]: "ctx_done (registered n env t cap c) = ctx_done c"
  by (simp add: registered_def add_pending_def drop_pending_def Let_def split: option.splits)

lemma wait_runs:
  fixes t :: string and cap :: nat
  defines "S \<equiv> Subscribing t cap"
  assumes 1: "runs_to s (calling k g i (S (S_Wait n p a (gen st))) c st)" and free: "quiet_loops k st"
    and op: "\<not> closed_sub c p"
  shows "case wait_ack env a c of
      GotAck \<Rightarrow> runs_to s (calling k g i (S (S_Returned (Inr p))) c st)
    | GotTimeout \<Rightarrow> runs_to s (calling k g i (S (S_Top (Suc n) (Some AckTimeoutError))) (abandon t p c) st)
    | GotContext err \<Rightarrow> runs_to s (calling k g i (S (S_Returned (Inl (ContextError err)))) (abandon t p c) st)
    | GotDone \<Rightarrow> runs_to s (calling k g i (S (S_Returned (Inl ConnectionClosed))) c st)"
proof -
  have wait: "runs_to s (calling k g i (S pc') c' st)"
    if "sub_run (gen st) t cap (S_Wait n p a (gen st)) c pc' c'" for pc' c'
    unfolding S_def by (rule calling_trans [OF 1 [unfolded S_def] run_calling]) (simp_all add: that free)
  have acked: "acked (ack_obj c a)" if "wait_ack env a c = GotAck"
    using that by (auto simp: wait_ack_def split: wait_choice.splits if_splits)
  have c_done: "c_done c" if "wait_ack env a c = GotDone"
    using that by (auto simp: wait_ack_def split: wait_choice.splits if_splits)
  show ?thesis
    using wait [OF run_step [OF s_acked [OF acked] run_refl]] wait [OF run_step [OF s_timeout attempt_abandons [OF op]]]
      wait [OF run_step [OF s_context attempt_abandons [OF op]]]
      wait [OF run_step [OF s_done [OF disjI1 [OF c_done]] run_refl]]
    by (auto split: wait_result.splits)
qed

lemma attempt_runs:
  fixes t :: string and cap :: nat
  defines "S \<equiv> Subscribing t cap"
  assumes n: "n < maxRetries" and free: "quiet_loops k st" and c: "\<not> c_done c" "\<not> ctx_done c" and ok: "client_ok c"
  shows "case subscribe_attempt n env t cap c of
      Continue c' err \<Rightarrow> runs_to (calling k g i (S (S_Top n e)) c st) (calling k g i (S (S_Top (Suc n) (Some err))) c' st)
    | Return c' res \<Rightarrow> runs_to (calling k g i (S (S_Top n e)) c st) (calling k g i (S (S_Returned res)) c' st)"
proof -
  let ?r = "registered n env t cap c" and ?p = "next_sub c" and ?a = "next_ack c"
  have go: "runs_to (calling k g i (S (S_Top n e)) c st) (calling k g i (S pc') c' st)"
    if "sub_run (gen st) t cap (S_Top n e) c pc' c'" for pc' c'
    unfolding S_def by (rule run_calling [OF that free])
  have reg: "sub_run (gen st) t cap (S_Write n ?p ?a) ?r pc' c' \<Longrightarrow> sub_run (gen st) t cap (S_Top n e) c pc' c'" for pc' c'
    by (rule run_trans [OF attempt_registers [OF n]])
  have conn: "client_conn ?r = client_conn c" "outgoing ?r = outgoing c" by (simp_all add: registered_fields)
  define c5 where "c5 = ?r\<lparr>outgoing := outgoing c @ [Encode (NewMessageCmd CmdSub t [])]\<rparr>"
  define c6 where "c6 = fold (handleMessage (env_now env)) (env_incoming env) c5"
  have ok5: "client_ok c5" "\<not> closed_sub c5 ?p" "\<not> c_done c5" "\<not> ctx_done c5"
    using registered_ok [OF ok] new_sub_open c by (simp_all add: c5_def) (simp add: registered_fields)
  then have op: "\<not> closed_sub c6 ?p"
    using handle_fold_ok [of c5 "env_now env" "env_incoming env" ?p] by (simp add: c6_def)
  have sent: "runs_to (calling k g i (S (S_Top n e)) c st) (calling k g i (S (S_Wait n ?p ?a (gen st))) c6 st)" if "client_conn c"
  proof -
    have "sub_run (gen st) t cap (S_Write n ?p ?a) ?r (S_Wait n ?p ?a (gen st)) c5"
      using run_step [OF s_write run_refl, of ?r] that conn by (simp add: c5_def)
    moreover have "client_conn c5" using that conn by (simp add: c5_def)
    ultimately show ?thesis
      unfolding c6_def using calling_trans [OF go [OF reg] fold_calling] ok5 by blast
  qed
  show ?thesis
    using go [OF run_step [OF s_cancelled [OF n] run_refl]] go [OF reg [OF run_step [OF s_no_conn run_refl]]]
      go [OF reg [OF run_step [OF s_write_fail attempt_abandons [OF new_sub_open]]]]
      wait_runs [OF sent [unfolded S_def] free op, of env, folded S_def] conn
    unfolding subscribe_attempt_eq c6_def c5_def Let_def by (auto split: option.splits wait_result.splits)
qed

lemma fold_ctx [simp]: "ctx_done (fold (handleMessage now) ms c) = ctx_done c"
  by (induction ms arbitrary: c) simp_all

lemma abandon_frame [simp]:
  "c_done (abandon t p c) = c_done c" "ctx_done (abandon t p c) = ctx_done c"
  "client_ok c \<Longrightarrow> client_ok (abandon t p c)"
  by (simp_all add: abandon_def Let_def client_ok_pending)
    (simp_all add: forget_pending_def removeSubscription_def on_sub_def)

lemma attempt_continues:
  assumes "subscribe_attempt n env t cap c = Continue c' err" and "client_ok c"
  shows "c_done c' = c_done c \<and> ctx_done c' = ctx_done c \<and> client_ok c'"
proof -
  let ?c5 = "(registered n env t cap c)\<lparr>outgoing := outgoing c @ [Encode (NewMessageCmd CmdSub t [])]\<rparr>"
  have "client_ok ?c5" using registered_ok [OF assms(2)] by simp
  then have "client_ok (fold (handleMessage (env_now env)) (env_incoming env) ?c5)"
    using handle_fold_ok by blast
  then show ?thesis
    using assms registered_ok [OF assms(2)] handle_fold_frame [of "env_now env" "env_incoming env" ?c5]
    by (auto simp: subscribe_attempt_eq Let_def registered_fields split: option.splits if_splits wait_result.splits)
qed

lemma subscribe_loop_runs:
  assumes free: "quiet_loops k st" and "\<not> c_done c" and "\<not> ctx_done c" and "client_ok c"
  shows "runs_to (calling k g i (Subscribing t cap (S_Top n e)) c st)
    (calling k g i (Subscribing t cap (S_Returned (snd (subscribe_loop n envs t cap e c))))
      (fst (subscribe_loop n envs t cap e c)) st)"
  using assms
proof (induction n envs t cap e c arbitrary: st rule: subscribe_loop.induct)
  case (1 n envs t cap e c)
  show ?case
  proof (cases "n < maxRetries")
    case False
    then show ?thesis
      using run_calling [OF run_step [OF s_exhausted [OF False] run_refl] "1.prems"(1)]
      by (simp add: subscribe_loop.simps [of n])
  next
    case True
    note a = attempt_runs [OF True "1.prems", where env = "envs n" and t = t and cap = cap and g = g and i = i and e = e]
    show ?thesis
    proof (cases "subscribe_attempt n (envs n) t cap c")
      case (Return c' res)
      then show ?thesis using a True by (simp add: subscribe_loop.simps [of n])
    next
      case (Continue c' err)
      then have "runs_to (calling k g i (Subscribing t cap (S_Top n e)) c st)
          (calling k g i (Subscribing t cap (S_Top (Suc n) (Some err))) c' st)" using a by simp
      moreover have "runs_to (calling k g i (Subscribing t cap (S_Top (Suc n) (Some err))) c' (st\<lparr>oks := us, taken := ms\<rparr>))
          (calling k g i (Subscribing t cap (S_Returned (snd (subscribe_loop (Suc n) envs t cap (Some err) c'))))
            (fst (subscribe_loop (Suc n) envs t cap (Some err) c')) (st\<lparr>oks := us, taken := ms\<rparr>))" for us ms
        using "1.IH" [OF True Continue] attempt_continues [OF Continue] "1.prems"
        by (simp del: calling_ghost)
      ultimately show ?thesis
        using calling_trans True Continue by (simp add: subscribe_loop.simps [of n])
    qed
  qed
qed

section \<open>The sequential model of an unsubscribe call is a run\<close>

lemma drain_runs:
  assumes "\<not> callback_busy st p" and "p < next_sub (cc st)"
  shows "cstep\<^sup>*\<^sup>* st (st\<lparr>cc := on_sub p (\<lambda>s. drain s) (cc st)\<rparr>)"
  using assms
proof (induction "sub_obj (cc st) p" arbitrary: st rule: drain.induct)
  case 1
  show ?case
  proof (cases "process_one (sub_obj (cc st) p)")
    case None
    then have "drain (sub_obj (cc st) p) = sub_obj (cc st) p" by (simp add: drain.simps [of "sub_obj (cc st) p"])
    then show ?thesis by (simp add: on_sub_def)
  next
    case (Some s')
    let ?st = "st\<lparr>cc := on_sub p (\<lambda>_. s') (cc st)\<rparr>"
    have busy: "\<not> callback_busy ?st p" using "1.prems" by (simp add: callback_busy_def)
    have "cstep\<^sup>*\<^sup>* ?st (?st\<lparr>cc := on_sub p (\<lambda>s. drain s) (cc ?st)\<rparr>)"
      using "1.hyps" [of ?st] Some busy "1.prems" by (simp add: on_sub_def)
    moreover have "?st\<lparr>cc := on_sub p (\<lambda>s. drain s) (cc ?st)\<rparr> = st\<lparr>cc := on_sub p (\<lambda>s. drain s) (cc st)\<rparr>"
      using Some drain.simps [of "sub_obj (cc st) p"] by (simp add: on_sub_def)
    ultimately show ?thesis
      using c_process [OF "1.prems"(2) Some "1.prems"(1)] by (metis converse_rtranclp_into_rtranclp)
  qed
qed

lemma unsub_once:
  "calls st i = Unsubscribing p pc \<Longrightarrow> unsub_step (locked st) (unsub_inside st p) p pc (cc st) pc' c' \<Longrightarrow>
    cstep\<^sup>*\<^sup>* (put i (Unsubscribing p pc') c' st) st' \<Longrightarrow> cstep\<^sup>*\<^sup>* st st'"
  using c_unsub [of st i p pc pc' c'] by (auto simp: put_def intro: converse_rtranclp_into_rtranclp)

lemma unsub_put:
  assumes "unsub_step (locked st) (unsub_inside (put i (Unsubscribing p pc) c st) p) p pc c pc' c'"
    and "cstep\<^sup>*\<^sup>* (put i (Unsubscribing p pc') c' st) st'"
  shows "cstep\<^sup>*\<^sup>* (put i (Unsubscribing p pc) c st) st'"
  using unsub_once [of "put i (Unsubscribing p pc) c st" i p pc pc' c' st'] assms by simp

text \<open>The end of \<open>Unsubscribe\<close>, after the goroutine of the subscription has ended.\<close>

lemma unsub_tail:
  assumes l: "\<not> locked st" and p: "\<not> processing (sub_obj c p)"
  shows "cstep\<^sup>*\<^sup>* (put i (Unsubscribing p U_WaitProc) c st)
    (if \<not> client_conn c then put i (Unsubscribing p (U_Returned None)) (removeSubscription p c) st
     else case w of
        Some err \<Rightarrow> put i (Unsubscribing p (U_Returned (Some (WriteError err)))) c st
      | None \<Rightarrow> put i (Unsubscribing p (U_Returned None))
          (removeSubscription p (c\<lparr>outgoing := outgoing c @ [Encode (NewMessageCmd CmdUnsub (sub_subject (sub_obj c p)) [])]\<rparr>)) st)"
proof -
  have remove: "cstep\<^sup>*\<^sup>* (put i (Unsubscribing p U_Remove) c' st)
      (put i (Unsubscribing p (U_Returned None)) (removeSubscription p c') st)" for c'
    using l by (intro unsub_put [OF u_remove]) simp_all
  show ?thesis
    using l
    by (intro unsub_put [OF u_wait [OF p]])
      (auto intro: unsub_put [OF u_no_conn] unsub_put [OF u_write_fail] unsub_put [OF u_write] remove split: option.splits)
qed

lemma drain_ends:
  assumes "chan_closed (msgChan s)"
  shows "\<not> processing (drain s) \<and> sub_subject (drain s) = sub_subject s"
proof (cases "processing s")
  case True
  then show ?thesis using drain_closed assms by blast
next
  case False
  then have "drain s = s" by (simp add: drain.simps [of s] process_one_def)
  with False show ?thesis by simp
qed

lemma unsubscribe_runs:
  assumes i: "calls st i = Unsubscribing p U_Once" and l: "\<not> locked st" and p: "p < next_sub (cc st)"
    and others: "\<not> callback_busy st p" "origin st i = None" "\<not> unsub_inside st p"
    and res: "Subscription_Unsubscribe w p (cc st) = Some (c', e)"
  shows "cstep\<^sup>*\<^sup>* st (put i (Unsubscribing p (U_Returned e)) c' st)"
proof (cases "sub_closeOnce (sub_obj (cc st) p)")
  case True
  have "cstep\<^sup>*\<^sup>* st (put i (Unsubscribing p (U_Returned None)) (cc st) st)"
    by (rule unsub_once [OF i u_again [OF True others(3)]]) simp
  then show ?thesis using res True by (simp add: Subscription_Unsubscribe_def)
next
  case False
  define c1 where "c1 = on_sub p (\<lambda>s. s\<lparr>sub_closeOnce := True\<rparr>) (cc st)"
  define c2 where "c2 = on_sub p (\<lambda>s. s\<lparr>active := False\<rparr>) c1"
  define c3 where "c3 = on_sub p close_msgChan c2"
  define c4 where "c4 = on_sub p drain c3"
  note fields = c1_def c2_def c3_def c4_def on_sub_def close_msgChan_def
  have first: "cstep\<^sup>*\<^sup>* st st'" if "cstep\<^sup>*\<^sup>* (put i (Unsubscribing p U_Load) c1 st) st'" for st'
    using unsub_once [OF i u_first [OF False]] that by (simp add: c1_def)
  show ?thesis
  proof (cases "active (sub_obj (cc st) p)")
    case inactive: False
    have "\<not> active (sub_obj c1 p)" using inactive by (simp add: fields)
    then show ?thesis
      using first [OF unsub_put [OF u_inactive rtranclp.rtrancl_refl]] res False inactive
      by (simp add: Subscription_Unsubscribe_def Let_def c1_def)
  next
    case True
    have a: "active (sub_obj c1 p)" "\<not> closed_sub c2 p"
      using True res False by (auto simp: fields Subscription_Unsubscribe_def Let_def split: if_splits)
    have busy: "\<not> callback_busy (put i (Unsubscribing p U_WaitProc) c3 st) p"
      using others(1,2) by (auto simp: callback_busy_def)
    have closed: "cstep\<^sup>*\<^sup>* st (put i (Unsubscribing p U_WaitProc) c3 st)"
      using first [OF unsub_put [OF u_active [OF a(1)] unsub_put [OF u_store unsub_put [OF u_close]]]] a(2)
      by (simp add: c2_def c3_def)
    have "(put i (Unsubscribing p U_WaitProc) c3 st)\<lparr>cc := on_sub p drain (cc (put i (Unsubscribing p U_WaitProc) c3 st))\<rparr> =
        put i (Unsubscribing p U_WaitProc) c4 st"
      by (simp add: put_def c4_def)
    then have drained: "cstep\<^sup>*\<^sup>* st (put i (Unsubscribing p U_WaitProc) c4 st)"
      using drain_runs [OF busy] closed p by (simp add: fields) 
    have "closed_sub c3 p" by (simp add: fields)
    then have e: "\<not> processing (sub_obj c4 p)" "sub_subject (sub_obj c4 p) = sub_subject (sub_obj (cc st) p)"
      using drain_ends [of "sub_obj c3 p"] by (simp_all add: fields)
    have c4: "c4 = on_sub p (\<lambda>s. drain (close_msgChan (s\<lparr>active := False\<rparr>))) c1"
      by (simp add: fields)
    from rtranclp_trans [OF drained unsub_tail [OF l e(1), of i w]] show ?thesis
      using res False True e(2)
      by (auto simp: Subscription_Unsubscribe_def Let_def c1_def [symmetric] c4 [symmetric] split: option.splits if_splits)
  qed
qed

section \<open>Calls made in a callback\<close>

text \<open>The goroutine of a subscription runs while its callback waits for a call that it made.\<close>

definition busy_inv :: "csys \<Rightarrow> bool" where
  "busy_inv st \<longleftrightarrow> (\<forall>i p. origin st i = Some p \<longrightarrow> \<not> returned (calls st i) \<longrightarrow>
     p < next_sub (cc st) \<and> processing (sub_obj (cc st) p))"

lemma busy_change:
  assumes "busy_inv st" and "next_sub (cc st) \<le> next_sub (cc st')"
    and "\<And>p. p < next_sub (cc st) \<Longrightarrow> callback_busy st p \<Longrightarrow> processing (sub_obj (cc st') p) = processing (sub_obj (cc st) p)"
    and "origin st' = origin st" and "\<And>i. returned (calls st i) \<Longrightarrow> returned (calls st' i)"
  shows "busy_inv st'"
  unfolding busy_inv_def
proof (intro allI impI)
  fix i p
  assume p: "origin st' i = Some p" "\<not> returned (calls st' i)"
  then have i: "origin st i = Some p" "\<not> returned (calls st i)" using assms(4,5) by auto
  then have "p < next_sub (cc st) \<and> processing (sub_obj (cc st) p)" using assms(1) by (simp add: busy_inv_def)
  moreover have "callback_busy st p" using i by (auto simp: callback_busy_def)
  ultimately show "p < next_sub (cc st') \<and> processing (sub_obj (cc st') p)" using assms(2,3) by fastforce
qed

lemma busy_keeps:
  "busy_inv st \<Longrightarrow> keeps (cc st) (cc st') \<Longrightarrow> origin st' = origin st \<Longrightarrow> (\<And>i. returned (calls st i) \<Longrightarrow> returned (calls st' i)) \<Longrightarrow>
    busy_inv st'"
  by (rule busy_change [of st]) (simp_all add: keeps_def)

lemma busy_begin:
  assumes "busy_inv st" and "calls st i = Idle" and "caller_free st caller"
  shows "busy_inv (begin_call i k caller st)"
  using assms by (auto simp: busy_inv_def caller_free_def split: option.splits)

lemma no_return_step:
  "\<not> sub_step l g t cap (S_Returned r) c pc' c'" "\<not> unsub_step l b p (U_Returned e) c upc' c'"
  "\<not> close_step l b b' (K_Returned e) c kpc' c'"
  by (auto elim: sub_step.cases unsub_step.cases close_step.cases)

lemma busy_inv_step:
  assumes "cstep st st'" and "busy_inv st"
  shows "busy_inv st'"
  using assms
proof (induction rule: cstep.induct)
  case (c_sub st i t cap pc pc' c')
  consider "keeps (cc st) c'" | "c' = register t cap (cc st)" using sub_step_keeps [OF c_sub(2)] by blast
  then show ?case
  proof cases
    case 1
    then show ?thesis
      using c_sub no_return_step(1) by - (rule busy_keeps [OF c_sub(3)], auto)
  next
    case 2
    then show ?thesis
      using c_sub no_return_step(1) by - (rule busy_change [OF c_sub(3)], auto simp: register_def)
  qed
next
  case (c_unsub st i p pc pc' c')
  then show ?case
    using unsub_step_keeps [OF c_unsub(2)] no_return_step(2) by - (rule busy_keeps [OF c_unsub(3)], auto)
next
  case (c_close st i pc pc' c')
  then show ?case
    using quiet_keeps [OF close_step_quiet [OF c_close(2)]] no_return_step(3) by - (rule busy_keeps [OF c_close(3)], auto)
next
  case (c_recv st k g pc pc' c' ev)
  have "next_sub c' = next_sub (cc st) \<and> (\<forall>p. processing (sub_obj c' p) = processing (sub_obj (cc st) p))"
    using recv_step_effect [OF c_recv(2)] by (auto simp: quiet_def calm_def on_sub_def split: if_splits)
  then show ?case by - (rule busy_change [OF c_recv(3)], simp_all)
next
  case (c_beat st k g u w c' goOn)
  then show ?case
    using quiet_keeps [OF simple_quiet(5), of "cc st" w] by - (rule busy_keeps [OF c_beat(3)], simp_all)
next
  case (c_publish x w t b st c' res)
  then show ?case
    using quiet_keeps [OF simple_quiet(2), of "cc st" x w t b] by - (rule busy_keeps [OF c_publish(2)], simp_all)
next
  case (c_process p st s')
  then show ?case by - (rule busy_change [OF c_process(4)], auto simp: on_sub_def)
next
  case (c_redial st pc' c')
  then show ?case
    using quiet_keeps [OF redial_step_quiet [OF c_redial(1)]] by - (rule busy_keeps [OF c_redial(2)], simp_all)
next
  case (c_redialled st pc' c' k)
  then show ?case
    using quiet_keeps [OF redial_step_quiet [OF c_redialled(1)]] by - (rule busy_keeps [OF c_redialled(4)], simp_all)
next
  case (c_recv_exit st k g)
  then show ?case by - (rule busy_keeps [of st], simp_all)
next
  case (c_beat_exit st k g)
  then show ?case by - (rule busy_keeps [of st], simp_all)
next
  case (c_monitor st w)
  then show ?case by - (rule busy_keeps [of st], simp_all)
next
  case (c_enable st d)
  then show ?case by - (rule busy_keeps [of st], simp_all)
next
  case (c_disable st)
  then show ?case by - (rule busy_keeps [of st], simp_all)
next
  case (c_expire st)
  then show ?case by - (rule busy_keeps [of st], simp_all)
qed (simp_all add: busy_begin, simp_all add: busy_inv_def)

lemma busy_inv_start: "cstart st \<Longrightarrow> busy_inv st"
  by (simp add: busy_inv_def cstart_def)

interpretation kb: invariant_system cstart cstep busy_inv
  by unfold_locales (auto intro: busy_inv_start busy_inv_step)

text \<open>A call of \<open>Unsubscribe\<close> from the subscription's own callback, in \<open>wg.Wait()\<close>.\<close>

definition self_wait :: "nat \<Rightarrow> ptr \<Rightarrow> csys \<Rightarrow> bool" where
  "self_wait i p st \<longleftrightarrow> calls st i = Unsubscribing p U_WaitProc \<and> origin st i = Some p"

lemma self_wait_step:
  assumes "cstep st st'" and "busy_inv st" and "self_wait i p st"
  shows "self_wait i p st'"
proof -
  have p: "processing (sub_obj (cc st) p)"
    using assms(2,3) unfolding busy_inv_def self_wait_def by fastforce
  then have "\<not> unsub_step l b p U_WaitProc (cc st) pc' c'" for l b pc' c'
    by (auto elim: unsub_step.cases)
  with assms(1,3) show ?thesis
    unfolding self_wait_def by (cases rule: cstep.cases) (auto simp: begin_call_def)
qed

lemma self_wait_forever:
  assumes "cstep\<^sup>*\<^sup>* st st'" and "busy_inv st" and "self_wait i p st"
  shows "self_wait i p st' \<and> busy_inv st'"
  using assms by (induction rule: rtranclp_induct) (auto intro: self_wait_step busy_inv_step)

section \<open>Sample runs\<close>

lemma creach: "reach cstart cstep st \<Longrightarrow> cstep st st' \<Longrightarrow> reach cstart cstep st'"
  by (rule reach_step)

lemma creaches: "cstep\<^sup>*\<^sup>* st st' \<Longrightarrow> reach cstart cstep st \<Longrightarrow> reach cstart cstep st'"
  by (rule reach_steps)

definition fresh_sys :: csys where
  "fresh_sys = \<lparr>cc = example_client, gen = 0, calls = (\<lambda>i. Idle), origin = (\<lambda>i. None),
     recv = (\<lambda>k. if k = 0 then Started else Off), beat = (\<lambda>k. if k = 0 then Started else Off),
     recv_closed = (\<lambda>g. False), beat_closed = (\<lambda>g. False), redial = G_None, oks = [], taken = (\<lambda>p. [])\<rparr>"

lemma fresh_sys_reach: "reach cstart cstep fresh_sys"
proof (rule reach_start)
  have "ConnectWithContext None (Inr :: bytes \<Rightarrow> string + bytes) (Inr ()) 0 (\<lambda>p. new_subscription ''x'' 1)
      (\<lambda>a. \<lparr>ack_subject = [], acked = False, ackedAt = None, ack_timeout = 0\<rparr>) ''srv'' (replicate 32 0) = Inr example_client"
    by (simp add: example_client_def ConnectWithContext_def newAES256BlockCrypt_def)
  then have "\<exists>(mk :: bytes \<Rightarrow> string + bytes) r now sh ah address key.
      ConnectWithContext None mk r now sh ah address key = Inr example_client" by blast
  then show "cstart fresh_sys" by (simp add: cstart_def fresh_sys_def)
qed

lemma fresh_sys_free: "\<not> locked fresh_sys" "\<not> loops_run fresh_sys" "\<not> locked (fresh_sys\<lparr>calls := ks, origin := os, cc := c\<rparr>)"
  by (simp_all add: locked_def loops_run_def fresh_sys_def)

text \<open>A subscribe call for \<open>x\<close> that waits for its acknowledgement, with the receive loop not started yet.\<close>

abbreviation x_call :: "sub_pc \<Rightarrow> call" where
  "x_call pc \<equiv> Subscribing ''x'' 100 pc"

lemma begin_put: "begin_call i k caller st = put i k (cc st) (st\<lparr>origin := (origin st)(i := caller)\<rparr>)"
  by (simp add: begin_call_def put_def)

definition sent_sub :: "nat \<Rightarrow> client \<Rightarrow> client" where
  "sent_sub n c = (registered n timeout_env ''x'' 100 c)
     \<lparr>outgoing := outgoing c @ [Encode (NewMessageCmd CmdSub ''x'' [])]\<rparr>"

lemma wait_run:
  assumes "n < maxRetries" and "client_conn c"
  shows "sub_run g ''x'' 100 (S_Top n e) c (S_Wait n (next_sub c) (next_ack c) g) (sent_sub n c)"
proof -
  have "sub_run g ''x'' 100 (S_Write n (next_sub c) (next_ack c)) (registered n timeout_env ''x'' 100 c)
      (S_Wait n (next_sub c) (next_ack c) g) (sent_sub n c)"
    using run_step [OF s_write run_refl, of "registered n timeout_env ''x'' 100 c"] assms
    by (simp add: sent_sub_def registered_fields)
  then show ?thesis by (rule run_trans [OF attempt_registers [OF assms(1)]])
qed

lemma begin_wait:
  assumes r: "reach cstart cstep st" and i: "calls st i = Idle" and l: "\<not> locked st" and "client_conn (cc st)"
  shows "reach cstart cstep (put i (x_call (S_Wait 0 (next_sub (cc st)) (next_ack (cc st)) (gen st)))
    (sent_sub 0 (cc st)) (st\<lparr>origin := (origin st)(i := None)\<rparr>))"
proof -
  let ?st = "st\<lparr>origin := (origin st)(i := None)\<rparr>"
  have 1: "reach cstart cstep (put i (x_call (S_Top 0 None)) (cc st) ?st)"
    using creach [OF r c_subscribe [OF i, of "''x''" None 100]] by (simp add: caller_free_def begin_put max_lens)
  have f: "gen ?st = gen st" "\<not> locked ?st" using l by (simp_all add: locked_def)
  show ?thesis
    using creaches [OF sub_run_steps [OF wait_run f] 1] assms(4) by (simp add: maxRetries_def)
qed

lemma sent_sub_fields [simp]:
  "next_sub (sent_sub n c) = Suc (next_sub c)" "next_ack (sent_sub n c) = Suc (next_ack c)" "client_conn (sent_sub n c) = client_conn c"
  "map_of (pendingSubs (sent_sub n c)) ''x'' = Some (next_ack c)" "c_closeOnce (sent_sub n c) = c_closeOnce c"
  "sub_obj (sent_sub n c) = (sub_obj c)(next_sub c := new_subscription ''x'' 100)" "subs (sent_sub n c) = subs c @ [next_sub c]"
  using registered_fields [of n timeout_env "''x''" 100 c]
  by (simp_all add: sent_sub_def) (simp add: registered_def add_pending_def drop_pending_def Let_def split: option.splits)

text \<open>Two subscribe calls for the same subject: the retry of one closes the acknowledgement of the other.\<close>

lemma retry_acknowledges_other:
  "\<exists>st. reach cstart cstep st \<and> calls st 1 = x_call (S_Returned (Inr 1)) \<and> oks st = [] \<and> active (sub_obj (cc st) 1) \<and>
     1 \<in> set (subs (cc st))"
proof -
  let ?c = "sent_sub 0 example_client"
  define c1 where "c1 = abandon ''x'' 0 ?c"
  have f: "next_sub c1 = 1" "next_ack c1 = 1" "client_conn c1" "subs c1 = []" "gen fresh_sys = 0" "cc fresh_sys = example_client"
    "calls fresh_sys = (\<lambda>i. Idle)" "oks fresh_sys = []"
    by (simp_all add: c1_def abandon_def forget_pending_def removeSubscription_def on_sub_def example_client_fields
        fresh_sys_def Let_def)
  let ?s0 = "fresh_sys\<lparr>origin := (origin fresh_sys)(0 := None)\<rparr>"
  have l: "\<not> locked ?s0" by (simp add: locked_def fresh_sys_def)
  have "\<not> closed_sub ?c 0"
    by (simp add: example_client_fields new_subscription_def startProcessing_def make_chan_def)
  then have "sub_run 0 ''x'' 100 (S_Wait 0 0 0 0) ?c (S_Top 1 (Some AckTimeoutError)) c1"
    unfolding c1_def using run_step [OF s_timeout attempt_abandons] by fastforce
  then have "sub_run 0 ''x'' 100 (S_Wait 0 0 0 0) ?c (S_Clean 1) c1"
    using run_trans [OF _ run_step [OF s_begin run_refl]] by (fastforce simp: maxRetries_def)
  moreover have "reach cstart cstep (put 0 (x_call (S_Wait 0 0 0 0)) ?c ?s0)"
    using begin_wait [OF fresh_sys_reach, of 0] fresh_sys_free(1) f by (simp add: example_client_fields)
  ultimately have r1: "reach cstart cstep (put 0 (x_call (S_Clean 1)) c1 ?s0)"
    using creaches [OF sub_run_steps [OF _ _ l]] f by simp
  define s1 where "s1 = put 0 (x_call (S_Clean 1)) c1 ?s0"
  define s2 where "s2 = put 1 (x_call (S_Wait 0 1 1 0)) (sent_sub 0 c1) (s1\<lparr>origin := (origin s1)(1 := None)\<rparr>)"
  have l1: "\<not> locked s1" using l by (simp add: s1_def)
  have "reach cstart cstep s2"
    using begin_wait [OF r1 [folded s1_def], of 1] l1 f by (simp add: s2_def) (simp add: s1_def f)
  moreover define s3 where "s3 = put 0 (x_call (S_Append 1)) (drop_pending ''x'' (sent_sub 0 c1)) s2"
  have "cstep s2 s3"
    using c_sub [of s2 0 "''x''" 100 "S_Clean 1"] s_clean by (simp add: s3_def put_def s2_def s1_def)
  ultimately have r3: "reach cstart cstep s3" by (rule creach)
  have "acked (ack_obj (cc s3) 1)" by (simp add: s3_def drop_pending_acked f)
  moreover have c3: "calls s3 1 = x_call (S_Wait 0 1 1 0)" by (simp add: s3_def s2_def)
  moreover define s4 where "s4 = put 1 (x_call (S_Returned (Inr 1))) (cc s3) s3"
  ultimately have "cstep s3 s4"
    using c_sub [OF c3 s_acked] by (simp add: put_def)
  with r3 have "reach cstart cstep s4" by (rule creach)
  then show ?thesis
    by (rule_tac exI [of _ s4])
      (simp add: s4_def s3_def s2_def s1_def f new_subscription_def startProcessing_def)
qed

text \<open>\<open>Close\<close> closes the acknowledgement that a subscribe call waits for.\<close>

lemma close_put:
  assumes "close_step (locked st) (close_inside (put i (Closing pc) c st)) (loops_run st) pc c pc' c'"
    and "cstep\<^sup>*\<^sup>* (put i (Closing pc') c' st) st'"
  shows "cstep\<^sup>*\<^sup>* (put i (Closing pc) c st) st'"
proof -
  have "cstep (put i (Closing pc) c st) (put i (Closing pc') c' st)"
    using c_close [of "put i (Closing pc) c st" i pc pc' c'] assms(1) by (simp add: put_def locked_def loops_run_def)
  then show ?thesis using assms(2) by (rule converse_rtranclp_into_rtranclp)
qed

lemma closing_runs:
  assumes "\<not> c_closeOnce c" and "\<not> locked st" and "\<not> loops_run st"
  defines "c1 \<equiv> c\<lparr>c_closeOnce := True, ctx_done := True, c_done := True\<rparr>"
  defines "c2 \<equiv> (deactivate_all (subs c1) c1)\<lparr>subs := []\<rparr>"
  shows "cstep\<^sup>*\<^sup>* (put i (Closing K_Once) c st) (put i (Closing K_Conn) (clear_pending (pendingSubs c2) c2) st)"
proof -
  have "cstep\<^sup>*\<^sup>* (put i (Closing K_WaitLoops) c1 st) (put i (Closing K_Conn) (clear_pending (pendingSubs c2) c2) st)"
    using assms(2,3) unfolding c2_def
    by (intro close_put [OF k_wait close_put [OF k_subs close_put [OF k_pending]]]) simp_all
  then show ?thesis
    using assms(1) unfolding c1_def
    by (intro close_put [OF k_first close_put [OF k_cancel close_put [OF k_done]]]) simp_all
qed

lemma close_acknowledges:
  "\<exists>st. reach cstart cstep st \<and> calls st 0 = x_call (S_Returned (Inr 0)) \<and> oks st = [] \<and> \<not> active (sub_obj (cc st) 0) \<and>
     ctx_done (cc st)"
proof -
  let ?c = "sent_sub 0 example_client" and ?s0 = "fresh_sys\<lparr>origin := (origin fresh_sys)(0 := None)\<rparr>"
  have f: "gen fresh_sys = 0" "cc fresh_sys = example_client" "calls fresh_sys = (\<lambda>i. Idle)" "oks fresh_sys = []"
    by (simp_all add: fresh_sys_def)
  define s1 where "s1 = put 0 (x_call (S_Wait 0 0 0 0)) ?c ?s0"
  define s2 where "s2 = s1\<lparr>origin := (origin s1)(1 := None)\<rparr>"
  have r1: "reach cstart cstep s1"
    using begin_wait [OF fresh_sys_reach, of 0] fresh_sys_free(1) f by (simp add: s1_def example_client_fields)
  have "calls s1 1 = Idle" by (simp add: s1_def f)
  from creach [OF r1 c_closing [OF this, of None]]
  have r2: "reach cstart cstep (put 1 (Closing K_Once) ?c s2)"
    by (simp add: begin_put caller_free_def s2_def) (simp add: s1_def)
  define c1 where "c1 = ?c\<lparr>c_closeOnce := True, ctx_done := True, c_done := True\<rparr>"
  define c2 where "c2 = (deactivate_all (subs c1) c1)\<lparr>subs := []\<rparr>"
  define c3 where "c3 = clear_pending (pendingSubs c2) c2"
  have free: "\<not> locked s2" "\<not> loops_run s2"
    by (simp_all add: s2_def s1_def locked_def loops_run_def fresh_sys_def)
  define s3 where "s3 = put 1 (Closing K_Conn) c3 s2"
  have r3: "reach cstart cstep s3"
    using creaches [OF closing_runs [OF _ free] r2]
    by (simp add: s3_def c3_def c2_def c1_def example_client_fields)
  have "map_of (pendingSubs c2) ''x'' = Some 0"
    using sent_sub_fields(4) [of 0 example_client] by (simp add: c2_def c1_def example_client_fields on_sub_def)
  then have "acked (ack_obj (cc s3) 0)" using clear_all_pending [of c2 "''x''" 0] by (simp add: s3_def c3_def)
  moreover have w: "calls s3 0 = x_call (S_Wait 0 0 0 0)" by (simp add: s3_def s2_def s1_def)
  moreover define s4 where "s4 = put 0 (x_call (S_Returned (Inr 0))) c3 s3"
  ultimately have "cstep s3 s4" using c_sub [OF w s_acked] by (simp add: s3_def put_def)
  with r3 have "reach cstart cstep s4" by (rule creach)
  moreover have "\<not> active (sub_obj c3 0)" "ctx_done c3"
    by (simp_all add: c3_def c2_def c1_def clear_pending_frame deactivate_objs example_client_fields on_sub_def)
  ultimately show ?thesis
    by (intro exI [of _ s4]) (simp add: s4_def s3_def s2_def s1_def f)
qed

text \<open>A subscription that is acknowledged, gets a message, and is cancelled by its own callback.\<close>

lemma calling_move: "(calling k g i u c st)\<lparr>oks := us, taken := ms\<rparr> = calling k g i u c (st\<lparr>oks := us, taken := ms\<rparr>)"
  by (simp add: calling_def put_ghost)

lemma calling_same:
  assumes "recv st k = Running g L_Top" and "calls st i = u"
  shows "calling k g i u (cc st) st = st"
proof -
  have "(recv st)(k := Running g L_Top) = recv st" using assms(1) by auto
  then have "hear k g L_Top (cc st) st = st" by (simp add: hear_def)
  then show ?thesis using put_self [OF assms(2)] by (simp add: calling_def)
qed

definition served :: "csys" where
  "served = begin_call 0 (x_call (S_Top 0 None)) None (fresh_sys\<lparr>recv := (recv fresh_sys)(0 := Running 0 L_Top)\<rparr>)"

lemma served_reach: "reach cstart cstep served"
proof -
  have "recv fresh_sys 0 = Started" "gen fresh_sys = 0" by (simp_all add: fresh_sys_def)
  then have "reach cstart cstep (fresh_sys\<lparr>recv := (recv fresh_sys)(0 := Running 0 L_Top)\<rparr>)"
    using creach [OF fresh_sys_reach c_recv_enter] by metis
  from creach [OF this c_subscribe [of _ 0 "''x''" None 100]] show ?thesis
    by (simp add: served_def caller_free_def fresh_sys_def max_lens)
qed

text \<open>The client after the acknowledgement.\<close>

lemma subscribed_loop: "subscribe_loop 0 (\<lambda>k. ack_env) ''x'' 100 None example_client = (subscribed_client, Inr 0)"
  using subscribe_ack_run by (simp add: subscribed_client_def SubscribeWithOptionsContext_def max_lens prod_eq_iff)

lemma acknowledged_reach:
  "\<exists>us ms. reach cstart cstep (calling 0 0 0 (x_call (S_Returned (Inr 0))) subscribed_client
     (served\<lparr>oks := us, taken := ms\<rparr>))"
proof -
  have s: "recv served 0 = Running 0 L_Top" "calls served 0 = x_call (S_Top 0 None)" "cc served = example_client"
    "quiet_loops 0 served"
    by (simp_all add: served_def begin_call_def fresh_sys_def quiet_loops_def)
  have "ctx_done example_client = False"
    by (simp add: example_client_def ConnectWithContext_def newAES256BlockCrypt_def)
  then have "runs_to served (calling 0 0 0 (x_call (S_Returned (Inr 0))) subscribed_client served)"
    using subscribe_loop_runs [OF s(4), of example_client 0 0 "''x''" 100 0 None "\<lambda>k. ack_env"] calling_same [OF s(1,2)]
    by (simp add: subscribed_loop example_client_fields s(3))
  then show ?thesis
    unfolding runs_to_def calling_move using creaches [OF _ served_reach] by blast
qed

lemma subscribed_fields:
  "sub_obj subscribed_client 0 = new_subscription ''x'' 100" "subs subscribed_client = [0]" "next_sub subscribed_client = 1"
  "client_conn subscribed_client" "c_done subscribed_client = False" "ctx_done subscribed_client = False"
proof -
  have t: "Contains ''subscribed to x'' ''subscribed to ''"
    "TrimPrefix ''subscribed to x'' ''subscribed to '' = ''x''"
    by code_simp+
  have c: "ctx_done example_client = False"
    by (simp add: example_client_def ConnectWithContext_def newAES256BlockCrypt_def)
  have e: "subscribed_client = fst (subscribe_loop 0 (\<lambda>k. ack_env) ''x'' 100 None example_client)"
    by (simp add: subscribed_loop)
  show "sub_obj subscribed_client 0 = new_subscription ''x'' 100" "subs subscribed_client = [0]" "next_sub subscribed_client = 1"
    "client_conn subscribed_client" "c_done subscribed_client = False" "ctx_done subscribed_client = False"
    using t c unfolding e
    by (simp_all add: subscribe_loop.simps [of 0] maxRetries_def subscribe_attempt_eq ack_env_def Let_def
        registered_def add_pending_def handleMessage_def NewMessageCmd_def cmd_defs wait_ack_def
        confirm_ack_def example_client_fields)
qed

text \<open>A message for the subscription, its callback running.\<close>

definition x_msg :: message where
  "x_msg = NewMessageCmd CmdMsg ''x'' []"

definition called_back :: client where
  "called_back = on_sub 0 (\<lambda>s. the (process_one s)) (handleMessage 0 x_msg subscribed_client)"

lemma called_back_sub:
  "process_one (sub_obj (handleMessage 0 x_msg subscribed_client) 0) = Some (sub_obj called_back 0)"
  "processing (sub_obj called_back 0)" "handled (sub_obj called_back 0) \<noteq> []" "next_sub called_back = 1"
  "active (sub_obj called_back 0)" "\<not> closed_sub called_back 0" "\<not> sub_closeOnce (sub_obj called_back 0)"
proof -
  have "matchSubject ''x'' ''x''" by code_simp
  then have "sub_obj (handleMessage 0 x_msg subscribed_client) 0 =
      (new_subscription ''x'' 100)\<lparr>msgChan := (make_chan 100)\<lparr>chan_buf := [as_client_message x_msg]\<rparr>\<rparr>"
    by (simp add: handleMessage_def x_msg_def NewMessageCmd_def cmd_defs subscribed_fields on_sub_def TryEnqueue_def try_send_def
        new_subscription_def startProcessing_def make_chan_def as_client_message_def)
  then show "process_one (sub_obj (handleMessage 0 x_msg subscribed_client) 0) = Some (sub_obj called_back 0)"
    "processing (sub_obj called_back 0)" "handled (sub_obj called_back 0) \<noteq> []" "next_sub called_back = 1"
    "active (sub_obj called_back 0)" "\<not> closed_sub called_back 0" "\<not> sub_closeOnce (sub_obj called_back 0)"
    by (simp_all add: called_back_def process_one_def try_recv_def on_sub_def new_subscription_def startProcessing_def
        make_chan_def handle_frame subscribed_fields)
qed

lemma called_back_reach:
  "\<exists>st. reach cstart cstep st \<and> cc st = called_back \<and> calls st 0 = x_call (S_Returned (Inr 0)) \<and> calls st 1 = Idle \<and>
     (\<forall>i. origin st i = None) \<and> \<not> locked st \<and> (\<forall>p. \<not> unsub_inside st p)"
proof -
  obtain us ms where r: "reach cstart cstep (calling 0 0 0 (x_call (S_Returned (Inr 0))) subscribed_client
      (served\<lparr>oks := us, taken := ms\<rparr>))"
    using acknowledged_reach by blast
  define S where "S = put 0 (x_call (S_Returned (Inr 0))) subscribed_client (served\<lparr>oks := us, taken := ms\<rparr>)"
  have S: "calls S 0 = x_call (S_Returned (Inr 0))" "calls S 1 = Idle" "origin S i = None" for i
    by (simp_all add: S_def served_def begin_call_def fresh_sys_def)
  have "reach cstart cstep (hear 0 0 L_Top subscribed_client S)"
    using r by (simp add: S_def calling_def)
  moreover obtain us' ms' where "cstep\<^sup>*\<^sup>* (hear 0 0 L_Top subscribed_client S)
      (hear 0 0 L_Top (handleMessage 0 x_msg subscribed_client) (S\<lparr>oks := us', taken := ms'\<rparr>))"
    using handle_runs_to [of subscribed_client 0 0 S 0 x_msg] subscribed_fields unfolding runs_to_def by auto
  moreover define S' where "S' = hear 0 0 L_Top (handleMessage 0 x_msg subscribed_client) (S\<lparr>oks := us', taken := ms'\<rparr>)"
  ultimately have r': "reach cstart cstep S'" by (metis creaches)
  have f: "cc S' = handleMessage 0 x_msg subscribed_client" "calls S' = calls S" "origin S' = origin S"
    by (simp_all add: S'_def hear_def)
  have "cstep S' (S'\<lparr>cc := on_sub 0 (\<lambda>_. sub_obj called_back 0) (cc S')\<rparr>)"
    using called_back_sub(1) S by (intro c_process) (simp_all add: f handle_frame subscribed_fields callback_busy_def)
  moreover have "on_sub 0 (\<lambda>_. sub_obj called_back 0) (cc S') = called_back"
    by (simp add: f called_back_def on_sub_def)
  ultimately have "reach cstart cstep (S'\<lparr>cc := called_back\<rparr>)"
    using creach [OF r'] by simp
  moreover have "\<not> locked (S'\<lparr>cc := called_back\<rparr>)" "\<not> unsub_inside (S'\<lparr>cc := called_back\<rparr>) p" for p
    by (auto simp: locked_def unsub_inside_def S'_def hear_def S_def served_def begin_call_def fresh_sys_def put_def
        split: if_splits)
  ultimately show ?thesis using S by (intro exI [of _ "S'\<lparr>cc := called_back\<rparr>"]) (simp add: f)
qed

lemma self_wait_reach: "\<exists>st. reach cstart cstep st \<and> self_wait 1 0 st"
proof -
  obtain st where r: "reach cstart cstep st" and st: "cc st = called_back" "calls st 0 = x_call (S_Returned (Inr 0))"
      "calls st 1 = Idle" "\<And>i. origin st i = None"
    using called_back_reach by blast
  have free: "caller_free st (Some 0)"
    using st called_back_sub by (simp add: caller_free_def callback_busy_def)
  have "given st 0" using st(2) by (auto simp: given_def)
  then have r1: "reach cstart cstep (begin_call 1 (Unsubscribing 0 U_Once) (Some 0) st)"
    using free by (rule creach [OF r c_unsubscribe [OF st(3)]])
  define s1 where "s1 = st\<lparr>origin := (origin st)(1 := Some 0)\<rparr>"
  have b: "begin_call 1 (Unsubscribing 0 U_Once) (Some 0) st = put 1 (Unsubscribing 0 U_Once) called_back s1"
    by (simp add: begin_put s1_def st(1))
  let ?c1 = "on_sub 0 (\<lambda>s. s\<lparr>sub_closeOnce := True\<rparr>) called_back"
  let ?c2 = "on_sub 0 (\<lambda>s. s\<lparr>active := False\<rparr>) ?c1"
  have a: "active (sub_obj ?c1 0)" "\<not> closed_sub ?c2 0" using called_back_sub by (simp_all add: on_sub_def)
  have "cstep\<^sup>*\<^sup>* (put 1 (Unsubscribing 0 U_Once) called_back s1) (put 1 (Unsubscribing 0 U_WaitProc) (on_sub 0 close_msgChan ?c2) s1)"
    by (rule unsub_put [OF u_first [OF called_back_sub(7)]], rule unsub_put [OF u_active [OF a(1)]], rule unsub_put [OF u_store],
        rule unsub_put [OF u_close [OF a(2)]]) simp
  with r1 b have "reach cstart cstep (put 1 (Unsubscribing 0 U_WaitProc) (on_sub 0 close_msgChan ?c2) s1)"
    by (metis creaches)
  then show ?thesis by (rule exI [of _ "put 1 (Unsubscribing 0 U_WaitProc) (on_sub 0 close_msgChan ?c2) s1", OF conjI])
      (simp add: self_wait_def s1_def)
qed

text \<open>
  The receive loop calls \<open>c.wg.Add(1)\<close> itself, so \<open>doReconnect\<close> does not wait for a loop that has been
  started and has not run yet. Both loops then close the new \<open>receiveLoopDone\<close>.
\<close>

lemma redial_once:
  assumes "reach cstart cstep st" and "redial_step (locked st) (loops_run st) (redial st) (cc st) pc' c' False"
    and "\<And>n. redial st \<noteq> G_Make n"
  shows "reach cstart cstep (st\<lparr>cc := c', redial := pc'\<rparr>)"
proof -
  have "(case redial st of G_Make n \<Rightarrow> Suc (gen st) | _ \<Rightarrow> gen st) = gen st" using assms(3) by (cases "redial st") auto
  then show ?thesis using creach [OF assms(1) c_redial [OF assms(2)]] by simp
qed

definition redialling :: "redial_pc \<Rightarrow> nat \<Rightarrow> csys \<Rightarrow> bool" where
  "redialling pc g st \<longleftrightarrow> reach cstart cstep st \<and> redial st = pc \<and> gen st = g \<and> autoReconnect (cc st) \<and>
     recv st = (\<lambda>k. if k = 0 then Started else Off) \<and> beat st = (\<lambda>k. if k = 0 then Started else Off) \<and>
     (\<forall>g. \<not> recv_closed st g)"

lemma redialling_free: "redialling pc g st \<Longrightarrow> \<not> locked st \<and> \<not> loops_run st"
  by (auto simp: redialling_def locked_def loops_run_def split: if_splits)

lemma redialling_step:
  assumes st: "redialling pc g st" and step: "redial_step False False pc (cc st) pc' c' False"
    and "\<And>n. pc \<noteq> G_Make n" and "autoReconnect c'"
  shows "redialling pc' g (st\<lparr>cc := c', redial := pc'\<rparr>)"
proof -
  have "reach cstart cstep (st\<lparr>cc := c', redial := pc'\<rparr>)"
    using redial_once [of st pc' c'] st step redialling_free [OF st] assms(3) by (simp add: redialling_def)
  then show ?thesis using st assms(4) by (simp add: redialling_def)
qed

lemma redial_begins: "\<exists>st. redialling (G_Check 0) 0 st \<and> \<not> c_done (cc st)"
proof -
  let ?c = "EnableAutoReconnect 1 example_client"
  have e: "autoReconnect ?c" "\<not> c_done ?c" "\<not> ctx_done ?c" "\<not> connectionLost ?c" "\<not> reconnecting ?c" "client_conn ?c"
    by (simp_all add: EnableAutoReconnect_def example_client_def ConnectWithContext_def newAES256BlockCrypt_def)
  have r: "reach cstart cstep (fresh_sys\<lparr>cc := ?c\<rparr>)"
    using creach [OF fresh_sys_reach c_enable [of fresh_sys 1]] by (simp add: fresh_sys_def)
  define c1 where "c1 = fst (PublishWithContext None (Some []) [] [] ?c)"
  have "c1 = triggerConnectionLost (?c\<lparr>publishErrors := wrap64 (publishErrors ?c + 1)\<rparr>)"
    using e(6) by (simp add: c1_def PublishWithContext_def Let_def max_lens)
  then have c1: "reconnect_runs c1 = Suc (reconnect_runs ?c)" "autoReconnect c1" "\<not> c_done c1"
    using e by (simp_all add: triggerConnectionLost_def reconnect_def Let_def)
  have "reach cstart cstep (with_client c1 (fresh_sys\<lparr>cc := ?c\<rparr>))"
    using creach [OF r c_publish [of None "Some []" "[]" "[]" "fresh_sys\<lparr>cc := ?c\<rparr>" c1]] by (simp add: c1_def prod_eq_iff)
  then show ?thesis
    using c1 by (intro exI [of _ "with_client c1 (fresh_sys\<lparr>cc := ?c\<rparr>)"])
      (simp add: redialling_def with_client_def fresh_sys_def)
qed

lemma second_loop:
  "\<exists>st. reach cstart cstep st \<and> recv st = (\<lambda>k. if k < 2 then Started else Off) \<and> gen st = 1 \<and> (\<forall>g. \<not> recv_closed st g)"
proof -
  obtain s0 where s0: "redialling (G_Check 0) 0 s0" "\<not> c_done (cc s0)" using redial_begins by blast
  have auto: "autoReconnect (cc s0)" using s0(1) by (simp add: redialling_def)
  have s2: "redialling (G_Close 0) 0 (s0\<lparr>redial := G_Close 0\<rparr>)"
    using redialling_step [OF redialling_step [OF s0(1) g_sleep] g_wake] s0(2) auto by simp
  let ?c3 = "(cc s0)\<lparr>c_done := True, client_conn_closed := (client_conn (cc s0) \<or> client_conn_closed (cc s0))\<rparr>"
  have s4: "redialling (G_Make 0) 0 (s0\<lparr>cc := ?c3, redial := G_Make 0\<rparr>)"
    using redialling_step [OF redialling_step [OF s2 g_close] g_wait] auto by simp
  define st where "st = s0\<lparr>cc := ?c3, redial := G_Make 0\<rparr>"
  have st: "redialling (G_Make 0) 0 st" using s4 by (simp add: st_def)
  note free = redialling_free [OF st]
  let ?c5 = "(cc st)\<lparr>c_done := False, receiveLoopDone := False, heartbeatDone := False\<rparr>"
  define s5 where "s5 = st\<lparr>cc := ?c5, redial := G_Dial 0, gen := 1\<rparr>"
  have "cstep st s5"
    using c_redial [of st "G_Dial 0" ?c5] g_make [of False False 0 "cc st"] st free by (simp add: redialling_def s5_def)
  then have r5: "reach cstart cstep s5" using st creach unfolding redialling_def by blast
  have f5: "redial s5 = G_Dial 0" "recv s5 = recv st" "beat s5 = beat st" "gen s5 = 1" "\<not> locked s5" "\<not> loops_run s5"
    "recv_closed s5 = recv_closed st"
    using free by (simp_all add: s5_def locked_def loops_run_def)
  define s6 where "s6 = s5\<lparr>cc := (cc s5)\<lparr>client_conn := True, client_conn_closed := False\<rparr>, redial := G_Mark,
      recv := (recv s5)(1 := Started), beat := (beat s5)(1 := Started)\<rparr>"
  have "cstep s5 s6"
    unfolding s6_def using st f5 g_dial [of False False 0 "cc s5"] by (intro c_redialled) (simp_all add: redialling_def)
  then have "reach cstart cstep s6" by (rule creach [OF r5])
  then show ?thesis
    using st by (intro exI [of _ s6]) (auto simp: s6_def f5 redialling_def)
qed

lemma receive_loops_collide: "\<exists>st. reach cstart cstep st \<and> recv st 1 = LoopPanic"
proof -
  obtain s0 where r0: "reach cstart cstep s0" and s0: "recv s0 = (\<lambda>k. if k < 2 then Started else Off)" "gen s0 = 1"
      "\<And>g. \<not> recv_closed s0 g"
    using second_loop by blast
  define s2 where "s2 = s0\<lparr>recv := (recv s0)(0 := Running 1 L_Top, 1 := Running 1 L_Top)\<rparr>"
  have "reach cstart cstep (s0\<lparr>recv := (recv s0)(0 := Running 1 L_Top)\<rparr>)"
    using creach [OF r0 c_recv_enter [of s0 0]] s0 by simp
  from creach [OF this c_recv_enter [of _ 1]] have r2: "reach cstart cstep s2"
    using s0 by (simp add: s2_def)
  define s3 where "s3 = s2\<lparr>cc := (cc s2)\<lparr>ctx_done := True\<rparr>\<rparr>"
  have r3: "reach cstart cstep s3" unfolding s3_def by (rule creach [OF r2 c_expire])
  have stop: "reach cstart cstep (st\<lparr>recv := (recv st)(k := Stopping 1)\<rparr>)"
    if "reach cstart cstep st" "recv st k = Running 1 L_Top" "ctx_done (cc st)" for st k
    using creach [OF that(1) c_recv [OF that(2) l_stop [of "cc st"]]] that(3)
    by (simp add: with_client_def) 
  have "reach cstart cstep (s3\<lparr>recv := (recv s3)(0 := Stopping 1)\<rparr>)"
    by (rule stop [OF r3]) (simp_all add: s3_def s2_def)
  from stop [OF this, of 1] have r5: "reach cstart cstep (s3\<lparr>recv := (recv s3)(0 := Stopping 1, 1 := Stopping 1)\<rparr>)"
    by (simp add: s3_def s2_def)
  define s5 where "s5 = s3\<lparr>recv := (recv s3)(0 := Stopping 1, 1 := Stopping 1)\<rparr>"
  have "recv s5 0 = Stopping 1" "\<not> recv_closed s5 1" "recv s5 1 = Stopping 1"
    using s0 by (simp_all add: s5_def s3_def s2_def)
  note exit = creach [OF r5 [folded s5_def] c_recv_exit [OF this(1,2)]] and s5 = this
  from creach [OF exit c_recv_panic [of _ 1 1]] s5(3) show ?thesis by auto
qed

section \<open>Properties\<close>

text \<open>C6: No interleaving of subscribe, unsubscribe and close calls with the receive loops, the heartbeats,
  the goroutines of the subscriptions and the reconnection makes a call panic: none closes a closed
  channel. At most one call is inside the \<open>closeOnce\<close> of a subscription, and as long as no
  reconnection has started, no receive loop or heartbeat panics when it ends.\<close>

theorem client_calls_never_panic:
  assumes "reach cstart cstep st"
  shows "calls st i \<noteq> Subscribing t cap S_Panic \<and> calls st i \<noteq> Unsubscribing p U_Panic \<and>
    (calls st i = Unsubscribing p pc \<and> calls st j = Unsubscribing p pc' \<and> inside_once pc \<and> inside_once pc' \<longrightarrow> i = j) \<and>
    (reconnect_runs (cc st) = 0 \<longrightarrow> recv st k \<noteq> LoopPanic \<and> beat st k \<noteq> LoopPanic)"
proof -
  have inv: "calls_ok (calls st) (cc st)" "loops_inv st"
    using ks.reach_inv [OF assms] by (simp_all add: cinv_def calls_inv_def)
  have "i = j" if "calls st i = Unsubscribing p pc" "calls st j = Unsubscribing p pc'" "inside_once pc" "inside_once pc'"
    using calls_okD(5) [OF inv(1), of i p j] that by simp
  moreover have "recv st k \<noteq> LoopPanic \<and> beat st k \<noteq> LoopPanic" if "reconnect_runs (cc st) = 0"
    using inv(2) that by (cases "k = 0") (auto simp: loops_inv_def lone_def)
  ultimately show ?thesis
    using calls_okD(6) [OF inv(1), of i] by auto
qed

theorem client_calls_never_panic_witness:
  "\<exists>st. reach cstart cstep st \<and> calls st 1 = Unsubscribing 0 U_WaitProc \<and> calls st 1 \<noteq> Unsubscribing 0 U_Panic"
proof -
  obtain st where r: "reach cstart cstep st" and w: "calls st 1 = Unsubscribing 0 U_WaitProc"
    using self_wait_reach by (auto simp: self_wait_def)
  from client_calls_never_panic [OF r, of 1 "[]" 0 0] w show ?thesis using r by blast
qed

text \<open>C4: In every state of the running client, the messages that a subscription's callback has got, followed by
  those in its channel, are exactly the messages that the receive loop put there, in order: none is
  lost, repeated or reordered by calls, closing or reconnecting. The channel never holds more than
  its capacity, and a goroutine of a subscription ends only when its channel is closed and empty,
  so that everything accepted was handled.\<close>

theorem client_delivery_exact:
  assumes "reach cstart cstep st" and "p < next_sub (cc st)"
  shows "handled (sub_obj (cc st) p) @ waiting (sub_obj (cc st) p) = taken st p \<and>
    length (waiting (sub_obj (cc st) p)) \<le> chan_cap (msgChan (sub_obj (cc st) p)) \<and>
    (processing (sub_obj (cc st) p) \<or>
       chan_closed (msgChan (sub_obj (cc st) p)) \<and> handled (sub_obj (cc st) p) = taken st p)"
proof -
  have "flow_inv st" using ks.reach_inv [OF assms(1)] by (simp add: cinv_def)
  from flow_at [OF this assms(2)] show ?thesis by (auto simp: flow_ok_def)
qed

theorem client_delivery_exact_witness:
  "\<exists>st. reach cstart cstep st \<and> handled (sub_obj (cc st) 0) \<noteq> [] \<and>
     handled (sub_obj (cc st) 0) @ waiting (sub_obj (cc st) 0) = taken st 0"
proof -
  obtain st where r: "reach cstart cstep st" and c: "cc st = called_back" using called_back_reach by blast
  from client_delivery_exact [OF r, of 0] show ?thesis
    using r c called_back_sub(3,4) by (intro exI [of _ st]) simp
qed

text \<open>C13: A subscribe call that returns a subscription was acknowledged, whatever else runs: if no other call
  subscribes to the same subject, no call closes the client and no reconnection has started, an OK
  message that confirms the subject has been handled.\<close>

theorem subscribe_ack_sound:
  assumes "reach cstart cstep st" and "calls st i = Subscribing t cap (S_Returned (Inr p))"
    and "\<And>j cap' pc. j \<noteq> i \<Longrightarrow> calls st j \<noteq> Subscribing t cap' pc" and "\<And>j pc. calls st j \<noteq> Closing pc"
    and "reconnect_runs (cc st) = 0"
  shows "\<exists>u \<in> set (oks st). u = t \<or> Contains u ''subscribed to '' \<and> TrimPrefix u ''subscribed to '' = t"
proof -
  have "ack_inv st" using ks.reach_inv [OF assms(1)] by (simp add: cinv_def)
  then have "explained st i t" using assms(2) by (simp add: ack_inv_def ack_ok_def)
  then show ?thesis using assms(3-5) by (auto simp: explained_def confirms_def)
qed

theorem subscribe_ack_sound_witness:
  "\<exists>st. reach cstart cstep st \<and> calls st 0 = x_call (S_Returned (Inr 0)) \<and>
     (\<exists>u \<in> set (oks st). u = ''x'' \<or> Contains u ''subscribed to '' \<and> TrimPrefix u ''subscribed to '' = ''x'')"
proof -
  obtain us ms where r: "reach cstart cstep (calling 0 0 0 (x_call (S_Returned (Inr 0))) subscribed_client
      (served\<lparr>oks := us, taken := ms\<rparr>))"
    using acknowledged_reach by blast
  define st where "st = calling 0 0 0 (x_call (S_Returned (Inr 0))) subscribed_client (served\<lparr>oks := us, taken := ms\<rparr>)"
  have c: "calls st = (\<lambda>j. if j = 0 then x_call (S_Returned (Inr 0)) else Idle)"
    by (auto simp: st_def calling_def served_def fresh_sys_def)
  have "reconnect_runs example_client = 0"
    by (simp add: example_client_def ConnectWithContext_def newAES256BlockCrypt_def)
  then have "reconnect_runs subscribed_client = 0"
    using core_subscribe_loop [of 0 "\<lambda>k. ack_env" "''x''" 100 None example_client] by (simp add: subscribed_loop core_def)
  then have "reconnect_runs (cc st) = 0" by (simp add: st_def calling_def)
  then show ?thesis
    using subscribe_ack_sound [OF r [folded st_def], of 0 "''x''" 100 0] c r [folded st_def] by auto
qed

text \<open>C26: Without these conditions the result of a subscribe call says nothing about the server: in a run
  where no OK message is ever handled, a call returns an active subscription because another call on the
  same subject, at its retry, closes the acknowledgement that the first one waits for; in another,
  a call returns an inactive subscription because \<open>Close\<close> closes the pending acknowledgements.\<close>

theorem subscribe_false_success:
  "(\<exists>st. reach cstart cstep st \<and> calls st 1 = Subscribing ''x'' 100 (S_Returned (Inr 1)) \<and> oks st = [] \<and>
      active (sub_obj (cc st) 1) \<and> 1 \<in> set (subs (cc st))) \<and>
   (\<exists>st. reach cstart cstep st \<and> calls st 0 = Subscribing ''x'' 100 (S_Returned (Inr 0)) \<and> oks st = [] \<and>
      \<not> active (sub_obj (cc st) 0) \<and> ctx_done (cc st))"
  using retry_acknowledges_other close_acknowledges by blast


definition listening :: csys where
  "listening = fresh_sys\<lparr>recv := (recv fresh_sys)(0 := Running 0 L_Top)\<rparr>"

lemma listening_reach: "reach cstart cstep listening"
proof -
  have "recv fresh_sys 0 = Started" "gen fresh_sys = 0" by (simp_all add: fresh_sys_def)
  then show ?thesis unfolding listening_def using creach [OF fresh_sys_reach c_recv_enter] by metis
qed




text \<open>C27: A callback that unsubscribes its own subscription hangs: \<open>Unsubscribe\<close> waits for the goroutine of the
  subscription, which is the one that runs the callback. Once the call waits, it waits in every
  later state, whatever else happens, and the goroutine never ends.\<close>

theorem unsubscribe_in_callback_hangs:
  assumes "reach cstart cstep st" and "calls st i = Unsubscribing p U_WaitProc" and "origin st i = Some p"
    and "cstep\<^sup>*\<^sup>* st st'"
  shows "calls st' i = Unsubscribing p U_WaitProc \<and> processing (sub_obj (cc st') p)"
proof -
  have "self_wait i p st' \<and> busy_inv st'"
    using self_wait_forever [OF assms(4) kb.reach_inv [OF assms(1)]] assms(2,3) by (simp add: self_wait_def)
  then show ?thesis unfolding self_wait_def busy_inv_def by fastforce
qed

theorem unsubscribe_in_callback_hangs_witness:
  "\<exists>st. reach cstart cstep st \<and> origin st 1 = Some 0 \<and> calls st 1 = Unsubscribing 0 U_WaitProc \<and> processing (sub_obj (cc st) 0)"
proof -
  obtain st where r: "reach cstart cstep st" and w: "calls st 1 = Unsubscribing 0 U_WaitProc" "origin st 1 = Some 0"
    using self_wait_reach by (auto simp: self_wait_def)
  from unsubscribe_in_callback_hangs [OF r w rtranclp.rtrancl_refl] show ?thesis using r w by blast
qed

text \<open>C28: The loops register with the wait group themselves, after they were started. A reconnection that comes
  first does not wait for a receive loop that has not run yet, and starts another: the two close
  the same \<open>receiveLoopDone\<close>, and the second close panics.\<close>

theorem receive_loops_can_collide:
  "\<exists>st k. reach cstart cstep st \<and> recv st k = LoopPanic"
  using receive_loops_collide by blast

end
