(* ===== verification/Client_API.thy ===== *)
theory Client_API
  imports Client_Types
begin

text \<open>
  The rest of the client's calls, \<open>src/client/client.go\<close>: the channel subscription
  \<open>SubscribeChanWithContext\<close>, whose callback hands the messages to a channel of the application,
  and the deprecated calls without a context. The channel subscription is a subscription of theory
  \<open>Subscription\<close> with a second bounded queue behind it.
\<close>

section \<open>Calls without a context\<close>

text \<open>
  \<open>context.Background()\<close> is never done and has no deadline: no error of the context, and in a
  \<open>select\<close> its case never wins.
\<close>

definition background :: "attempt_env \<Rightarrow> attempt_env" where
  "background env = env\<lparr>env_ctxErr := None,
     env_wait := (case env_wait env of ContextFirst err \<Rightarrow> TimerFirst | w \<Rightarrow> w)\<rparr>"

definition Connect :: "(bytes \<Rightarrow> string + 'block) \<Rightarrow> string + unit \<Rightarrow> int \<Rightarrow> (ptr \<Rightarrow> subscription) \<Rightarrow>
    (ptr \<Rightarrow> subscriptionACK) \<Rightarrow> string \<Rightarrow> bytes \<Rightarrow> client_error + client" where
  "Connect NewAESBlockCrypt dialed now subHeap ackHeap address key =
     ConnectWithContext None NewAESBlockCrypt dialed now subHeap ackHeap address key"

definition Publish :: "string option \<Rightarrow> string \<Rightarrow> bytes \<Rightarrow> client \<Rightarrow> client \<times> client_error option" where
  "Publish writeErr subject payload c = PublishWithContext None writeErr subject payload c"

definition client_Subscribe :: "(nat \<Rightarrow> attempt_env) \<Rightarrow> string \<Rightarrow> client \<Rightarrow>
    client \<times> (client_error + ptr)" where
  "client_Subscribe envs subject c = SubscribeWithContext None (background \<circ> envs) subject c"

definition SubscribeWithOptions :: "(nat \<Rightarrow> attempt_env) \<Rightarrow> string \<Rightarrow> int \<Rightarrow> client \<Rightarrow>
    client \<times> (client_error + ptr)" where
  "SubscribeWithOptions envs subject channelCapacity c =
     SubscribeWithOptionsContext (background \<circ> envs) subject channelCapacity c"

section \<open>Channel subscriptions\<close>

text \<open>
  The result is the client, the channel \<open>msgChan\<close> that the callback of the new subscription sends
  to, and the error or the subscription. On an error the channel is closed; the application gets
  nil, but the goroutines of the subscriptions that the call created still have the channel.
\<close>

definition SubscribeChanWithContext :: "(nat \<Rightarrow> attempt_env) \<Rightarrow> string \<Rightarrow> int \<Rightarrow> client \<Rightarrow>
    client \<times> client_message chan \<times> (client_error + ptr)" where
  "SubscribeChanWithContext envs subject capacity c =
     (let cap = (if capacity \<le> 0 then 100 else capacity);
          userChan = make_chan (nat cap)
      in case SubscribeWithOptionsContext envs subject cap c of
           (c', Inl err) \<Rightarrow> (c', userChan\<lparr>chan_closed := True\<rparr>, Inl err)
         | (c', Inr p) \<Rightarrow> (c', userChan, Inr p))"

definition SubscribeChan :: "(nat \<Rightarrow> attempt_env) \<Rightarrow> string \<Rightarrow> int \<Rightarrow> client \<Rightarrow>
    client \<times> client_message chan \<times> (client_error + ptr)" where
  "SubscribeChan envs subject capacity c = SubscribeChanWithContext (background \<circ> envs) subject capacity c"

text \<open>
  A round of the processing goroutine whose callback is the closure of \<open>SubscribeChanWithContext\<close>:
  a message is sent to the channel without blocking, dropped with a warning when the channel is
  full, and a send on the closed channel panics, which ends the program.
\<close>

datatype chan_round = Waits | Ran subscription "client_message chan" bool | Panicked

definition process_chan :: "subscription \<Rightarrow> client_message chan \<Rightarrow> chan_round" where
  "process_chan s userChan =
     (case process_one s of
        None \<Rightarrow> Waits
      | Some s' \<Rightarrow>
          (case drop (length (handled s)) (handled s') of
             [] \<Rightarrow> Ran s' userChan False
           | msg # _ \<Rightarrow>
               (case try_send msg userChan of
                  (ch, Sent) \<Rightarrow> Ran s' ch False
                | (ch, Full) \<Rightarrow> Ran s' ch True
                | (ch, SendPanic) \<Rightarrow> Panicked)))"

text \<open>
  A channel subscription at work: the receive loop offers messages, the goroutine runs, the
  application receives. \<open>got\<close> is what the application has received, \<open>warnings\<close> counts the logged
  drops.
\<close>

record chan_state =
  cs_sub :: subscription
  cs_user :: "client_message chan"
  got :: "client_message list"
  warnings :: nat

datatype chan_event = ChanOffer client_message | ChanProcess | ChanReceive

fun chan_step :: "chan_event \<Rightarrow> chan_state \<Rightarrow> chan_state option" where
  "chan_step (ChanOffer m) st = Some (st\<lparr>cs_sub := fst (TryEnqueue m (cs_sub st))\<rparr>)"
| "chan_step ChanProcess st =
     (case process_chan (cs_sub st) (cs_user st) of
        Waits \<Rightarrow> Some st
      | Ran s ch warned \<Rightarrow>
          Some (st\<lparr>cs_sub := s, cs_user := ch, warnings := warnings st + (if warned then 1 else 0)\<rparr>)
      | Panicked \<Rightarrow> None)"
| "chan_step ChanReceive st =
     (case try_recv (cs_user st) of
        None \<Rightarrow> Some st
      | Some (m, ch) \<Rightarrow> Some (st\<lparr>cs_user := ch, got := got st @ [m]\<rparr>))"

fun chan_run :: "chan_event list \<Rightarrow> chan_state \<Rightarrow> chan_state option" where
  "chan_run [] st = Some st"
| "chan_run (e # es) st = (case chan_step e st of None \<Rightarrow> None | Some st' \<Rightarrow> chan_run es st')"

definition chan_start :: "subscription \<Rightarrow> client_message chan \<Rightarrow> chan_state" where
  "chan_start s ch = \<lparr>cs_sub = s, cs_user = ch, got = [], warnings = 0\<rparr>"

section \<open>Lemmas\<close>

text \<open>The part of a run that the subscription itself sees.\<close>

fun sub_events :: "chan_event list \<Rightarrow> sub_event list" where
  "sub_events [] = []"
| "sub_events (ChanOffer m # es) = Offer m # sub_events es"
| "sub_events (ChanProcess # es) = Process # sub_events es"
| "sub_events (ChanReceive # es) = sub_events es"

lemma chan_step_sub:
  "chan_step e st = Some st' \<Longrightarrow> cs_sub st' = fold sub_event_step (sub_events [e]) (cs_sub st)"
  by (cases e) (auto simp: process_chan_def split: chan_round.splits option.splits list.splits
      prod.splits send_result.splits)

lemma sub_events_Cons: "sub_events (e # es) = sub_events [e] @ sub_events es"
  by (cases e) simp_all

lemma chan_run_sub:
  "chan_run es st = Some st' \<Longrightarrow> cs_sub st' = fold sub_event_step (sub_events es) (cs_sub st)"
proof (induction es arbitrary: st)
  case (Cons e es)
  then obtain st1 where "chan_step e st = Some st1" "chan_run es st1 = Some st'"
    by (auto split: option.splits)
  then show ?case
    using Cons.IH [of st1] chan_step_sub [of e st st1] by (simp add: sub_events_Cons [of e es])
qed simp

text \<open>What the application has or can receive is what was handled, less the warned drops.\<close>

definition chan_inv :: "chan_state \<Rightarrow> bool" where
  "chan_inv st \<longleftrightarrow> chan_ok (cs_user st) \<and> \<not> chan_closed (cs_user st) \<and>
     subseq (got st @ chan_buf (cs_user st)) (handled (cs_sub st)) \<and>
     length (handled (cs_sub st)) = length (got st) + length (chan_buf (cs_user st)) + warnings st \<and>
     (0 < warnings st \<longrightarrow> chan_cap (cs_user st) < length (handled (cs_sub st)))"

lemma process_one_handled:
  "process_one s = Some s' \<Longrightarrow> handled s' = handled s @ take 1 (waiting s)"
  by (auto simp: process_one_def try_recv_def split: if_splits option.splits list.splits)

lemma TryEnqueue_handled: "handled (fst (TryEnqueue m s)) = handled s"
  by (auto simp: TryEnqueue_def split: prod.splits send_result.splits)

lemma subseq_snoc: "subseq xs ys \<Longrightarrow> subseq (xs @ [z]) (ys @ [z])"
  by simp

lemma chan_step_inv:
  assumes "chan_inv st"
  shows "\<exists>st'. chan_step e st = Some st' \<and> chan_inv st' \<and> chan_cap (cs_user st') = chan_cap (cs_user st)"
proof (cases e)
  case (ChanOffer m)
  then show ?thesis using assms by (auto simp: chan_inv_def TryEnqueue_handled)
next
  case ChanProcess
  show ?thesis
  proof (cases "process_one (cs_sub st)")
    case None
    then show ?thesis using ChanProcess assms by (simp add: process_chan_def)
  next
    case (Some s')
    show ?thesis
    proof (cases "waiting (cs_sub st)")
      case Nil
      then show ?thesis
        using ChanProcess assms Some process_one_handled [OF Some] by (auto simp: process_chan_def chan_inv_def)
    next
      case (Cons m ms)
      then have h: "handled s' = handled (cs_sub st) @ [m]"
        using process_one_handled [OF Some] by simp
      show ?thesis
      proof (cases "length (chan_buf (cs_user st)) < chan_cap (cs_user st)")
        case True
        then show ?thesis
          using ChanProcess assms Some h
            subseq_snoc [of "got st @ chan_buf (cs_user st)" "handled (cs_sub st)" m]
          by (auto simp: process_chan_def chan_inv_def try_send_def chan_ok_def)
      next
        case False
        then show ?thesis
          using ChanProcess assms Some h
          by (auto simp: process_chan_def chan_inv_def try_send_def chan_ok_def intro: subseq_rev_drop_many)
      qed
    qed
  qed
next
  case ChanReceive
  then show ?thesis
    using assms by (cases "chan_buf (cs_user st)") (auto simp: try_recv_def chan_inv_def chan_ok_def)
qed

lemma chan_run_inv:
  "chan_inv st \<Longrightarrow>
   \<exists>st'. chan_run es st = Some st' \<and> chan_inv st' \<and> chan_cap (cs_user st') = chan_cap (cs_user st)"
proof (induction es arbitrary: st)
  case (Cons e es)
  obtain st1 where 1: "chan_step e st = Some st1" "chan_inv st1" "chan_cap (cs_user st1) = chan_cap (cs_user st)"
    using chan_step_inv [OF Cons.prems, of e] by blast
  then show ?case using Cons.IH [OF 1(2)] by simp
qed simp

lemma accepted_le_offers: "length (accepted es s) \<le> offers es"
  by (induction es s rule: accepted.induct) auto

lemma handled_accepted_step:
  "sub_ok s \<Longrightarrow> handled (sub_event_step e s) @ waiting (sub_event_step e s) =
     handled s @ waiting s @ accepted [e] s"
  by (cases e) (auto simp: sub_ok_def TryEnqueue_def try_send_def process_one_def try_recv_def
      split: list.splits)

lemma accepted_Cons: "accepted (e # es) s = accepted [e] s @ accepted es (sub_event_step e s)"
  by (cases e) simp_all

lemma handled_accepted_run:
  "sub_ok s \<Longrightarrow> handled (fold sub_event_step es s) @ waiting (fold sub_event_step es s) =
     handled s @ waiting s @ accepted es s"
proof (induction es arbitrary: s)
  case (Cons e es)
  then show ?case
    using sub_ok_step [OF Cons.prems, of e] handled_accepted_step [OF Cons.prems, of e]
    by (simp add: accepted_Cons [of e es] del: accepted.simps)
qed simp

lemma handled_accepted:
  "handled (fold sub_event_step es (new_subscription t n)) @ waiting (fold sub_event_step es (new_subscription t n))
   = accepted es (new_subscription t n)"
  using handled_accepted_run [OF new_subscription_ok, of es t n]
  by (simp add: new_subscription_def startProcessing_def make_chan_def)

text \<open>The subscription that a call interrupted by the closing of \<open>done\<close> leaves in the list.\<close>

definition left_behind :: "string \<Rightarrow> nat \<Rightarrow> client \<Rightarrow> client \<Rightarrow> bool" where
  "left_behind t cap c c' \<longleftrightarrow> distinct (subs c') \<and> next_sub c \<in> set (subs c') \<and>
     sub_obj c' (next_sub c) = new_subscription t cap"

lemma interrupted_subscribe:
  assumes "client_ok c" and "client_conn c" and "c_done c" and "length subject \<le> MaxSubjectLen"
    and "envs 0 = \<lparr>env_ctxErr = None, env_writeErr = None, env_incoming = [], env_wait = DoneFirst,
           env_now = now\<rparr>" and "0 < cap"
  shows "\<exists>c'. SubscribeWithOptionsContext envs subject cap c = (c', Inl ConnectionClosed) \<and>
    left_behind subject (nat cap) c c'"
proof -
  have n: "distinct (subs c)" "next_sub c \<notin> set (subs c)"
    using assms(1) by (auto simp: client_ok_def)
  have "\<exists>c'. subscribe_attempt 0 (envs 0) subject (nat cap) c = Return c' (Inl ConnectionClosed) \<and>
      left_behind subject (nat cap) c c'"
    using assms(2,3) n
    by (simp add: assms(5) subscribe_attempt_eq wait_ack_def Let_def registered_fields left_behind_def)
  then obtain c' where "subscribe_attempt 0 (envs 0) subject (nat cap) c = Return c' (Inl ConnectionClosed)"
    "left_behind subject (nat cap) c c'" by blast
  then show ?thesis
    using assms(4,6) by (simp add: SubscribeWithOptionsContext_def subscribe_loop.simps [of 0] maxRetries_def)
qed

lemma left_behind_enqueues:
  assumes "left_behind t cap c c'" and "0 < cap" and "Command m = CmdMsg" and "matchSubject t (Subject m)"
  shows "processing (sub_obj (handleMessage now m c') (next_sub c)) \<and>
    waiting (sub_obj (handleMessage now m c') (next_sub c)) \<noteq> []"
  using assms
  by (simp add: left_behind_def handleMessage_def deliver_loop_objs new_subscription_def startProcessing_def
      TryEnqueue_def try_send_def make_chan_def)

text \<open>
  A call without a context never fails with an error of a context: such an error can only be the
  one an attempt returns, directly or as the last error of the retries.
\<close>

lemma background_attempt:
  "subscribe_attempt n (background env) t cap c = Return c' (Inl err) \<Longrightarrow> err = ConnectionClosed"
  by (auto simp: subscribe_attempt_eq background_def wait_ack_def Let_def split: option.splits
      wait_choice.splits if_splits)

lemma background_loop:
  "subscribe_loop n (background \<circ> envs) t cap e c = (c', Inl err) \<Longrightarrow>
   err = ConnectionClosed \<or> (\<exists>last. err = SubscriptionFailed maxRetries last)"
proof (induction n "background \<circ> envs" t cap e c rule: subscribe_loop.induct)
  case (1 n t cap e c)
  show ?case
    using "1.prems" "1.hyps" background_attempt [of n "envs n" t cap c]
    by (subst (asm) subscribe_loop.simps) (auto split: if_splits attempt_result.splits)
qed

lemma no_context_no_context_error:
  "SubscribeWithOptions envs t cap c = (c', Inl err) \<Longrightarrow> err \<noteq> ContextError e"
  by (auto simp: SubscribeWithOptions_def SubscribeWithOptionsContext_def Let_def split: if_splits
      dest!: background_loop)

section \<open>Properties\<close>

text \<open>A channel subscription works through its two queues without a panic: after any interleaving of
  offers by the receive loop, rounds of the goroutine and receives by the application, what the
  application got, followed by what waits in its channel, is a subsequence in order of the accepted
  messages that the goroutine has handled; the missing ones are exactly the logged drops; and as
  long as no more messages were offered than the channel holds, nothing is dropped.\<close>

lemma chan_subscription_delivers:
  fixes t :: string and n :: nat and es :: "chan_event list"
  defines "s0 \<equiv> new_subscription t n"
  shows "\<exists>st. chan_run es (chan_start s0 (make_chan n)) = Some st \<and>
    subseq (got st @ chan_buf (cs_user st)) (handled (cs_sub st)) \<and>
    prefix (handled (cs_sub st)) (accepted (sub_events es) s0) \<and>
    length (handled (cs_sub st)) = length (got st) + length (chan_buf (cs_user st)) + warnings st \<and>
    (offers (sub_events es) \<le> n \<longrightarrow> got st @ chan_buf (cs_user st) = handled (cs_sub st))"
proof -
  have "chan_inv (chan_start s0 (make_chan n))"
    by (simp add: chan_inv_def chan_start_def make_chan_def chan_ok_def s0_def new_subscription_def
        startProcessing_def)
  from chan_run_inv [OF this, of es] obtain st where
    run: "chan_run es (chan_start s0 (make_chan n)) = Some st" and inv: "chan_inv st"
    and cap: "chan_cap (cs_user st) = n"
    by (auto simp: chan_start_def make_chan_def)
  have sub: "cs_sub st = fold sub_event_step (sub_events es) s0"
    using chan_run_sub [OF run] by (simp add: chan_start_def)
  have acc: "handled (cs_sub st) @ waiting (cs_sub st) = accepted (sub_events es) s0"
    unfolding sub s0_def by (rule handled_accepted)
  have len: "length (handled (cs_sub st)) \<le> offers (sub_events es)"
    using acc accepted_le_offers [of "sub_events es" s0] by (metis append_eq_conv_conj le_trans length_take min.cobounded1)
  have all: "got st @ chan_buf (cs_user st) = handled (cs_sub st)" if "offers (sub_events es) \<le> n"
  proof -
    have "warnings st = 0" using inv cap len that by (auto simp: chan_inv_def)
    then show ?thesis using inv by (auto simp: chan_inv_def intro: subseq_same_length)
  qed
  have "prefix (handled (cs_sub st)) (accepted (sub_events es) s0)"
    using acc by (metis prefixI)
  then show ?thesis
    using run inv all by (auto simp: chan_inv_def)
qed

text \<open>C35: A channel subscription whose call was interrupted by a reconnection takes the program down:
  when the wait for the acknowledgement ends because \<open>done\<close> is closed, the call closes the channel
  and reports an error, but its subscription stays active in the list; after a successful
  reconnection the first message that matches makes the goroutine of that subscription send on
  the closed channel, and the goroutine panics.\<close>

theorem failed_chan_subscribe_panics:
  assumes "client_ok c" and "client_conn c" and "c_done c" and "length subject \<le> MaxSubjectLen"
    and "envs 0 = \<lparr>env_ctxErr = None, env_writeErr = None, env_incoming = [], env_wait = DoneFirst,
           env_now = now\<rparr>"
    and "SubscribeChanWithContext envs subject capacity c = (c1, userChan, res)"
    and "doReconnect NewAESBlockCrypt dialed c1 = (c2, None)"
    and "Command m = CmdMsg" and "matchSubject subject (Subject m)"
  shows "res = Inl ConnectionClosed \<and>
    process_chan (sub_obj (handleMessage t m c2) (next_sub c)) userChan = Panicked"
proof -
  define cap where "cap = (if capacity \<le> 0 then 100 else capacity)"
  have pos: "0 < nat cap" by (simp add: cap_def)
  obtain c' where call: "SubscribeWithOptionsContext envs subject cap c = (c', Inl ConnectionClosed)"
    and left: "left_behind subject (nat cap) c c'"
    using interrupted_subscribe [where envs = envs and now = now, OF assms(1-5), of cap] pos by auto
  have r: "c1 = c'" "userChan = (make_chan (nat cap))\<lparr>chan_closed := True\<rparr>" "res = Inl ConnectionClosed"
    using assms(6) call by (auto simp: SubscribeChanWithContext_def cap_def [symmetric] Let_def)
  have "left_behind subject (nat cap) c c2"
    using left assms(7) r(1) by (auto simp: doReconnect_def Let_def left_behind_def split: sum.splits)
  then have "processing (sub_obj (handleMessage t m c2) (next_sub c)) \<and>
      waiting (sub_obj (handleMessage t m c2) (next_sub c)) \<noteq> []"
    using left_behind_enqueues [OF _ pos assms(8,9)] by blast
  then show ?thesis
    using r(2,3) by (auto simp: process_chan_def process_one_def try_recv_def try_send_def make_chan_def
        split: list.splits)
qed

definition done_env :: attempt_env where
  "done_env = \<lparr>env_ctxErr = None, env_writeErr = None, env_incoming = [], env_wait = DoneFirst, env_now = 0\<rparr>"

theorem failed_chan_subscribe_panics_witness:
  "\<exists>c2. doReconnect (Inr :: bytes \<Rightarrow> string + bytes) (Inr ())
      (fst (SubscribeChanWithContext (\<lambda>k. done_env) ''x'' 5 (example_client\<lparr>c_done := True\<rparr>))) = (c2, None) \<and>
    process_chan (sub_obj (handleMessage 0 (NewMessageCmd CmdMsg ''x'' [7]) c2) 0)
      (fst (snd (SubscribeChanWithContext (\<lambda>k. done_env) ''x'' 5 (example_client\<lparr>c_done := True\<rparr>)))) = Panicked"
proof -
  let ?c = "example_client\<lparr>c_done := True\<rparr>"
  obtain c1 ch res where call: "SubscribeChanWithContext (\<lambda>k. done_env) ''x'' 5 ?c = (c1, ch, res)"
    by (cases "SubscribeChanWithContext (\<lambda>k. done_env) ''x'' 5 ?c") auto
  have ok: "client_ok ?c" "client_conn ?c" "c_done ?c" "length ''x'' \<le> MaxSubjectLen" "next_sub ?c = 0"
    using example_client_fields by (simp_all add: client_ok_def max_lens)
  have "\<exists>d. subscribe_attempt 0 done_env ''x'' 5 ?c = Return d (Inl ConnectionClosed) \<and>
      aes256Key d = aes256Key ?c"
    by (simp add: subscribe_attempt_eq done_env_def wait_ack_def Let_def registered_fields example_client_fields)
      (simp add: registered_def add_pending_def)
  then have "aes256Key c1 = aes256Key ?c"
    using call by (auto simp: SubscribeChanWithContext_def SubscribeWithOptionsContext_def max_lens
        subscribe_loop.simps [of 0] maxRetries_def)
  then have "length (aes256Key c1) = 32"
    by (simp add: example_client_def ConnectWithContext_def newAES256BlockCrypt_def)
  then obtain c2 where rc: "doReconnect (Inr :: bytes \<Rightarrow> string + bytes) (Inr ()) c1 = (c2, None)"
    by (simp add: doReconnect_def newAES256BlockCrypt_def Let_def)
  show ?thesis
    using failed_chan_subscribe_panics [where envs = "\<lambda>k. done_env" and now = 0 and t = 0,
        OF ok(1-4) done_env_def call rc, of "NewMessageCmd CmdMsg ''x'' [7]"] rc call ok(5)
    by (simp add: NewMessageCmd_def matchSubject_def)
qed

text \<open>
  The context given to \<open>ConnectWithContext\<close> limits the life of the client, not only the connecting: once
  it is done, as a timeout for connecting soon is, every round of the receive loop ends it whatever
  was received, also after a reconnection, which keeps the context; but the heartbeat goes on, a
  publish still succeeds, and the statistics still say connected.
\<close>

lemma connect_context_deafens:
  assumes "ctx_done c" and "\<not> c_done c" and "client_conn c"
  shows "receiveLoop_body now parsed c = (c\<lparr>receiveLoopDone := True\<rparr>, False) \<and>
    heartbeat_body None c = (c\<lparr>outgoing := outgoing c @ [Encode (NewMessageCmd CmdPing [] [])]\<rparr>, True) \<and>
    snd (Publish None ''x'' [1] c) = None \<and> Connected (client_GetStats now c) \<and>
    ctx_done (fst (doReconnect mk dialed c))"
  using assms
  by (auto simp: receiveLoop_body_def heartbeat_body_def Publish_def PublishWithContext_def client_GetStats_def
      doReconnect_def max_lens Let_def split: sum.splits)

end
