(* ===== verification/Perf_Test.thy ===== *)
theory Perf_Test
  imports Client_API Config
begin

text \<open>
  The load test \<open>src/examples/perf_test\<close>: a publisher sends numbered test frames with a time stamp,
  and any number of subscribers record size and latency of what they receive in one shared
  statistics object. Modelled are the frames, the scenarios, a tick of the publisher, the callback of
  a subscriber, the report, and \<open>RecordMessage\<close> twice: as one function, and split into its atomic
  accesses for the subscribers that run it concurrently.
\<close>

section \<open>Statistics\<close>

record perf_stats =
  TotalMessages :: "64 word"
  TotalBytes :: "64 word"
  TotalLatency :: "64 word"
  MinLatency :: "64 word"
  MaxLatency :: "64 word"
  ErrorCount :: "64 word"
  StartTime :: int

definition new_stats :: "int \<Rightarrow> perf_stats" where
  "new_stats now = \<lparr>TotalMessages = 0, TotalBytes = 0, TotalLatency = 0, MinLatency = 0, MaxLatency = 0,
     ErrorCount = 0, StartTime = now\<rparr>"

text \<open>\<open>RecordMessage\<close> without interference: the loop for the maximum ends in its first round.\<close>

definition RecordMessage :: "64 word \<Rightarrow> 64 word \<Rightarrow> perf_stats \<Rightarrow> perf_stats" where
  "RecordMessage msgSize latency s =
     (let s1 = s\<lparr>TotalMessages := TotalMessages s + 1\<rparr>;
          s2 = s1\<lparr>TotalBytes := TotalBytes s1 + msgSize\<rparr>;
          s3 = (if latency \<le> MaxLatency s2 then s2 else s2\<lparr>MaxLatency := latency\<rparr>);
          s4 = (if latency < MinLatency s3 \<or> MinLatency s3 = 0 then s3\<lparr>MinLatency := latency\<rparr> else s3)
      in s4\<lparr>TotalLatency := TotalLatency s4 + latency\<rparr>)"

definition RecordError :: "perf_stats \<Rightarrow> perf_stats" where
  "RecordError s = s\<lparr>ErrorCount := ErrorCount s + 1\<rparr>"

definition GetSnapshot :: "perf_stats \<Rightarrow> 64 word \<times> 64 word \<times> 64 word \<times> 64 word \<times> 64 word" where
  "GetSnapshot s = (TotalMessages s, TotalBytes s, TotalLatency s, MinLatency s, MaxLatency s)"

section \<open>Frames and scenarios\<close>

text \<open>
  A test frame: start code, type, and a counting pattern. Indexing beyond the slice panics: the size
  must be at least 5, and 6 for every thirtieth frame.
\<close>

definition generateH264Frame :: "int \<Rightarrow> int \<Rightarrow> bytes option" where
  "generateH264Frame frameSize frameNum =
     (if frameSize < 5 \<or> (frameNum mod 30 = 0 \<and> frameSize < 6) then None
      else
        let header = (if frameNum mod 30 = 0 then [0, 0, 0, 1, 0x67, 0x42] else [0, 0, 0, 1, 0x41, 0])
        in Some (take (nat frameSize) header @ map (\<lambda>i. word_of_nat (i mod 256)) [6..<nat frameSize]))"

record scenario =
  ScenarioName :: string
  ScenarioSize :: int
  MessageRate :: duration
  SubscriberCount :: int
  Duration :: duration

text \<open>The table of \<open>main\<close>; an unknown name ends the program.\<close>

definition scenarios :: "string \<Rightarrow> scenario option" where
  "scenarios name = map_of
     [(''small'', \<lparr>ScenarioName = ''Small Messages (1KB, 1000 msg/s)'', ScenarioSize = 1024,
         MessageRate = 1000000, SubscriberCount = 1, Duration = seconds 10\<rparr>),
      (''medium'', \<lparr>ScenarioName = ''Medium Messages (10KB, 100 msg/s)'', ScenarioSize = 10 * 1024,
         MessageRate = 10 * 1000000, SubscriberCount = 1, Duration = seconds 10\<rparr>),
      (''large'', \<lparr>ScenarioName = ''Large Messages (100KB, 30 msg/s)'', ScenarioSize = 100 * 1024,
         MessageRate = 33 * 1000000, SubscriberCount = 1, Duration = seconds 10\<rparr>),
      (''h264-720p'', \<lparr>ScenarioName = ''H.264 720p@30fps (50KB/frame)'', ScenarioSize = 50 * 1024,
         MessageRate = 33 * 1000000, SubscriberCount = 5, Duration = seconds 30\<rparr>),
      (''h264-1080p'', \<lparr>ScenarioName = ''H.264 1080p@30fps (150KB/frame)'', ScenarioSize = 150 * 1024,
         MessageRate = 33 * 1000000, SubscriberCount = 10, Duration = seconds 30\<rparr>),
      (''stress'', \<lparr>ScenarioName = ''Stress Test (Mixed)'', ScenarioSize = 50 * 1024,
         MessageRate = 10 * 1000000, SubscriberCount = 50, Duration = seconds 20\<rparr>)] name"

text \<open>The optional second argument; the result of \<open>strconv.Atoi\<close> is given, \<^const>\<open>None\<close> for an error.\<close>

definition override_count :: "int option \<Rightarrow> scenario \<Rightarrow> scenario" where
  "override_count atoi config =
     (case atoi of
        Some n \<Rightarrow> if n > 0 then config\<lparr>SubscriberCount := n\<rparr> else config
      | None \<Rightarrow> config)"

section \<open>Publisher and subscribers\<close>

record publisher =
  frameNum :: int
  PublishedCount :: "64 word"
  PublishedBytes :: "64 word"

text \<open>
  A tick of the publisher: the client, its counters and the shared statistics. \<^const>\<open>None\<close> is the
  panic of a frame that is too small.
\<close>

definition publish_tick :: "scenario \<Rightarrow> int \<Rightarrow> string option \<Rightarrow> client \<times> publisher \<times> perf_stats \<Rightarrow>
    (client \<times> publisher \<times> perf_stats) option" where
  "publish_tick config now writeErr st =
     (case st of (cli, pub, stats) \<Rightarrow>
      let pub1 = pub\<lparr>frameNum := frameNum pub + 1\<rparr> in
      case generateH264Frame (ScenarioSize config) (frameNum pub1) of
        None \<Rightarrow> None
      | Some frame \<Rightarrow>
          let timestampBytes = PutUint64 (word_of_int now);
              message = timestampBytes @ frame
          in (case Publish writeErr ''video.stream'' message cli of
                (cli', Some err) \<Rightarrow> Some (cli', pub1, RecordError stats)
              | (cli', None) \<Rightarrow>
                  Some (cli', pub1\<lparr>PublishedCount := PublishedCount pub1 + 1,
                                   PublishedBytes := PublishedBytes pub1 + of_nat (length message)\<rparr>, stats)))"

text \<open>
  What the callback of a subscriber records: size and latency. A message without a time stamp panics;
  a time stamp of the future wraps around to a huge latency.
\<close>

definition perf_callback :: "int \<Rightarrow> client_message \<Rightarrow> (64 word \<times> 64 word) option" where
  "perf_callback now msg =
     (if length (MsgData msg) < 8 then None
      else
        let timestamp = sint (Uint64 (take 8 (MsgData msg)));
            latency = (word_of_int (wrap64 (now - timestamp)) :: 64 word)
        in Some (of_nat (length (MsgData msg)), latency))"

section \<open>Reports\<close>

text \<open>The printed rates: exact quotients where the code uses floating point, \<^const>\<open>None\<close> for a quotient by zero.\<close>

record perf_report =
  msgRate :: rat
  perfByteRate :: rat
  avgLat :: "rat option"
  minLatMs :: rat
  maxLatMs :: rat

definition perf_printStats :: "int \<Rightarrow> perf_stats \<Rightarrow> perf_report option" where
  "perf_printStats now s =
     (case GetSnapshot s of (totalMsg, totalBytes, totalLat, minLat, maxLat) \<Rightarrow>
      let elapsed = of_int (now - StartTime s) / 1000000000 in
      if elapsed = (0 :: rat) then None
      else Some \<lparr>msgRate = of_nat (unat totalMsg) / elapsed,
             perfByteRate = of_nat (unat totalBytes) / elapsed / 1024 / 1024,
             avgLat = (if totalMsg = 0 then None
               else Some (of_nat (unat totalLat) / of_nat (unat totalMsg) / 1000000)),
             minLatMs = of_nat (unat minLat) / 1000000, maxLatMs = of_nat (unat maxLat) / 1000000\<rparr>)"

text \<open>
  The final report. A quotient by zero prints as infinite or as no number (\<^const>\<open>None\<close>); the lines on
  latencies, errors and single subscribers are printed only under their conditions.
\<close>

definition quotient :: "rat \<Rightarrow> rat \<Rightarrow> rat option" where
  "quotient x y = (if y = 0 then None else Some (x / y))"

record latency_lines =
  l_min :: rat
  l_max :: rat
  l_avg :: rat
  l_p99 :: rat

record final_report =
  publishedRate :: "rat option"
  publishedMBs :: "rat option"
  receivedRate :: "rat option"
  receivedMBs :: "rat option"
  latencyLines :: "latency_lines option"
  errorLine :: "(nat \<times> rat option) option"
  perSubscriber :: "(rat \<times> rat option) option"
  deliveryRate :: "rat option"

definition printFinalStats :: "int \<Rightarrow> perf_stats \<Rightarrow> publisher \<Rightarrow> scenario \<Rightarrow> final_report" where
  "printFinalStats now s pub config =
     (case GetSnapshot s of (totalMsg, totalBytes, totalLat, minLat, maxLat) \<Rightarrow>
      let elapsed = of_int (now - StartTime s) / 1000000000;
          val = (\<lambda>w :: 64 word. of_nat (unat w) :: rat);
          publishedCount = PublishedCount pub;
          publishedBytes = PublishedBytes pub;
          errors = ErrorCount s;
          subscribers = of_int (SubscriberCount config)
      in \<lparr>publishedRate = quotient (val publishedCount) elapsed,
          publishedMBs = map_option (\<lambda>r. r / 1024 / 1024) (quotient (val publishedBytes) elapsed),
          receivedRate = quotient (val totalMsg) elapsed,
          receivedMBs = map_option (\<lambda>r. r / 1024 / 1024) (quotient (val totalBytes) elapsed),
          latencyLines = (if totalMsg > 0 then Some
             \<lparr>l_min = val minLat / 1000000, l_max = val maxLat / 1000000,
              l_avg = val totalLat / val totalMsg / 1000000, l_p99 = val maxLat * 99 / 100 / 1000000\<rparr> else None),
          errorLine = (if errors > 0
             then Some (unat errors, map_option (\<lambda>r. r * 100) (quotient (val errors) (val publishedCount))) else None),
          perSubscriber = (if SubscriberCount config > 0
             then Some (val totalMsg / subscribers, quotient (val totalMsg / subscribers) elapsed) else None),
          deliveryRate = (case quotient (val totalMsg) (val publishedCount) of
             None \<Rightarrow> None
           | Some r \<Rightarrow> map_option (\<lambda>q. q * 100) (quotient r subscribers))\<rparr>)"

text \<open>When every subscriber recorded every published message, the report says 100 per cent.\<close>

lemma full_delivery_rate:
  assumes "0 < PublishedCount pub" and "0 < SubscriberCount config"
    and "int (unat (TotalMessages s)) = int (unat (PublishedCount pub)) * SubscriberCount config"
  shows "deliveryRate (printFinalStats now s pub config) = Some 100"
proof -
  have "(of_nat (unat (TotalMessages s)) :: rat) = of_nat (unat (PublishedCount pub)) * of_int (SubscriberCount config)"
    using arg_cong [OF assms(3), of "of_int :: int \<Rightarrow> rat"] by simp
  moreover have "unat (PublishedCount pub) \<noteq> 0" using assms(1) by (simp add: unat_eq_zero)
  then have "(of_nat (unat (PublishedCount pub)) :: rat) \<noteq> 0" by (simp only: of_nat_eq_0_iff not_False_eq_True)
  ultimately show ?thesis
    using assms(2) by (simp add: printFinalStats_def GetSnapshot_def quotient_def Let_def)
qed

text \<open>
  The line \<open>P99: <\<close> is wrong: it prints 99 per cent of the maximum, whatever the distribution. When all
  messages had the same latency, the average, and so every percentile, is above the printed bound.
\<close>

lemma final_p99_too_low:
  assumes "latencyLines (printFinalStats now s pub config) = Some l" and "0 < MaxLatency s"
    and "TotalLatency s = TotalMessages s * MaxLatency s"
    and "unat (TotalMessages s) * unat (MaxLatency s) < 2 ^ 64"
  shows "l_avg l = l_max l \<and> l_p99 l < l_avg l"
proof -
  have "unat (TotalLatency s) = unat (TotalMessages s) * unat (MaxLatency s)"
    using assms(4) unat_mult_lem [of "TotalMessages s" "MaxLatency s"] unfolding assms(3) by simp
  then have "(of_nat (unat (TotalLatency s)) :: rat) = of_nat (unat (TotalMessages s)) * of_nat (unat (MaxLatency s))"
    by (simp only: of_nat_mult)
  moreover have "0 < unat (TotalMessages s)"
    using assms(1) by (auto simp: printFinalStats_def GetSnapshot_def Let_def unat_gt_0 split: if_splits)
  then have "(0 :: rat) < of_nat (unat (TotalMessages s))" by (simp only: of_nat_0_less_iff)
  moreover have "0 < unat (MaxLatency s)" using assms(2) by (simp add: unat_gt_0)
  then have "(0 :: rat) < of_nat (unat (MaxLatency s))" by (simp only: of_nat_0_less_iff)
  ultimately show ?thesis
    using assms(1) by (auto simp: printFinalStats_def GetSnapshot_def Let_def split: if_splits)
qed

section \<open>Recording concurrently\<close>

text \<open>
  A call of \<open>RecordMessage\<close> stands at one of its atomic accesses: the two additions, the load and the
  compare-and-swap of the maximum (with the value loaded), the load of the minimum, the second look
  at it, the store, and the last addition.
\<close>

datatype record_pc =
    AddMessage
  | AddBytes
  | LoadMax
  | CasMax "64 word"
  | LoadMin
  | CheckZero
  | StoreMin
  | AddLatency
  | Recorded

record recording =
  rec_size :: "64 word"
  rec_latency :: "64 word"
  rec_pc :: record_pc

definition record_step :: "recording \<Rightarrow> perf_stats \<Rightarrow> recording \<times> perf_stats" where
  "record_step r s =
     (case rec_pc r of
        AddMessage \<Rightarrow> (r\<lparr>rec_pc := AddBytes\<rparr>, s\<lparr>TotalMessages := TotalMessages s + 1\<rparr>)
      | AddBytes \<Rightarrow> (r\<lparr>rec_pc := LoadMax\<rparr>, s\<lparr>TotalBytes := TotalBytes s + rec_size r\<rparr>)
      | LoadMax \<Rightarrow>
          (if rec_latency r \<le> MaxLatency s then (r\<lparr>rec_pc := LoadMin\<rparr>, s)
           else (r\<lparr>rec_pc := CasMax (MaxLatency s)\<rparr>, s))
      | CasMax old \<Rightarrow>
          (if MaxLatency s = old then (r\<lparr>rec_pc := LoadMin\<rparr>, s\<lparr>MaxLatency := rec_latency r\<rparr>)
           else (r\<lparr>rec_pc := LoadMax\<rparr>, s))
      | LoadMin \<Rightarrow>
          (if rec_latency r < MinLatency s then (r\<lparr>rec_pc := StoreMin\<rparr>, s) else (r\<lparr>rec_pc := CheckZero\<rparr>, s))
      | CheckZero \<Rightarrow>
          (if MinLatency s = 0 then (r\<lparr>rec_pc := StoreMin\<rparr>, s) else (r\<lparr>rec_pc := AddLatency\<rparr>, s))
      | StoreMin \<Rightarrow> (r\<lparr>rec_pc := AddLatency\<rparr>, s\<lparr>MinLatency := rec_latency r\<rparr>)
      | AddLatency \<Rightarrow> (r\<lparr>rec_pc := Recorded\<rparr>, s\<lparr>TotalLatency := TotalLatency s + rec_latency r\<rparr>)
      | Recorded \<Rightarrow> (r, s))"

record perf_sys =
  perf :: perf_stats
  recs :: "recording list"

inductive perf_step :: "perf_sys \<Rightarrow> perf_sys \<Rightarrow> bool" where
  perf_access: "i < length (recs st) \<Longrightarrow> rec_pc (recs st ! i) \<noteq> Recorded \<Longrightarrow>
    record_step (recs st ! i) (perf st) = (r, s) \<Longrightarrow>
    perf_step st (st\<lparr>perf := s, recs := (recs st)[i := r]\<rparr>)"

definition perf_start :: "(64 word \<times> 64 word) list \<Rightarrow> perf_sys \<Rightarrow> bool" where
  "perf_start calls st \<longleftrightarrow> (\<exists>now. perf st = new_stats now) \<and>
     recs st = map (\<lambda>(n, l). \<lparr>rec_size = n, rec_latency = l, rec_pc = AddMessage\<rparr>) calls"

section \<open>Invariant\<close>

text \<open>What a call has contributed to the sums so far, and whether it is past the loop of the maximum.\<close>

definition did_message :: "recording \<Rightarrow> 64 word" where
  "did_message r = (if rec_pc r = AddMessage then 0 else 1)"

definition did_bytes :: "recording \<Rightarrow> 64 word" where
  "did_bytes r = (if rec_pc r = AddMessage \<or> rec_pc r = AddBytes then 0 else rec_size r)"

definition did_latency :: "recording \<Rightarrow> 64 word" where
  "did_latency r = (if rec_pc r = Recorded then rec_latency r else 0)"

fun in_loop :: "record_pc \<Rightarrow> bool" where
  "in_loop AddMessage = True"
| "in_loop AddBytes = True"
| "in_loop LoadMax = True"
| "in_loop (CasMax old) = True"
| "in_loop _ = False"

text \<open>A call in order: the value it compares with is below its latency; past the loop, the maximum is at least it.\<close>

definition rec_ok :: "64 word \<Rightarrow> recording \<Rightarrow> bool" where
  "rec_ok mx r \<longleftrightarrow> (\<forall>old. rec_pc r = CasMax old \<longrightarrow> old < rec_latency r) \<and>
     (\<not> in_loop (rec_pc r) \<longrightarrow> rec_latency r \<le> mx)"

lemma record_step_sums:
  assumes "record_step r s = (r', s')" and "rec_pc r \<noteq> Recorded"
  shows "rec_size r' = rec_size r" "rec_latency r' = rec_latency r" "StartTime s' = StartTime s"
    "TotalMessages s' = TotalMessages s + did_message r' - did_message r"
    "TotalBytes s' = TotalBytes s + did_bytes r' - did_bytes r"
    "TotalLatency s' = TotalLatency s + did_latency r' - did_latency r"
  using assms by (auto simp: record_step_def did_message_def did_bytes_def did_latency_def
      split: record_pc.splits if_splits)

lemma record_step_max:
  assumes "record_step r s = (r', s')" and "rec_ok (MaxLatency s) r"
  shows "MaxLatency s \<le> MaxLatency s' \<and> MaxLatency s' \<in> {MaxLatency s, rec_latency r} \<and> rec_ok (MaxLatency s') r'"
  using assms by (auto simp: record_step_def rec_ok_def split: record_pc.splits if_splits)

lemma sum_list_update_group:
  fixes f :: "'a \<Rightarrow> 64 word"
  shows "i < length xs \<Longrightarrow> sum_list (map f (xs[i := y])) = sum_list (map f xs) + f y - f (xs ! i)"
proof (induction xs arbitrary: i)
  case (Cons x xs)
  then show ?case by (cases i) (simp_all add: algebra_simps)
qed simp

definition perf_inv :: "(64 word \<times> 64 word) list \<Rightarrow> perf_sys \<Rightarrow> bool" where
  "perf_inv calls st \<longleftrightarrow> map (\<lambda>r. (rec_size r, rec_latency r)) (recs st) = calls \<and>
     TotalMessages (perf st) = sum_list (map did_message (recs st)) \<and>
     TotalBytes (perf st) = sum_list (map did_bytes (recs st)) \<and>
     TotalLatency (perf st) = sum_list (map did_latency (recs st)) \<and>
     MaxLatency (perf st) \<in> insert 0 (snd ` set calls) \<and>
     (\<forall>r \<in> set (recs st). rec_ok (MaxLatency (perf st)) r)"

lemma perf_inv_start: "perf_start calls st \<Longrightarrow> perf_inv calls st"
proof -
  assume s: "perf_start calls st"
  have zero: "f \<in> {did_message, did_bytes, did_latency} \<Longrightarrow>
      sum_list (map (f \<circ> (\<lambda>(n, l). \<lparr>rec_size = n, rec_latency = l, rec_pc = AddMessage\<rparr>)) cs) = 0" for cs f
    by (induction cs) (auto simp: did_message_def did_bytes_def did_latency_def)
  have "map (\<lambda>r. (rec_size r, rec_latency r)) (recs st) = calls"
    using s by (auto simp: perf_start_def comp_def case_prod_beta)
  then show ?thesis
    using s zero by (auto simp: perf_inv_def perf_start_def new_stats_def rec_ok_def)
qed

lemma rec_ok_mono: "rec_ok a r \<Longrightarrow> a \<le> b \<Longrightarrow> rec_ok b r"
  by (auto simp: rec_ok_def)

lemma perf_inv_step: "perf_inv calls st \<Longrightarrow> perf_step st st' \<Longrightarrow> perf_inv calls st'"
proof (erule perf_step.cases)
  fix i st0 r s
  assume inv: "perf_inv calls st" and eq: "st = st0" "st' = st0\<lparr>perf := s, recs := (recs st0)[i := r]\<rparr>"
    and i: "i < length (recs st0)" and pc: "rec_pc (recs st0 ! i) \<noteq> Recorded"
    and stp: "record_step (recs st0 ! i) (perf st0) = (r, s)"
  let ?r = "recs st ! i"
  have mem: "?r \<in> set (recs st)" using i eq(1) by simp
  note sums = record_step_sums [OF stp pc, folded eq(1)]
  have mx: "MaxLatency (perf st) \<le> MaxLatency s \<and> MaxLatency s \<in> {MaxLatency (perf st), rec_latency ?r} \<and>
      rec_ok (MaxLatency s) r"
    using record_step_max [OF stp] inv mem eq(1) by (simp add: perf_inv_def)
  have calls: "map (\<lambda>r. (rec_size r, rec_latency r)) ((recs st)[i := r]) = calls"
  proof -
    let ?f = "\<lambda>r. (rec_size r, rec_latency r)"
    have "?f r = map ?f (recs st) ! i" using sums(1,2) i eq(1) by simp
    then have "map ?f ((recs st)[i := r]) = map ?f (recs st)" by (simp only: map_update list_update_id)
    then show ?thesis using inv by (simp add: perf_inv_def)
  qed
  have "rec_latency ?r \<in> snd ` set calls"
    using inv mem by (force simp: perf_inv_def)
  moreover have "MaxLatency (perf st) \<in> insert 0 (snd ` set calls)"
    using inv by (simp add: perf_inv_def)
  ultimately have "MaxLatency s \<in> insert 0 (snd ` set calls)"
    using mx by (metis insert_iff singletonD)
  moreover have "\<forall>q \<in> set ((recs st)[i := r]). rec_ok (MaxLatency s) q"
    using inv mx set_update_subset_insert [of "recs st" i r]
    by (auto simp: perf_inv_def intro: rec_ok_mono)
  moreover have "TotalMessages s = sum_list (map did_message ((recs st)[i := r])) \<and>
      TotalBytes s = sum_list (map did_bytes ((recs st)[i := r])) \<and>
      TotalLatency s = sum_list (map did_latency ((recs st)[i := r]))"
    using inv sums(4-6) i eq(1) by (simp add: perf_inv_def sum_list_update_group)
  ultimately show ?thesis
    using calls eq by (simp add: perf_inv_def)
qed

interpretation ps: invariant_system "perf_start calls" perf_step "perf_inv calls" for calls
  by unfold_locales (auto intro: perf_inv_start perf_inv_step)

section \<open>Termination\<close>

text \<open>
  The loop of the maximum ends although a compare-and-swap can fail: it fails only when another call
  has left the loop in between. With \<open>n\<close> calls, leaving the loop weighs more than the extra rounds
  it can cause. A call whose compared value is stale has two more accesses to make.
\<close>

fun weight :: "nat \<Rightarrow> 64 word \<Rightarrow> record_pc \<Rightarrow> nat" where
  "weight n mx AddMessage = 2 * n + 11"
| "weight n mx AddBytes = 2 * n + 10"
| "weight n mx LoadMax = 2 * n + 8"
| "weight n mx (CasMax old) = (if old = mx then 2 * n + 7 else 2 * n + 9)"
| "weight n mx LoadMin = 4"
| "weight n mx CheckZero = 3"
| "weight n mx StoreMin = 2"
| "weight n mx AddLatency = 1"
| "weight n mx Recorded = 0"

definition remaining :: "perf_sys \<Rightarrow> nat" where
  "remaining st = sum_list (map (\<lambda>r. weight (length (recs st)) (MaxLatency (perf st)) (rec_pc r)) (recs st))"

lemma weight_other: "weight n mx' pc \<le> weight n mx pc + 2"
  by (cases pc) auto

lemma weight_sum_other:
  "sum_list (map (\<lambda>r. weight n mx' (rec_pc r)) rs) \<le> sum_list (map (\<lambda>r. weight n mx (rec_pc r)) rs) + 2 * length rs"
proof (induction rs)
  case (Cons r rs)
  then show ?case using weight_other [of n mx' "rec_pc r" mx] by simp
qed simp

lemma sum_list_split:
  "i < length xs \<Longrightarrow> sum_list (map f (xs[i := y])) = (f y :: nat) + sum_list (map f (take i xs @ drop (Suc i) xs)) \<and>
   sum_list (map f xs) = f (xs ! i) + sum_list (map f (take i xs @ drop (Suc i) xs))"
proof (induction xs arbitrary: i)
  case (Cons x xs)
  then show ?case by (cases i) auto
qed simp

lemma remaining_decreases: "perf_step st st' \<Longrightarrow> remaining st' < remaining st"
proof (erule perf_step.cases)
  fix i st0 r s
  assume eq: "st = st0" "st' = st0\<lparr>perf := s, recs := (recs st0)[i := r]\<rparr>"
    and i: "i < length (recs st0)" and pc: "rec_pc (recs st0 ! i) \<noteq> Recorded"
    and stp: "record_step (recs st0 ! i) (perf st0) = (r, s)"
  define n where "n = length (recs st)"
  define mx where "mx = MaxLatency (perf st)"
  define mx' where "mx' = MaxLatency s"
  define others where "others = take i (recs st) @ drop (Suc i) (recs st)"
  have lo: "length others < n" using i eq(1) by (simp add: others_def n_def)
  let ?w = "\<lambda>m r. weight n m (rec_pc r)"
  have new: "remaining st' = ?w mx' r + sum_list (map (?w mx') others)"
    and old: "remaining st = ?w mx (recs st ! i) + sum_list (map (?w mx) others)"
    using sum_list_split [of i "recs st" "?w mx'" r] sum_list_split [of i "recs st" "?w mx" r] i eq
    by (simp_all add: remaining_def n_def mx_def mx'_def others_def)
  show ?thesis
  proof (cases "mx' = mx")
    case True
    then have "?w mx r < ?w mx (recs st ! i)"
      using stp pc eq(1) unfolding mx_def mx'_def
      by (auto simp: record_step_def split: record_pc.splits if_splits)
    then show ?thesis using new old True by simp
  next
    case False
    then have "rec_pc r = LoadMin \<and> rec_pc (recs st ! i) = CasMax mx"
      using stp eq(1) unfolding mx_def mx'_def
      by (auto simp: record_step_def split: record_pc.splits if_splits)
    then have "?w mx' r = 4 \<and> ?w mx (recs st ! i) = 2 * n + 7" by simp
    then show ?thesis
      using new old weight_sum_other [of n mx' others mx] lo by simp
  qed
qed

lemma remaining_start: "perf_start calls st \<Longrightarrow> remaining st = length calls * (2 * length calls + 11)"
proof -
  assume s: "perf_start calls st"
  have "sum_list (map (\<lambda>r. weight n mx (rec_pc r))
      (map (\<lambda>(k, l). \<lparr>rec_size = k, rec_latency = l, rec_pc = AddMessage\<rparr>) cs)) = length cs * (2 * n + 11)" for n mx cs
    by (induction cs) auto
  then show ?thesis using s by (simp add: remaining_def perf_start_def)
qed

lemma remaining_run: "(perf_step ^^ k) st st' \<Longrightarrow> remaining st' + k \<le> remaining st"
proof (induction k arbitrary: st')
  case (Suc k)
  then obtain st1 where "(perf_step ^^ k) st st1" "perf_step st1 st'" by auto
  then show ?case using Suc.IH [of st1] remaining_decreases [of st1 st'] by simp
qed simp

lemma perf_stuck: "(\<nexists>st'. perf_step st st') \<longleftrightarrow> (\<forall>r \<in> set (recs st). rec_pc r = Recorded)"
proof
  assume stuck: "\<nexists>st'. perf_step st st'"
  show "\<forall>r \<in> set (recs st). rec_pc r = Recorded"
  proof (rule ccontr)
    assume "\<not> ?thesis"
    then obtain i where "i < length (recs st)" "rec_pc (recs st ! i) \<noteq> Recorded"
      by (auto simp: in_set_conv_nth)
    then have "perf_step st (st\<lparr>perf := snd (record_step (recs st ! i) (perf st)),
        recs := (recs st)[i := fst (record_step (recs st ! i) (perf st))]\<rparr>)"
      by (intro perf_access) auto
    then show False using stuck by blast
  qed
qed (auto elim!: perf_step.cases)

text \<open>Without interference the accesses compute the function.\<close>

lemma record_solo:
  "((\<lambda>(r, s). record_step r s) ^^ 8) (\<lparr>rec_size = n, rec_latency = l, rec_pc = AddMessage\<rparr>, s) =
     (\<lparr>rec_size = n, rec_latency = l, rec_pc = Recorded\<rparr>, RecordMessage n l s)"
  by (auto simp: numeral_eq_Suc record_step_def RecordMessage_def Let_def)

text \<open>Running a schedule: a list of the calls that make the next access.\<close>

fun run_schedule :: "nat list \<Rightarrow> perf_sys \<Rightarrow> perf_sys" where
  "run_schedule [] st = st"
| "run_schedule (i # is) st =
     (if i < length (recs st) \<and> rec_pc (recs st ! i) \<noteq> Recorded then
        (case record_step (recs st ! i) (perf st) of
           (r, s) \<Rightarrow> run_schedule is (st\<lparr>perf := s, recs := (recs st)[i := r]\<rparr>))
      else run_schedule is st)"

lemma run_schedule_steps: "perf_step\<^sup>*\<^sup>* st (run_schedule is st)"
proof (induction "is" st rule: run_schedule.induct)
  case (2 i "is" st)
  show ?case
  proof (cases "i < length (recs st) \<and> rec_pc (recs st ! i) \<noteq> Recorded")
    case True
    obtain r s where rs: "record_step (recs st ! i) (perf st) = (r, s)" by fastforce
    have "perf_step st (st\<lparr>perf := s, recs := (recs st)[i := r]\<rparr>)"
      using True rs by (intro perf_access) auto
    then show ?thesis
      using "2.IH"(1) [OF True rs [symmetric]] True rs by (auto intro: converse_rtranclp_into_rtranclp)
  next
    case False
    then show ?thesis using "2.IH"(2) by auto
  qed
qed simp

definition two_calls :: perf_sys where
  "two_calls = \<lparr>perf = new_stats 0, recs = [\<lparr>rec_size = 1, rec_latency = 5, rec_pc = AddMessage\<rparr>,
     \<lparr>rec_size = 1, rec_latency = 3, rec_pc = AddMessage\<rparr>]\<rparr>"

lemma two_calls_start: "perf_start [(1, 5), (1, 3)] two_calls"
  by (auto simp: perf_start_def two_calls_def)

lemma scenario_sizes:
  "scenarios name = Some config \<Longrightarrow> 1024 \<le> ScenarioSize config \<and> ScenarioSize config \<le> 150 * 1024 \<and>
     0 < MessageRate config"
  by (auto simp: scenarios_def split: if_splits)

lemma generate_length:
  "6 \<le> n \<Longrightarrow> \<exists>frame. generateH264Frame n k = Some frame \<and> int (length frame) = n \<and> take 4 frame = [0, 0, 0, 1]"
  by (auto simp: generateH264Frame_def Let_def)

section \<open>Properties\<close>

text \<open>The shared statistics of the load test are exact under concurrency: for any number of calls of
  \<open>RecordMessage\<close>, whatever the order of their atomic accesses, once all have returned the message
  count is their number, the sums of bytes and of latencies are those of all calls (modulo
  \<open>2 ^ 64\<close>), and the maximum is the greatest latency of all.\<close>

lemma perf_stats_exact_concurrent:
  assumes "reach (perf_start calls) perf_step st" and "\<forall>r \<in> set (recs st). rec_pc r = Recorded"
  shows "\<exists>minLat. GetSnapshot (perf st) = (of_nat (length calls), sum_list (map fst calls), sum_list (map snd calls),
    minLat, Max (insert 0 (snd ` set calls)))"
proof -
  have inv: "perf_inv calls st" using ps.reach_inv [OF assms(1)] .
  have eq: "map f (recs st) = map g calls"
    if "\<And>r. rec_pc r = Recorded \<Longrightarrow> f r = g (rec_size r, rec_latency r)" for f :: "recording \<Rightarrow> 64 word" and g
  proof -
    have "map f (recs st) = map g (map (\<lambda>r. (rec_size r, rec_latency r)) (recs st))"
      using assms(2) that by auto
    also have "map (\<lambda>r. (rec_size r, rec_latency r)) (recs st) = calls" using inv by (simp add: perf_inv_def)
    finally show ?thesis .
  qed
  have 1: "map did_message (recs st) = map (\<lambda>c. 1) calls" by (rule eq) (simp add: did_message_def)
  have 2: "map did_bytes (recs st) = map fst calls" by (rule eq) (simp add: did_bytes_def)
  have 3: "map did_latency (recs st) = map snd calls" by (rule eq) (simp add: did_latency_def)
  have one: "sum_list (map (\<lambda>c. 1 :: 64 word) cs) = of_nat (length cs)" for cs :: "(64 word \<times> 64 word) list"
    by (induction cs) simp_all
  have le: "l \<le> MaxLatency (perf st)" if l: "l \<in> snd ` set calls" for l
  proof -
    have "calls = map (\<lambda>r. (rec_size r, rec_latency r)) (recs st)" using inv by (simp add: perf_inv_def)
    then obtain r where r: "r \<in> set (recs st)" "l = rec_latency r" using l by auto
    then show ?thesis using inv assms(2) by (auto simp: perf_inv_def rec_ok_def)
  qed
  have "Max (insert 0 (snd ` set calls)) = MaxLatency (perf st)"
    by (rule Max_eqI) (use inv le in \<open>auto simp: perf_inv_def\<close>)
  then show ?thesis
    using inv 1 2 3 one by (simp add: perf_inv_def GetSnapshot_def)
qed

definition two_done :: perf_sys where
  "two_done = run_schedule [0, 0, 0, 0, 0, 0, 1, 1, 1, 1, 1, 1, 1, 0, 0] two_calls"

lemma two_done_reach: "reach (perf_start [(1, 5), (1, 3)]) perf_step two_done"
  unfolding two_done_def by (rule reach_steps [OF run_schedule_steps]) (rule reach_start, rule two_calls_start)

lemma two_done_state:
  "map rec_pc (recs two_done) = [Recorded, Recorded]" "MinLatency (perf two_done) = 5"
  by (simp_all add: two_done_def two_calls_def new_stats_def record_step_def)

text \<open>Recording never blocks and always ends: \<open>n\<close> concurrent calls of \<open>RecordMessage\<close> make at most
  \<open>n (2 n + 11)\<close> atomic accesses altogether, however the failing compare-and-swaps fall, and as long as
  some call has not returned, some access can be made.\<close>

lemma record_message_terminates:
  assumes "perf_start calls st" and "(perf_step ^^ k) st st'"
  shows "k \<le> length calls * (2 * length calls + 11) \<and>
    ((\<nexists>st''. perf_step st' st'') \<longleftrightarrow> (\<forall>r \<in> set (recs st'). rec_pc r = Recorded))"
  using remaining_run [OF assms(2)] remaining_start [OF assms(1)] perf_stuck [of st'] by simp

text \<open>The minimum of the load test is not reliable: two calls that both find no minimum yet store their
  latencies one after the other, and the larger one can be stored last; then the reported minimum is
  above a latency that was recorded.\<close>

lemma perf_min_race:
  "\<exists>st. reach (perf_start [(1, 5), (1, 3)]) perf_step st \<and> map rec_pc (recs st) = [Recorded, Recorded] \<and>
     MinLatency (perf st) = 5"
  by (intro exI [of _ two_done]) (simp add: two_done_reach two_done_state)

text \<open>What the publisher of the load test sends is what its subscribers measure: in every scenario of
  the table a tick with a working connection writes one packet, which the server parses as a PUB on
  the test's subject; its payload is eight bytes longer than the scenario's frame size; and a
  subscriber that gets this payload records its length and the time since the tick.\<close>

lemma perf_frame_round_trip:
  assumes "scenarios name = Some config" and "client_conn cli"
    and "- (2 ^ 63) \<le> now" and "now \<le> later" and "later < 2 ^ 62" and "later - now < 2 ^ 62"
  shows "\<exists>cli' pub' packet payload.
    publish_tick config now None (cli, pub, s) = Some (cli', pub', s) \<and>
    PublishedCount pub' = PublishedCount pub + 1 \<and> outgoing cli' = outgoing cli @ [packet] \<and>
    ParseFromReader \<lparr>avail = packet @ rest, ending = e\<rparr> =
      (Inr (NewMessageCmd CmdPub ''video.stream'' payload), \<lparr>avail = rest, ending = e\<rparr>) \<and>
    int (length payload) = ScenarioSize config + 8 \<and>
    perf_callback later \<lparr>MsgSubject = ''video.stream'', MsgData = payload\<rparr> =
      Some (of_nat (length payload), word_of_int (later - now))"
proof -
  note sz = scenario_sizes [OF assms(1)]
  obtain frame where f: "generateH264Frame (ScenarioSize config) (frameNum pub + 1) = Some frame"
    "int (length frame) = ScenarioSize config"
    using generate_length [of "ScenarioSize config" "frameNum pub + 1"] sz by auto
  define payload where "payload = PutUint64 (word_of_int now) @ frame"
  have l: "length payload = length frame + 8" by (simp add: payload_def)
  have v: "valid_message (NewMessageCmd CmdPub ''video.stream'' payload)"
    using f(2) sz l by (simp add: valid_message_def NewMessageCmd_def body_len_def max_lens)
  have pub: "Publish None ''video.stream'' payload cli =
      (cli\<lparr>outgoing := outgoing cli @ [Encode (NewMessageCmd CmdPub ''video.stream'' payload)]\<rparr>, None)"
    using assms(2) f(2) sz l by (simp add: Publish_def PublishWithContext_def max_lens Let_def)
  have ts: "sint (Uint64 (take 8 payload)) = now"
    using Uint64_PutUint64 [of "word_of_int now" "[]"] assms(3-5)
    by (simp add: payload_def signed_of_int signed_take_bit_int_eq_self)
  have w: "wrap64 (later - now) = later - now"
    using assms(4,6) by simp
  have cb: "perf_callback later \<lparr>MsgSubject = ''video.stream'', MsgData = payload\<rparr> =
      Some (of_nat (length payload), word_of_int (later - now))"
    using ts w l by (simp add: perf_callback_def)
  have tick: "\<exists>pub'. publish_tick config now None (cli, pub, s) =
      Some (cli\<lparr>outgoing := outgoing cli @ [Encode (NewMessageCmd CmdPub ''video.stream'' payload)]\<rparr>, pub', s) \<and>
      PublishedCount pub' = PublishedCount pub + 1"
    using f(1) pub by (simp add: publish_tick_def payload_def [symmetric] Let_def)
  have parse: "ParseFromReader \<lparr>avail = Encode (NewMessageCmd CmdPub ''video.stream'' payload) @ rest, ending = e\<rparr> =
      (Inr (NewMessageCmd CmdPub ''video.stream'' payload), \<lparr>avail = rest, ending = e\<rparr>)"
    using ParseFromReader_encode [OF v, of
        "\<lparr>avail = Encode (NewMessageCmd CmdPub ''video.stream'' payload) @ rest, ending = e\<rparr>" rest] by simp
  have len: "int (length payload) = ScenarioSize config + 8" using l f(2) by simp
  obtain pub' where t: "publish_tick config now None (cli, pub, s) =
      Some (cli\<lparr>outgoing := outgoing cli @ [Encode (NewMessageCmd CmdPub ''video.stream'' payload)]\<rparr>, pub', s)"
    "PublishedCount pub' = PublishedCount pub + 1" using tick by blast
  have "outgoing (cli\<lparr>outgoing := outgoing cli @ [Encode (NewMessageCmd CmdPub ''video.stream'' payload)]\<rparr>) =
      outgoing cli @ [Encode (NewMessageCmd CmdPub ''video.stream'' payload)]" by simp
  with t parse len cb show ?thesis by blast
qed

end
