(* ===== verification/Ping_Pong.thy ===== *)
theory Ping_Pong
  imports Client_API Config
begin

text \<open>
  The round-trip measurement: the program \<open>src/examples/ping_pong\<close>, which sends numbered pings and
  times the answers, and \<open>src/examples/ping_server\<close>, which echoes them. Modelled are the ping message,
  every iteration of the measuring loop, the statistics with their sort and percentiles, and the
  responder.
\<close>

section \<open>The measuring program\<close>

text \<open>
  The struct, with \<open>respChan\<close> as the responses not yet received by the loop, in order (the channel,
  followed by a send of the callback that waits for room), and \<open>answers\<close>, which records for every
  result the number of the ping and the response it was taken from.
\<close>

record ping_test =
  ClientID :: string
  ServerAddr :: string
  MessageCount :: int
  MessageSize :: int
  Results :: "duration list"
  ReceivedCount :: int
  respChan :: "client_message list"
  answers :: "(int \<times> client_message) list"

text \<open>A negative capacity in \<open>make\<close> panics.\<close>

definition NewPingPongTest :: "string \<Rightarrow> string \<Rightarrow> int \<Rightarrow> int \<Rightarrow> ping_test option" where
  "NewPingPongTest clientID address messageCount messageSize =
     (if messageCount < 0 then None
      else Some \<lparr>ClientID = clientID, ServerAddr = address, MessageCount = messageCount,
        MessageSize = messageSize, Results = [], ReceivedCount = 0, respChan = [], answers = []\<rparr>)"

text \<open>
  The ping: time stamp, number, and as much of the client's name as fits. A size below 12 makes the
  slice expressions panic.
\<close>

definition ping_message :: "int \<Rightarrow> int \<Rightarrow> int \<Rightarrow> string \<Rightarrow> bytes option" where
  "ping_message messageSize now i clientID =
     (if messageSize < 12 then None
      else
        let m0 = replicate (nat messageSize) 0;
            m1 = copy_at 0 (PutUint64 (word_of_int now)) m0;
            m2 = copy_at 8 (PutUint32 (word_of_int i)) m1
        in Some (copy_at 12 (bytes_of clientID) m2))"

definition request_subject :: "string \<Rightarrow> string" where
  "request_subject clientID = ''ping.'' @ clientID @ ''.request''"

definition response_subject :: "string \<Rightarrow> string" where
  "response_subject clientID = ''ping.'' @ clientID @ ''.response''"

text \<open>
  What the environment does in one iteration: the times of sending and receiving, the error of the
  write, and the responses that arrive before the timer of five seconds fires. Responses that
  arrive later come with a later iteration (\<open>late\<close>, before its ping).
\<close>

record ping_env =
  late :: "client_message list"
  sentAt :: int
  pingWriteErr :: "string option"
  arrived :: "client_message list"
  receivedAt :: int

text \<open>One iteration of the loop in \<open>Run\<close>; \<^const>\<open>None\<close> is the panic of a message that is too small.\<close>

definition ping_round :: "ping_env \<Rightarrow> int \<Rightarrow> ping_test \<times> client \<Rightarrow> (ping_test \<times> client) option" where
  "ping_round env i tc =
     (case tc of (t, cli) \<Rightarrow>
      let t0 = t\<lparr>respChan := respChan t @ late env\<rparr> in
      case ping_message (MessageSize t0) (sentAt env) i (ClientID t0) of
        None \<Rightarrow> None
      | Some pingMsg \<Rightarrow>
          (case Publish (pingWriteErr env) (request_subject (ClientID t0)) pingMsg cli of
             (cli', Some err) \<Rightarrow> Some (t0\<lparr>respChan := respChan t0 @ arrived env\<rparr>, cli')
           | (cli', None) \<Rightarrow>
               (case respChan t0 @ arrived env of
                  [] \<Rightarrow> Some (t0, cli')
                | msg # rest \<Rightarrow>
                    Some (t0\<lparr>Results := Results t0 @ [receivedAt env - sentAt env],
                             ReceivedCount := ReceivedCount t0 + 1, respChan := rest,
                             answers := answers t0 @ [(i, msg)]\<rparr>, cli'))))"

text \<open>The loop, over the environments of its iterations.\<close>

fun ping_loop :: "ping_env list \<Rightarrow> int \<Rightarrow> ping_test \<times> client \<Rightarrow> (ping_test \<times> client) option" where
  "ping_loop [] i tc = Some tc"
| "ping_loop (env # envs) i tc =
     (if i < MessageCount (fst tc) then
        (case ping_round env i tc of
           None \<Rightarrow> None
         | Some tc' \<Rightarrow> ping_loop envs (i + 1) tc')
      else Some tc)"

section \<open>Statistics\<close>

text \<open>The loop for sum, minimum and maximum; the sum wraps at 64 bits.\<close>

fun stats_loop :: "duration list \<Rightarrow> duration \<times> duration \<times> duration \<Rightarrow> duration \<times> duration \<times> duration" where
  "stats_loop [] acc = acc"
| "stats_loop (rtt # rest) (acc, mn, mx) =
     stats_loop rest (wrap64 (acc + rtt), if rtt < mn then rtt else mn, if rtt > mx then rtt else mx)"

text \<open>The two loops of the sort: \<open>i\<close> and \<open>j\<close> are the indices of the exchange.\<close>

function sort_inner :: "nat \<Rightarrow> nat \<Rightarrow> int list \<Rightarrow> int list" where
  "sort_inner i j xs =
     (if j < length xs
      then sort_inner i (j + 1) (if xs ! i > xs ! j then xs[i := xs ! j, j := xs ! i] else xs)
      else xs)"
  by pat_completeness auto
termination
  by (relation "measure (\<lambda>(i, j, xs). length xs - j)") (auto split: if_splits)

declare sort_inner.simps [simp del]

lemma length_sort_inner [simp]: "length (sort_inner i j xs) = length xs"
proof (induction i j xs rule: sort_inner.induct)
  case (1 i j xs)
  then show ?case by (subst sort_inner.simps) (auto split: if_splits)
qed

function sort_outer :: "nat \<Rightarrow> int list \<Rightarrow> int list" where
  "sort_outer i xs = (if i < length xs then sort_outer (i + 1) (sort_inner i (i + 1) xs) else xs)"
  by pat_completeness auto
termination
  by (relation "measure (\<lambda>(i, xs). length xs - i)") auto

declare sort_outer.simps [simp del]

definition percentile :: "nat \<Rightarrow> duration list \<Rightarrow> duration option" where
  "percentile q xs =
     (let i = length xs * q div 100 in if i < length xs then Some (xs ! i) else None)"

text \<open>
  \<open>calculateJitter\<close>: the mean of the absolute differences of successive results, in milliseconds
  rounded down to microseconds (an exact quotient where the code uses floating point).
\<close>

definition Microseconds :: "duration \<Rightarrow> int" where
  "Microseconds d = go_div d 1000"

fun jitter_loop :: "duration list \<Rightarrow> rat \<Rightarrow> rat" where
  "jitter_loop (a # b # rest) acc =
     (let diff = of_int (Microseconds b - Microseconds a) / 1000
      in jitter_loop (b # rest) (acc + (if diff < 0 then - diff else diff)))"
| "jitter_loop _ acc = acc"

definition calculateJitter :: "ping_test \<Rightarrow> rat" where
  "calculateJitter t =
     (if length (Results t) < 2 then 0
      else jitter_loop (Results t) 0 / of_nat (length (Results t) - 1))"

record ping_report =
  rep_min :: duration
  rep_max :: duration
  rep_avg :: duration
  rep_p50 :: duration
  rep_p95 :: duration
  rep_p99 :: duration
  rep_loss :: "rat option"
  rep_jitter :: rat

text \<open>
  \<open>printStats\<close>: no report without results; an index out of range would panic, which is the inner
  \<^const>\<open>None\<close>. The loss rate is an exact quotient, undefined for a message count of zero.
\<close>

definition ping_printStats :: "ping_test \<Rightarrow> ping_report option option" where
  "ping_printStats t =
     (case Results t of
        [] \<Rightarrow> None
      | r0 # _ \<Rightarrow>
          (case stats_loop (Results t) (0, r0, r0) of (acc, mn, mx) \<Rightarrow>
           let avg = go_div acc (int (length (Results t)));
               sorted' = sort_outer 0 (Results t)
           in Some (do {
                p50 \<leftarrow> percentile 50 sorted';
                p95 \<leftarrow> percentile 95 sorted';
                p99 \<leftarrow> percentile 99 sorted';
                Some \<lparr>rep_min = mn, rep_max = mx, rep_avg = avg, rep_p50 = p50, rep_p95 = p95,
                  rep_p99 = p99,
                  rep_loss = (if MessageCount t = 0 then None
                    else Some (of_int (MessageCount t - int (length (Results t))) / of_int (MessageCount t) * 100)),
                  rep_jitter = calculateJitter t\<rparr> })))"

section \<open>The responder\<close>

text \<open>
  The callback of \<open>src/examples/ping_server\<close>: a request is echoed on the response subject built from
  its second segment; the result is what is published, if anything.
\<close>

definition ping_server_callback :: "client_message \<Rightarrow> (string \<times> bytes) option" where
  "ping_server_callback msg =
     (if HasSuffix (MsgSubject msg) ''.request'' then
        let parts = Split (MsgSubject msg) dot in
        if length parts \<ge> 3 then Some (response_subject (parts ! 1), MsgData msg) else None
      else None)"

section \<open>The sort\<close>

lemma mset_swap_if:
  "i < length xs \<Longrightarrow> j < length xs \<Longrightarrow> mset (xs[i := xs ! j, j := xs ! i]) = mset xs"
  by (rule mset_swap)

lemma sort_inner_spec:
  assumes "i < j" and "i < length xs" and "\<And>k. i < k \<Longrightarrow> k < j \<Longrightarrow> k < length xs \<Longrightarrow> xs ! i \<le> xs ! k"
  defines "ys \<equiv> sort_inner i j xs"
  shows "mset ys = mset xs \<and> take i ys = take i xs \<and> (\<forall>k. i < k \<and> k < length xs \<longrightarrow> ys ! i \<le> ys ! k)"
  using assms(1-3) unfolding ys_def
proof (induction i j xs rule: sort_inner.induct)
  case (1 i j xs)
  show ?case
  proof (cases "j < length xs")
    case False
    then have "sort_inner i j xs = xs" by (subst sort_inner.simps) simp
    then show ?thesis using "1.prems" False by auto
  next
    case True
    let ?xs = "if xs ! i > xs ! j then xs[i := xs ! j, j := xs ! i] else xs"
    have m: "mset ?xs = mset xs" and t: "take i ?xs = take i xs" and l: "length ?xs = length xs"
      using "1.prems" True by (simp_all add: mset_swap_if)
    have "?xs ! i \<le> ?xs ! k" if "i < k" "k < j + 1" "k < length ?xs" for k
      using "1.prems" that True by (cases "k = j") (force simp: nth_list_update)+
    from "1.IH" [OF True _ _ this] "1.prems" l have "mset (sort_inner i (j + 1) ?xs) = mset ?xs \<and>
        take i (sort_inner i (j + 1) ?xs) = take i ?xs \<and>
        (\<forall>k. i < k \<and> k < length ?xs \<longrightarrow> sort_inner i (j + 1) ?xs ! i \<le> sort_inner i (j + 1) ?xs ! k)"
      by simp
    then show ?thesis
      unfolding sort_inner.simps [of i j xs] using True m t l by simp
  qed
qed

text \<open>The first \<open>i\<close> elements are in place: each is at most everything behind it.\<close>

definition placed :: "nat \<Rightarrow> int list \<Rightarrow> bool" where
  "placed i xs \<longleftrightarrow> (\<forall>k l. k < i \<and> k < l \<and> l < length xs \<longrightarrow> xs ! k \<le> xs ! l)"

lemma placed_step:
  assumes "placed i xs" and "i < length xs"
  shows "placed (i + 1) (sort_inner i (i + 1) xs) \<and> mset (sort_inner i (i + 1) xs) = mset xs"
proof -
  let ?ys = "sort_inner i (i + 1) xs"
  have sp: "mset ?ys = mset xs" "take i ?ys = take i xs"
    "\<And>k. i < k \<Longrightarrow> k < length xs \<Longrightarrow> ?ys ! i \<le> ?ys ! k"
    using sort_inner_spec [of i "i + 1" xs] assms(2) by auto
  have "mset (drop i ?ys) = mset (drop i xs)"
    using sp(1,2) by (metis add_left_cancel append_take_drop_id mset_append)
  then have d: "set (drop i ?ys) = set (drop i xs)" by (rule mset_eq_setD)
  have "?ys ! k \<le> ?ys ! l" if "k < i" "k < l" "l < length ?ys" for k l
  proof -
    have k: "?ys ! k = xs ! k" using sp(2) that(1) by (metis nth_take)
    show ?thesis
    proof (cases "l < i")
      case True
      then have "?ys ! l = xs ! l" using sp(2) by (metis nth_take)
      then show ?thesis using k assms(1) that by (simp add: placed_def)
    next
      case False
      then have "?ys ! l = drop i ?ys ! (l - i)" using that(3) by simp
      moreover have "l - i < length (drop i ?ys)" using False that(3) by simp
      ultimately have "?ys ! l \<in> set (drop i xs)" using d by (metis nth_mem)
      then obtain n where "i \<le> n" "n < length xs" "?ys ! l = xs ! n"
        by (auto simp: in_set_conv_nth) (metis add.commute le_add2 less_diff_conv)
      then show ?thesis using k assms(1) that(1) by (simp add: placed_def)
    qed
  qed
  then show ?thesis
    using sp(1,3) by (auto simp: placed_def less_Suc_eq)
qed

lemma sort_outer_spec:
  "placed i xs \<Longrightarrow> i \<le> length xs \<Longrightarrow> sorted (sort_outer i xs) \<and> mset (sort_outer i xs) = mset xs"
proof (induction i xs rule: sort_outer.induct)
  case (1 i xs)
  show ?case
  proof (cases "i < length xs")
    case True
    then show ?thesis
      using "1.IH" [OF True] placed_step [OF "1.prems"(1) True] by (simp add: sort_outer.simps [of i xs])
  next
    case False
    then have "i = length xs" using "1.prems" by simp
    then show ?thesis
      using "1.prems" by (subst (1 2) sort_outer.simps) (auto simp: placed_def sorted_iff_nth_mono_less)
  qed
qed

lemma exchange_sort: "sort_outer 0 xs = sort xs"
  using sort_outer_spec [of 0 xs]
    properties_for_sort [of "sort_outer 0 xs" xs] by (simp add: placed_def)

section \<open>The report\<close>

lemma stats_loop_min_max:
  "stats_loop xs (s, mn, mx) = (s', mn', mx') \<Longrightarrow>
   mn' = Min (insert mn (set xs)) \<and> mx' = Max (insert mx (set xs))"
proof (induction xs arbitrary: s mn mx)
  case (Cons x xs)
  have a: "Min (insert mn (insert x (set xs))) = Min (insert (min mn x) (set xs))"
    by (cases "xs = []") (simp_all add: min.assoc)
  have b: "Max (insert mx (insert x (set xs))) = Max (insert (max mx x) (set xs))"
    by (cases "xs = []") (simp_all add: max.assoc)
  have "(if x < mn then x else mn) = min mn x" "(if x > mx then x else mx) = max mx x" by auto
  then show ?case using Cons.IH [of _ "min mn x" "max mx x"] Cons.prems a b by simp
qed simp

lemma stats_loop_sum:
  "(\<And>x. x \<in> set xs \<Longrightarrow> 0 \<le> x) \<Longrightarrow> 0 \<le> s \<Longrightarrow> s + sum_list xs \<le> 9223372036854775807 \<Longrightarrow>
   fst (stats_loop xs (s, mn, mx)) = s + sum_list xs"
proof (induction xs arbitrary: s mn mx)
  case (Cons x xs)
  have "0 \<le> sum_list xs" using Cons.prems(1) by (simp add: sum_list_nonneg)
  then have "wrap64 (s + x) = s + x" using Cons.prems by simp
  then show ?case using Cons.IH [of "s + x"] Cons.prems by (simp add: add.assoc)
qed simp

lemma sum_list_bounds:
  "(\<And>x. x \<in> set xs \<Longrightarrow> a \<le> x \<and> x \<le> b) \<Longrightarrow> int (length xs) * a \<le> sum_list xs \<and> sum_list xs \<le> int (length xs) * b"
proof (induction xs)
  case (Cons x xs)
  then have "int (length xs) * a \<le> sum_list xs \<and> sum_list xs \<le> int (length xs) * b" "a \<le> x \<and> x \<le> b" by simp_all
  then show ?case by (simp add: algebra_simps)
qed simp

lemma percentile_in_range:
  "xs \<noteq> [] \<Longrightarrow> q < 100 \<Longrightarrow> percentile q xs = Some (xs ! (length xs * q div 100)) \<and> length xs * q div 100 < length xs"
proof -
  assume "xs \<noteq> []" and q: "q < 100"
  then have "length xs * q < length xs * 100" by simp
  then have "length xs * q div 100 < length xs" by (simp add: less_mult_imp_div_less)
  then show ?thesis by (simp add: percentile_def)
qed

lemma percentile_mono:
  fixes xs :: "duration list"
  assumes "sorted xs" and "xs \<noteq> []" and "q \<le> q'" and "q' < 100"
  shows "xs ! (length xs * q div 100) \<le> xs ! (length xs * q' div 100)"
proof -
  have "length xs * q div 100 \<le> length xs * q' div 100"
    using assms(3) by (simp add: div_le_mono)
  then show ?thesis
    using assms(1) percentile_in_range [OF assms(2,4)] by (simp add: sorted_nth_mono)
qed

lemma report_eq:
  assumes "Results t \<noteq> []" and "stats_loop (Results t) (0, hd (Results t), hd (Results t)) = (acc, mn, mx)"
    and "percentile 50 (sort_outer 0 (Results t)) = Some p50" and "percentile 95 (sort_outer 0 (Results t)) = Some p95"
    and "percentile 99 (sort_outer 0 (Results t)) = Some p99"
  shows "\<exists>rep. ping_printStats t = Some (Some rep) \<and> rep_min rep = mn \<and> rep_max rep = mx \<and>
    rep_avg rep = go_div acc (int (length (Results t))) \<and> rep_p50 rep = p50 \<and> rep_p95 rep = p95 \<and> rep_p99 rep = p99"
proof -
  obtain r rs where r: "Results t = r # rs" using assms(1) by (cases "Results t") auto
  show ?thesis
    using assms(2-5) unfolding ping_printStats_def r by (simp add: Let_def del: length_Cons)
qed

section \<open>Ping and pong\<close>

lemma copy_at_append:
  "length src \<le> length rest \<Longrightarrow> copy_at (length p) src (p @ rest) = p @ src @ drop (length src) rest"
  by (simp add: copy_at_def)

lemma ping_message_Some:
  assumes "12 \<le> messageSize"
  shows "\<exists>rest. ping_message messageSize now i clientID =
      Some (PutUint64 (word_of_int now) @ PutUint32 (word_of_int i) @ rest) \<and>
    length rest = nat messageSize - 12"
proof -
  define z where "z = (replicate (nat messageSize) 0 :: bytes)"
  have z: "length z = nat messageSize" by (simp add: z_def)
  let ?a = "PutUint64 (word_of_int now)" and ?b = "PutUint32 (word_of_int i)"
  have 1: "copy_at 0 ?a z = ?a @ drop 8 z"
    using copy_at_append [of ?a z "[]"] z assms by simp
  have 2: "copy_at 8 ?b (?a @ drop 8 z) = (?a @ ?b) @ drop 12 z"
    using copy_at_append [of ?b "drop 8 z" ?a] z assms by simp
  have 3: "copy_at 12 (bytes_of clientID) ((?a @ ?b) @ drop 12 z) =
      ?a @ ?b @ take (nat messageSize - 12) (bytes_of clientID) @ drop (length clientID) (drop 12 z)"
    using z by (simp add: copy_at_def add.commute)
  show ?thesis
    using assms z unfolding ping_message_def z_def [symmetric] by (simp add: 1 2 3 [simplified])
qed

lemma request_segments:
  "segments (request_subject t) = ''ping'' # segments t @ [''request'']"
  "segments (response_subject t) = ''ping'' # segments t @ [''response'']"
proof -
  have "request_subject t = ''ping'' @ dot # (t @ dot # ''request'')" by (simp add: request_subject_def)
  then show "segments (request_subject t) = ''ping'' # segments t @ [''request'']"
    by (simp only: Split_append_sep) simp
  have "response_subject t = ''ping'' @ dot # (t @ dot # ''response'')" by (simp add: response_subject_def)
  then show "segments (response_subject t) = ''ping'' # segments t @ [''response'']"
    by (simp only: Split_append_sep) simp
qed

lemma request_suffix: "HasSuffix (request_subject t) ''.request''" "\<not> HasSuffix (response_subject t) ''.request''"
proof -
  show "HasSuffix (request_subject t) ''.request''"
    unfolding request_subject_def HasSuffix_iff by (metis append.assoc)
  have "last (response_subject t) = CHR ''e''" by (simp add: response_subject_def)
  moreover have "last (u @ ''.request'') = CHR ''t''" for u by simp
  ultimately show "\<not> HasSuffix (response_subject t) ''.request''"
    unfolding HasSuffix_iff by force
qed

section \<open>Properties\<close>

text \<open>The statistics of the round-trip program are sound: the nested loops that exchange elements
  compute the sorted list; with at least one result no percentile index is out of range, and the
  printed values are ordered: minimum, 50th, 95th and 99th percentile, maximum. The percentiles are
  results, minimum and maximum are the least and the greatest result, and as long as the sum of
  non-negative results fits into 64 bits the average lies between them.\<close>

lemma ping_report_sound:
  assumes "Results t \<noteq> []"
  shows "\<exists>rep. ping_printStats t = Some (Some rep) \<and> sort_outer 0 (Results t) = sort (Results t) \<and>
    rep_min rep = Min (set (Results t)) \<and> rep_max rep = Max (set (Results t)) \<and>
    rep_min rep \<le> rep_p50 rep \<and> rep_p50 rep \<le> rep_p95 rep \<and> rep_p95 rep \<le> rep_p99 rep \<and>
    rep_p99 rep \<le> rep_max rep \<and> {rep_p50 rep, rep_p95 rep, rep_p99 rep} \<subseteq> set (Results t) \<and>
    ((\<forall>r \<in> set (Results t). 0 \<le> r) \<and> sum_list (Results t) < 2 ^ 63 \<longrightarrow>
       rep_min rep \<le> rep_avg rep \<and> rep_avg rep \<le> rep_max rep)"
proof -
  define xs where "xs = Results t"
  define ys where "ys = sort_outer 0 xs"
  have ys: "ys = sort xs" "ys \<noteq> []" "sorted ys" "set ys = set xs"
    using assms exchange_sort [of xs] by (auto simp: ys_def xs_def) (metis set_empty set_sort)
  obtain acc mn mx where lp: "stats_loop xs (0, hd xs, hd xs) = (acc, mn, mx)"
    by (cases "stats_loop xs (0, hd xs, hd xs)") auto
  have mm: "mn = Min (set xs)" "mx = Max (set xs)"
    using stats_loop_min_max [OF lp] assms by (simp_all add: xs_def insert_absorb)
  let ?p = "\<lambda>q. ys ! (length ys * q div 100)"
  have p: "percentile q ys = Some (?p q)" "?p q \<in> set xs" if "q < 100" for q
    using percentile_in_range [OF ys(2) that] ys(4) nth_mem [of "length ys * q div 100" ys] by auto
  have avg: "mn \<le> go_div acc (int (length xs)) \<and> go_div acc (int (length xs)) \<le> mx"
    if nn: "\<forall>r \<in> set xs. 0 \<le> r" and sm: "sum_list xs < 2 ^ 63"
  proof -
    have acc: "acc = sum_list xs"
      using stats_loop_sum [of xs 0 "hd xs" "hd xs"] nn sm lp by simp
    have n: "0 < int (length xs)" using assms by (simp add: xs_def)
    have b: "int (length xs) * mn \<le> sum_list xs" "sum_list xs \<le> int (length xs) * mx"
      using sum_list_bounds [of xs mn mx] by (simp_all add: mm)
    have "go_div acc (int (length xs)) = sum_list xs div int (length xs)"
      using n nn by (simp add: acc go_div_nonneg sum_list_nonneg)
    then show ?thesis
      using zdiv_mono1 [OF b(1) n] zdiv_mono1 [OF b(2) n] n by simp
  qed
  obtain p50 p95 p99 where ps: "percentile 50 ys = Some p50" "percentile 95 ys = Some p95" "percentile 99 ys = Some p99"
    and eq: "p50 = ?p 50" "p95 = ?p 95" "p99 = ?p 99"
    using p(1) by simp
  obtain rep where rep: "ping_printStats t = Some (Some rep)" "rep_min rep = mn" "rep_max rep = mx"
    "rep_avg rep = go_div acc (int (length xs))" "rep_p50 rep = p50" "rep_p95 rep = p95" "rep_p99 rep = p99"
    using report_eq [of t acc mn mx p50 p95 p99] assms lp ps by (auto simp: xs_def ys_def)
  have in_xs: "p50 \<in> set xs" "p95 \<in> set xs" "p99 \<in> set xs"
    unfolding eq by (rule p(2), simp)+
  moreover have "mn \<le> p50" "p99 \<le> mx"
    using in_xs by (simp_all add: mm)
  moreover have "p50 \<le> p95" "p95 \<le> p99"
    unfolding eq by (rule percentile_mono [OF ys(3,2)], simp, simp)+
  ultimately show ?thesis
    using rep ys(1) mm avg by (auto simp: ys_def xs_def [symmetric])
qed

definition example_ping_test :: ping_test where
  "example_ping_test = \<lparr>ClientID = ''c'', ServerAddr = ''s'', MessageCount = 3, MessageSize = 64,
     Results = [30, 10, 20], ReceivedCount = 3, respChan = [], answers = []\<rparr>"

text \<open>A ping comes back to its sender: with a message size of at least 12, and a client name without
  dots, the ping holds its time stamp and number; its subject matches the pattern of the responder;
  the responder echoes the data unchanged on exactly the subject that the client subscribed to; and
  the response, which the responder receives too, makes it publish nothing.\<close>

lemma ping_pong_round_trip:
  assumes "12 \<le> messageSize" and "dot \<notin> set clientID"
  shows "\<exists>ping. ping_message messageSize now i clientID = Some ping \<and> length ping = nat messageSize \<and>
    Uint64 ping = word_of_int now \<and> Uint32 (drop 8 ping) = word_of_int i \<and>
    Match ''ping.>'' (request_subject clientID) \<and>
    ping_server_callback \<lparr>MsgSubject = request_subject clientID, MsgData = ping\<rparr> =
      Some (response_subject clientID, ping) \<and>
    Match (response_subject clientID) (response_subject clientID) \<and>
    ping_server_callback \<lparr>MsgSubject = response_subject clientID, MsgData = ping\<rparr> = None"
proof -
  obtain rest where p: "ping_message messageSize now i clientID =
      Some (PutUint64 (word_of_int now) @ PutUint32 (word_of_int i) @ rest)" "length rest = nat messageSize - 12"
    using ping_message_Some [OF assms(1)] by blast
  have "segments ''ping.>'' = [''ping'', ''>'']" by code_simp
  then have m: "Match ''ping.>'' (request_subject clientID)"
    by (simp add: Match_iff multi_def request_segments)
  show ?thesis
    using assms p m request_segments [of clientID] request_suffix [of clientID]
    by (auto simp: ping_server_callback_def Split_no_sep Match_iff multi_def seg_fits_def)
qed

text \<open>A late pong is taken for the answer to another ping: after a ping that timed out, if its
  response arrives before the next ping is answered, the next round takes it as its own answer and
  records a round-trip time that belongs to neither ping.\<close>

lemma late_pong_misattributed:
  assumes "ping_round env i (t, cli) = Some (t', cli')" and "respChan t = []" and "late env = []" and "arrived env = []"
    and "pingWriteErr env = None"
    and "ping_round env' (i + 1) (t', cli') = Some (t'', cli'')" and "late env' = [pong]"
    and "Publish (pingWriteErr env') (request_subject (ClientID t))
           (the (ping_message (MessageSize t) (sentAt env') (i + 1) (ClientID t))) cli' = (cli'', None)"
  shows "answers t' = answers t \<and> answers t'' = answers t @ [(i + 1, pong)] \<and>
    Results t'' = Results t @ [receivedAt env' - sentAt env'] \<and> respChan t'' = arrived env'"
proof -
  have t': "t' = t\<lparr>respChan := []\<rparr>"
    using assms(1-4) by (auto simp: ping_round_def Let_def split: option.splits prod.splits)
  show ?thesis
    using assms(6-8) unfolding t' by (auto simp: ping_round_def Let_def split: option.splits prod.splits)
qed

text \<open>A run never panics with a message size of at least 12, makes at most one result per ping, and counts
  exactly its results.\<close>

lemma ping_round_counts:
  assumes "12 \<le> MessageSize t"
  shows "\<exists>t' cli'. ping_round env i (t, cli) = Some (t', cli') \<and> MessageSize t' = MessageSize t \<and>
    MessageCount t' = MessageCount t \<and>
    ReceivedCount t' - ReceivedCount t = int (length (Results t')) - int (length (Results t)) \<and>
    length (Results t') \<le> Suc (length (Results t))"
  using assms
  by (auto simp: ping_round_def ping_message_def Let_def split: prod.splits option.splits list.splits)

lemma ping_loop_counts:
  assumes "12 \<le> MessageSize t"
  shows "\<exists>t' cli'. ping_loop envs i (t, cli) = Some (t', cli') \<and>
    ReceivedCount t' - ReceivedCount t = int (length (Results t')) - int (length (Results t)) \<and>
    length (Results t') \<le> length (Results t) + length envs"
  using assms
proof (induction envs arbitrary: i t cli)
  case (Cons env envs)
  obtain t1 cli1 where r: "ping_round env i (t, cli) = Some (t1, cli1)" "MessageSize t1 = MessageSize t"
    "ReceivedCount t1 - ReceivedCount t = int (length (Results t1)) - int (length (Results t))"
    "length (Results t1) \<le> Suc (length (Results t))"
    using ping_round_counts [OF Cons.prems] by blast
  show ?case
    using Cons.IH [of t1 "i + 1" cli1] Cons.prems r by fastforce
qed simp

lemma ping_run_counts:
  assumes "NewPingPongTest clientID address messageCount messageSize = Some t" and "12 \<le> messageSize"
  shows "\<exists>t' cli'. ping_loop envs 0 (t, cli) = Some (t', cli') \<and>
    ReceivedCount t' = int (length (Results t')) \<and> length (Results t') \<le> length envs"
  using ping_loop_counts [of t envs 0 cli] assms by (auto simp: NewPingPongTest_def split: if_splits)

end
