(* ===== verification/Sample_Programs.thy ===== *)
theory Sample_Programs
  imports Client_API Config
begin

text \<open>
  The small programs of \<open>examples/\<close>: the publisher and the subscriber that the README starts with, the
  H.264 subscriber, the UDP receiver, and the test programs \<open>robustness_test\<close>,
  \<open>comprehensive_test\<close> and \<open>context_usage\<close>. They call the client and print; what is modelled is the
  calls in their order, the loops, and the numbers that are printed. \<open>log.Fatalf\<close> ends a program
  without running its deferred calls.
\<close>

section \<open>Starting\<close>

datatype sample_fatal = BadKey fatal | CannotConnect client_error | CannotSubscribe client_error

text \<open>These programs do not check the length of the key, which \<open>Connect\<close> does.\<close>

definition sample_key :: "environment \<Rightarrow> fatal + bytes" where
  "sample_key env =
     (let keyHex = env ''KCPQ_AES256_KEY_HEX'' in
      if keyHex = '''' then Inl KeyMissing
      else case DecodeString keyHex of
          Inl err \<Rightarrow> Inl (KeyNotHex err)
        | Inr key \<Rightarrow> Inr key)"

definition sample_connect :: "environment \<Rightarrow> (bytes \<Rightarrow> string + 'block) \<Rightarrow> string + unit \<Rightarrow> int \<Rightarrow>
    (ptr \<Rightarrow> subscription) \<Rightarrow> (ptr \<Rightarrow> subscriptionACK) \<Rightarrow> string \<Rightarrow> sample_fatal + client" where
  "sample_connect env NewAESBlockCrypt dialed now subHeap ackHeap address =
     (case sample_key env of
        Inl err \<Rightarrow> Inl (BadKey err)
      | Inr key \<Rightarrow>
          (case Connect NewAESBlockCrypt dialed now subHeap ackHeap address key of
             Inl err \<Rightarrow> Inl (CannotConnect err)
           | Inr cli \<Rightarrow> Inr cli))"

section \<open>The publisher\<close>

text \<open>
  A tick of the loop: the state is \<open>messageCount\<close> and the client, \<open>stamp\<close> the formatted time, and the
  two errors are those of the two writes. When the first publish fails, the second is skipped.
\<close>

definition publisher_tick :: "string \<Rightarrow> string option \<Rightarrow> string option \<Rightarrow> int \<times> client \<Rightarrow> int \<times> client" where
  "publisher_tick stamp err1 err2 st =
     (case st of (messageCount, cli) \<Rightarrow>
        let n = wrap64 (messageCount + 1);
            message = ''Message #'' @ dec_int n @ '' at '' @ stamp
        in case Publish err1 ''test.hello'' (bytes_of message) cli of
             (cli1, Some err) \<Rightarrow> (n, cli1)
           | (cli1, None) \<Rightarrow>
               if n mod 10 = 0
               then (n, fst (Publish err2 ''foo.bar'' (bytes_of (''Foo message #'' @ dec_int n)) cli1))
               else (n, cli1))"

section \<open>The subscriber\<close>

definition subscriber_start :: "environment \<Rightarrow> (bytes \<Rightarrow> string + 'block) \<Rightarrow> string + unit \<Rightarrow> int \<Rightarrow>
    (ptr \<Rightarrow> subscription) \<Rightarrow> (ptr \<Rightarrow> subscriptionACK) \<Rightarrow> (nat \<Rightarrow> nat \<Rightarrow> attempt_env) \<Rightarrow>
    sample_fatal + client \<times> ptr \<times> ptr \<times> ptr" where
  "subscriber_start env NewAESBlockCrypt dialed now subHeap ackHeap envs =
     (case sample_connect env NewAESBlockCrypt dialed now subHeap ackHeap ''localhost:4000'' of
        Inl err \<Rightarrow> Inl err
      | Inr cli \<Rightarrow>
          (case client_Subscribe (envs 0) ''test.hello'' cli of
             (_, Inl err) \<Rightarrow> Inl (CannotSubscribe err)
           | (cli1, Inr testSub) \<Rightarrow>
               (case client_Subscribe (envs 1) ''foo.*'' cli1 of
                  (_, Inl err) \<Rightarrow> Inl (CannotSubscribe err)
                | (cli2, Inr fooSub) \<Rightarrow>
                    (case client_Subscribe (envs 2) ''test.>'' cli2 of
                       (_, Inl err) \<Rightarrow> Inl (CannotSubscribe err)
                     | (cli3, Inr allTestSub) \<Rightarrow> Inr (cli3, testSub, fooSub, allTestSub)))))"

text \<open>The deferred calls on exit, the last one first; \<^const>\<open>None\<close> stands for a panic.\<close>

definition subscriber_stop :: "(nat \<Rightarrow> string option) \<Rightarrow> string option \<Rightarrow> client \<times> ptr \<times> ptr \<times> ptr \<Rightarrow> client option" where
  "subscriber_stop writeErr closeErr st =
     (case st of (cli, testSub, fooSub, allTestSub) \<Rightarrow>
        case Subscription_Unsubscribe (writeErr 0) allTestSub cli of
          None \<Rightarrow> None
        | Some (cli1, _) \<Rightarrow>
            (case Subscription_Unsubscribe (writeErr 1) fooSub cli1 of
               None \<Rightarrow> None
             | Some (cli2, _) \<Rightarrow>
                 (case Subscription_Unsubscribe (writeErr 2) testSub cli2 of
                    None \<Rightarrow> None
                  | Some (cli3, _) \<Rightarrow> Some (fst (client_Close closeErr cli3)))))"

section \<open>Publisher and subscriber together\<close>

text \<open>The messages of a tick, and of a run of the publisher that counts on from \<open>n\<close>.\<close>

definition tick_messages :: "string \<Rightarrow> int \<Rightarrow> message list" where
  "tick_messages stamp n =
     NewMessageCmd CmdPub ''test.hello'' (bytes_of (''Message #'' @ dec_int n @ '' at '' @ stamp)) #
     (if n mod 10 = 0 then [NewMessageCmd CmdPub ''foo.bar'' (bytes_of (''Foo message #'' @ dec_int n))] else [])"

fun run_messages :: "string list \<Rightarrow> int \<Rightarrow> message list" where
  "run_messages [] n = []"
| "run_messages (stamp # stamps) n = tick_messages stamp n @ run_messages stamps (n + 1)"

lemma length_dec: "length (dec n) \<le> Suc n"
proof (induction n rule: dec.induct)
  case (1 n)
  then show ?case by (subst dec.simps) (auto simp: not_less)
qed

lemma length_dec_int: "0 \<le> n \<Longrightarrow> length (dec_int n) \<le> Suc (nat n)"
  using length_dec [of "nat n"] by (simp add: dec_int_def)

lemma Publish_ok:
  assumes "client_conn cli" and "length subject \<le> MaxSubjectLen" and "3 + length subject + length payload \<le> MaxBodyLen"
  shows "Publish None subject payload cli =
    (cli\<lparr>outgoing := outgoing cli @ [Encode (NewMessageCmd CmdPub subject payload)]\<rparr>, None)"
  using assms by (simp add: Publish_def PublishWithContext_def Let_def)

lemma publisher_tick_ok:
  assumes "client_conn cli" and "length stamp \<le> 64" and "0 \<le> n" and "n < 1000000"
  shows "publisher_tick stamp None None (n, cli) =
    (n + 1, cli\<lparr>outgoing := outgoing cli @ map Encode (tick_messages stamp (n + 1))\<rparr>)"
proof -
  have w: "wrap64 (n + 1) = n + 1" using assms(3,4) by (intro wrap64_id) simp_all
  have d: "length (dec_int (n + 1)) \<le> 1000001" using length_dec_int [of "n + 1"] assms(3,4) by simp
  then show ?thesis
    using assms(1,2) by (simp add: publisher_tick_def w Publish_ok max_lens tick_messages_def Let_def)
qed

lemma publisher_run_ok:
  assumes "client_conn cli" and "\<forall>s \<in> set stamps. length s \<le> 64" and "0 \<le> n" and "n + int (length stamps) < 1000000"
  shows "fold (\<lambda>s. publisher_tick s None None) stamps (n, cli) =
    (n + int (length stamps), cli\<lparr>outgoing := outgoing cli @ map Encode (run_messages stamps (n + 1))\<rparr>)"
  using assms
proof (induction stamps arbitrary: n cli)
  case (Cons s ss)
  then show ?case
    using Cons.IH [of "cli\<lparr>outgoing := outgoing cli @ map Encode (tick_messages s (n + 1))\<rparr>" "n + 1"]
    by (simp add: publisher_tick_ok algebra_simps)
qed simp

lemma run_messages_hello:
  "length (filter (\<lambda>m. Subject m = ''test.hello'') (run_messages stamps n)) = length stamps"
  by (induction stamps n rule: run_messages.induct) (simp_all add: tick_messages_def NewMessageCmd_def)

lemma run_messages_foo:
  "length (filter (\<lambda>m. Subject m = ''foo.bar'') (run_messages stamps n)) \<le> length stamps"
  by (induction stamps n rule: run_messages.induct) (simp_all add: tick_messages_def NewMessageCmd_def)

lemma run_messages_valid:
  assumes "\<forall>s \<in> set stamps. length s \<le> 64" and "0 \<le> n" and "n + int (length stamps) \<le> 1000000"
  shows "\<forall>m \<in> set (run_messages stamps n).
    valid_message m \<and> Command m = CmdPub \<and> (Subject m = ''test.hello'' \<or> Subject m = ''foo.bar'')"
  using assms
proof (induction stamps n rule: run_messages.induct)
  case (2 s ss n)
  then have "length (dec_int n) \<le> 1000001" using length_dec_int [of n] by simp
  with 2 show ?case
    by (auto simp: tick_messages_def NewMessageCmd_def valid_message_def body_len_def max_lens)
qed simp

text \<open>Three subscriptions in a row on one client.\<close>

lemma client_Subscribe_working:
  assumes "client_typed c" and "client_conn c" and "client_Subscribe envs t c = (c', Inr p)"
  shows "client_typed c' \<and> client_conn c' \<and> subs c' = subs c @ [p] \<and> active (sub_obj c' p) \<and>
    sub_subject (sub_obj c' p) = t \<and> same_subs c c'"
proof -
  have s: "SubscribeWithOptionsContext (background \<circ> envs) t 100 c = (c', Inr p)"
    using assms(3) by (simp add: client_Subscribe_def SubscribeWithContext_def)
  then have l: "subscribe_loop 0 (background \<circ> envs) t 100 None c = (c', Inr p)"
    by (simp add: SubscribeWithOptionsContext_def split: if_splits)
  have "client_conn c'"
    using core_subscribe_loop [of 0 "background \<circ> envs" t 100 None c] l assms(2) by (simp add: core_def)
  moreover have "client_ok c" using assms(1) by (simp add: client_typed_def)
  from subscribe_loop_outcome [OF this assms(2) l]
  have "subs c' = subs c @ [p] \<and> active (sub_obj c' p) \<and> sub_subject (sub_obj c' p) = t \<and> same_subs c c'"
    by (simp add: subscribed_def)
  ultimately show ?thesis using subscribe_working [OF assms(1,2) s] by simp
qed

lemma subscriber_start_state:
  assumes "subscriber_start env mk dialed now sh ah envs = Inr (c, t, f, a)"
  shows "client_typed c \<and> subs c = [t, f, a] \<and> active (sub_obj c t) \<and> active (sub_obj c f) \<and> active (sub_obj c a) \<and>
    sub_subject (sub_obj c t) = ''test.hello'' \<and> sub_subject (sub_obj c f) = ''foo.*'' \<and>
    sub_subject (sub_obj c a) = ''test.>''"
proof -
  obtain key c0 c1 c2 where 0: "Connect mk dialed now sh ah ''localhost:4000'' key = Inr c0"
    and 1: "client_Subscribe (envs 0) ''test.hello'' c0 = (c1, Inr t)"
    and 2: "client_Subscribe (envs 1) ''foo.*'' c1 = (c2, Inr f)"
    and 3: "client_Subscribe (envs 2) ''test.>'' c2 = (c, Inr a)"
    using assms
    by (auto simp: subscriber_start_def sample_connect_def split: sum.splits prod.splits)
  have i: "client_typed c0" "client_conn c0" "subs c0 = []"
    using 0 connect_typed [of None mk dialed now sh ah "''localhost:4000''" key c0]
      connect_fields(2) [of mk dialed now sh ah "''localhost:4000''" key c0]
    by (auto simp: Connect_def) (auto simp: ConnectWithContext_def split: sum.splits)
  note s1 = client_Subscribe_working [OF i(1,2) 1]
  then have t: "t < next_sub c1" by (simp add: client_typed_def client_ok_def)
  note s2 = client_Subscribe_working [OF s1 [THEN conjunct1] s1 [THEN conjunct2, THEN conjunct1] 2]
  then have tf: "t < next_sub c2" "f < next_sub c2" using s1 i(3) by (simp_all add: client_typed_def client_ok_def)
  note s3 = client_Subscribe_working [OF s2 [THEN conjunct1] s2 [THEN conjunct2, THEN conjunct1] 3]
  have "same_subs c1 c2" "same_subs c2 c" using s2 s3 by simp_all
  then show ?thesis using s1 s2 s3 i(3) t tf by (simp add: same_subs_def)
qed

lemma subscriber_stop_returns:
  assumes "client_typed c" and "t < next_sub c" and "f < next_sub c" and "a < next_sub c"
  shows "\<exists>c'. subscriber_stop writeErr closeErr (c, t, f, a) = Some c'"
proof -
  obtain c1 e1 where 1: "Subscription_Unsubscribe (writeErr 0) a c = Some (c1, e1)" "client_typed c1" "next_sub c1 = next_sub c"
    using unsubscribe_returns [OF assms(1,4)] by blast
  obtain c2 e2 where 2: "Subscription_Unsubscribe (writeErr 1) f c1 = Some (c2, e2)" "client_typed c2" "next_sub c2 = next_sub c"
    using unsubscribe_returns [where w = "writeErr 1", OF 1(2), of f] 1(3) assms(3) by auto
  obtain c3 e3 where 3: "Subscription_Unsubscribe (writeErr 2) t c2 = Some (c3, e3)"
    using unsubscribe_returns [where w = "writeErr 2", OF 2(2), of t] 2(3) assms(2) by auto
  show ?thesis using 2(1) 3 by (simp add: subscriber_stop_def 1(1))
qed

section \<open>Properties\<close>

text \<open>What a server forwards for a PUB.\<close>

definition as_msg :: "message \<Rightarrow> message" where
  "as_msg m = NewMessageCmd CmdMsg (Subject m) (Payload m)"

lemma forwarded_filter:
  "(\<And>m. m \<in> set ms \<Longrightarrow> Q (Subject m) \<longleftrightarrow> R (Subject m)) \<Longrightarrow>
   map as_client_message (filter (\<lambda>m. Command m = CmdMsg \<and> Q (Subject m)) (map as_msg ms)) =
     map as_client_message (filter (\<lambda>m. R (Subject m)) ms)"
  by (induction ms) (auto simp: as_msg_def as_client_message_def NewMessageCmd_def)

text \<open>The two programs of the quick start work together: after any number of ticks of the publisher with
  a working connection (up to the room in the subscriber's queues), the packets written are the
  encodings of valid PUB messages, one on \<open>test.hello\<close> per tick and one on \<open>foo.bar\<close> in every tenth; and a
  subscriber that started without error and receives what a server makes of them has each
  \<open>test.hello\<close> message in the queues of both its subscriptions \<open>test.hello\<close> and \<open>test.>\<close> and each
  \<open>foo.bar\<close> message in that of \<open>foo.*\<close>, in order. Its deferred calls then end without a panic.\<close>

lemma publisher_to_subscriber:
  fixes stamps :: "string list" and later :: int
  assumes "subscriber_start env mk dialed now sh ah envs = Inr (c, t, f, a)" and "client_conn pub"
    and "\<forall>s \<in> set stamps. length s \<le> 64" and "length stamps < 1000000"
    and "\<forall>p \<in> {t, f, a}. length (waiting (sub_obj c p)) + length stamps \<le> chan_cap (msgChan (sub_obj c p))"
  defines "ms \<equiv> run_messages stamps 1"
  defines "c' \<equiv> fold (handleMessage later) (map as_msg ms) c"
  shows "fold (\<lambda>s. publisher_tick s None None) stamps (0, pub) =
      (int (length stamps), pub\<lparr>outgoing := outgoing pub @ map Encode ms\<rparr>) \<and>
    (\<forall>m \<in> set ms. valid_message m \<and> Command m = CmdPub) \<and>
    length (filter (\<lambda>m. Subject m = ''test.hello'') ms) = length stamps \<and>
    waiting (sub_obj c' t) = waiting (sub_obj c t) @ map as_client_message (filter (\<lambda>m. Subject m = ''test.hello'') ms) \<and>
    waiting (sub_obj c' f) = waiting (sub_obj c f) @ map as_client_message (filter (\<lambda>m. Subject m = ''foo.bar'') ms) \<and>
    waiting (sub_obj c' a) = waiting (sub_obj c a) @ map as_client_message (filter (\<lambda>m. Subject m = ''test.hello'') ms) \<and>
    (\<exists>c''. subscriber_stop writeErr closeErr (c', t, f, a) = Some c'')"
proof -
  note start = subscriber_start_state [OF assms(1)]
  have typed: "client_typed c" and ok: "client_ok c" using start by (simp_all add: client_typed_def)
  have val: "\<forall>m \<in> set ms. valid_message m \<and> Command m = CmdPub \<and> (Subject m = ''test.hello'' \<or> Subject m = ''foo.bar'')"
    unfolding ms_def using assms(3,4) by (intro run_messages_valid) simp_all
  have open_sub: "p < next_sub c" "\<not> chan_closed (msgChan (sub_obj c p))" if "p \<in> {t, f, a}" for p
  proof -
    show "p < next_sub c" using that start ok by (auto simp: client_ok_def)
    then show "\<not> chan_closed (msgChan (sub_obj c p))"
      using that start by (auto simp: client_typed_def sub_typed_def)
  qed
  have queue: "waiting (sub_obj c' p) = waiting (sub_obj c p) @ map as_client_message (filter (\<lambda>m. Subject m = s) ms)"
    if "p \<in> {t, f, a}" and "s = ''test.hello'' \<or> s = ''foo.bar''"
      and "\<And>m. m \<in> set ms \<Longrightarrow> matchSubject (sub_subject (sub_obj c p)) (Subject m) \<longleftrightarrow> Subject m = s" for p s
  proof -
    note fw = forwarded_filter [of ms "matchSubject (sub_subject (sub_obj c p))" "\<lambda>x. x = s", OF that(3)]
    have "length (filter (\<lambda>m. Subject m = s) ms) \<le> length stamps"
      using that(2) run_messages_hello [of stamps 1] run_messages_foo [of stamps 1] by (auto simp: ms_def)
    moreover have "length (filter (\<lambda>m. Command m = CmdMsg \<and> matchSubject (sub_subject (sub_obj c p)) (Subject m))
        (map as_msg ms)) = length (filter (\<lambda>m. Subject m = s) ms)"
      using arg_cong [OF fw, of length] by simp
    moreover have "length (waiting (sub_obj c p)) + length stamps \<le> chan_cap (msgChan (sub_obj c p))"
      using assms(5) that(1) by blast
    ultimately have "length (waiting (sub_obj c p)) + length (filter (\<lambda>m. Command m = CmdMsg \<and>
        matchSubject (sub_subject (sub_obj c p)) (Subject m)) (map as_msg ms)) \<le> chan_cap (msgChan (sub_obj c p))"
      by linarith
    moreover have "p \<in> set (subs c)" "active (sub_obj c p)" using that(1) start by auto
    ultimately show ?thesis
      unfolding c'_def using handle_fold_waiting [OF ok _ _ open_sub(2) [OF that(1)]] fw by simp
  qed
  have m: "matchSubject ''test.hello'' ''test.hello''" "\<not> matchSubject ''test.hello'' ''foo.bar''"
    "\<not> matchSubject ''foo.*'' ''test.hello''" "matchSubject ''foo.*'' ''foo.bar''"
    "matchSubject ''test.>'' ''test.hello''" "\<not> matchSubject ''test.>'' ''foo.bar''"
    by code_simp+
  have "waiting (sub_obj c' t) = waiting (sub_obj c t) @ map as_client_message (filter (\<lambda>m. Subject m = ''test.hello'') ms)"
    using val m start by (intro queue) auto
  moreover have "waiting (sub_obj c' f) = waiting (sub_obj c f) @ map as_client_message (filter (\<lambda>m. Subject m = ''foo.bar'') ms)"
    using val m start by (intro queue) auto
  moreover have "waiting (sub_obj c' a) = waiting (sub_obj c a) @ map as_client_message (filter (\<lambda>m. Subject m = ''test.hello'') ms)"
    using val m start by (intro queue) auto
  moreover have "client_typed c'" "next_sub c' = next_sub c"
    unfolding c'_def using handle_fold_typed [OF typed] handle_fold_frame by auto
  then have "\<exists>c''. subscriber_stop writeErr closeErr (c', t, f, a) = Some c''"
    using open_sub(1) by (intro subscriber_stop_returns) auto
  ultimately show ?thesis
    using publisher_run_ok [OF assms(2,3), of 0] assms(4) run_messages_hello [of stamps 1] val by (simp add: ms_def)
qed

text \<open>A subscribe call that is acknowledged at once.\<close>

definition reply_env :: "string \<Rightarrow> attempt_env" where
  "reply_env t = \<lparr>env_ctxErr = None, env_writeErr = None,
     env_incoming = [NewMessageCmd CmdOk (''subscribed to '' @ t) []], env_wait = AckFirst, env_now = 0\<rparr>"

lemma Contains_prefix: "Contains (p @ s) p"
  unfolding Contains_iff by (metis append_Nil)

lemma subscribe_replied:
  assumes "client_conn c" and "pendingSubs c = []" and "length t \<le> MaxSubjectLen"
  shows "\<exists>c'. client_Subscribe (\<lambda>k. reply_env t) t c = (c', Inr (next_sub c)) \<and> client_conn c' \<and> pendingSubs c' = [] \<and>
    next_sub c' = Suc (next_sub c) \<and> sub_obj c' = (sub_obj c)(next_sub c := new_subscription t 100)"
proof -
  have t: "Contains (''subscribed to '' @ t) ''subscribed to ''" "TrimPrefix (''subscribed to '' @ t) ''subscribed to '' = t"
    by (rule Contains_prefix, rule TrimPrefix_append)
  have n: "t \<noteq> ''subscribed to '' @ t" by simp
  have b: "background (reply_env t) = reply_env t" by (simp add: background_def reply_env_def)
  let ?a = "subscribe_attempt 0 (reply_env t) t 100 c"
  have "\<exists>c'. ?a = Return c' (Inr (next_sub c)) \<and> client_conn c' \<and> pendingSubs c' = [] \<and>
    next_sub c' = Suc (next_sub c) \<and> sub_obj c' = (sub_obj c)(next_sub c := new_subscription t 100)"
    using assms(1,2) t n
    by (simp add: subscribe_attempt_eq reply_env_def Let_def registered_def add_pending_def handleMessage_def
        NewMessageCmd_def cmd_defs wait_ack_def confirm_ack_def)
  then show ?thesis
    using assms(3)
    by (auto simp: client_Subscribe_def SubscribeWithContext_def SubscribeWithOptionsContext_def comp_def b
        subscribe_loop.simps [of 0] maxRetries_def)
qed

definition key_env :: environment where
  "key_env var = EncodeToString (replicate 32 0)"

definition quick_envs :: "nat \<Rightarrow> nat \<Rightarrow> attempt_env" where
  "quick_envs i k = reply_env (if i = 0 then ''test.hello'' else if i = 1 then ''foo.*'' else ''test.>'')"

lemma quick_start:
  "\<exists>c. subscriber_start key_env (Inr :: bytes \<Rightarrow> string + bytes) (Inr ()) 0 sh ah quick_envs = Inr (c, 0, 1, 2) \<and>
     sub_obj c 0 = new_subscription ''test.hello'' 100 \<and> sub_obj c 1 = new_subscription ''foo.*'' 100 \<and>
     sub_obj c 2 = new_subscription ''test.>'' 100"
proof -
  have e: "quick_envs 0 = (\<lambda>k. reply_env ''test.hello'')" "quick_envs 1 = (\<lambda>k. reply_env ''foo.*'')"
    "quick_envs 2 = (\<lambda>k. reply_env ''test.>'')"
    by (simp_all add: quick_envs_def fun_eq_iff)
  have "EncodeToString (replicate 32 0) \<noteq> []" using length_EncodeToString [of "replicate 32 0"] by force
  then have k: "sample_key key_env = Inr (replicate 32 0)"
    unfolding sample_key_def key_env_def Let_def Decode_Encode by simp
  obtain c0 where 0: "sample_connect key_env (Inr :: bytes \<Rightarrow> string + bytes) (Inr ()) 0 sh ah ''localhost:4000'' = Inr c0"
    "client_conn c0" "pendingSubs c0 = []" "next_sub c0 = 0"
    by (simp add: sample_connect_def k Connect_def ConnectWithContext_def newAES256BlockCrypt_def)
  obtain c1 where 1: "client_Subscribe (quick_envs 0) ''test.hello'' c0 = (c1, Inr 0)" "client_conn c1"
    "pendingSubs c1 = []" "next_sub c1 = 1" "sub_obj c1 = (sub_obj c0)(0 := new_subscription ''test.hello'' 100)"
    using subscribe_replied [OF 0(2,3), of "''test.hello''"] 0(4) by (auto simp: e max_lens)
  obtain c2 where 2: "client_Subscribe (quick_envs 1) ''foo.*'' c1 = (c2, Inr 1)" "client_conn c2"
    "pendingSubs c2 = []" "next_sub c2 = 2" "sub_obj c2 = (sub_obj c1)(1 := new_subscription ''foo.*'' 100)"
    using subscribe_replied [OF 1(2,3), of "''foo.*''"] 1(4) unfolding e by (auto simp: max_lens numeral_2_eq_2)
  obtain c3 where 3: "client_Subscribe (quick_envs 2) ''test.>'' c2 = (c3, Inr 2)"
    "sub_obj c3 = (sub_obj c2)(2 := new_subscription ''test.>'' 100)"
    using subscribe_replied [OF 2(2,3), of "''test.>''"] 2(4) unfolding e by (auto simp: max_lens)
  have "subscriber_start key_env (Inr :: bytes \<Rightarrow> string + bytes) (Inr ()) 0 sh ah quick_envs = Inr (c3, 0, 1, 2)"
    unfolding subscriber_start_def 0(1) sum.case 1(1) prod.case 2(1) 3(1) by (rule refl)
  then show ?thesis using 1(5) 2(5) 3(2) by auto
qed

end
