(* ===== verification/H264_Relay.thy ===== *)
theory H264_Relay
  imports Client_API Config
begin

text \<open>
  The relay program \<open>src/examples/h264-relay\<close>: it receives datagrams, puts an eight-byte time stamp in
  front of each, and publishes them through the client library. Modelled are its configuration, the
  connection, every round of the receiver, the statistics and the shutdown. The sockets are
  choices of the environment: the result of a read, the error of a write, the time.
\<close>

section \<open>Configuration\<close>

record relay_config_file =
  rf_UDPListen :: string
  rf_KCPQServer :: string
  rf_Subject :: string
  rf_AES256KeyHex :: string
  rf_StatsInterval :: int
  rf_BufferSize :: int
  rf_AutoReconnect :: bool
  rf_ReconnectInterval :: int

record relay_config =
  rc_UDPListenAddr :: string
  rc_KCPServerAddr :: string
  rc_Subject :: string
  rc_AES256KeyHex :: string
  rc_AES256Key :: bytes
  rc_ReconnectDelay :: duration
  rc_StatsInterval :: duration
  rc_BufferSize :: int
  rc_AutoReconnect :: bool
  rc_ReconnectInterval :: duration

definition relay_LoadConfig :: "(string \<Rightarrow> string + bytes) \<Rightarrow> (bytes \<Rightarrow> string + relay_config_file) \<Rightarrow>
    string \<Rightarrow> fatal + relay_config_file" where
  "relay_LoadConfig ReadFile Unmarshal path =
     (case read_config ReadFile Unmarshal path of
        Inl err \<Rightarrow> Inl err
      | Inr cfg \<Rightarrow>
          let cfg1 = (if rf_StatsInterval cfg = 0 then cfg\<lparr>rf_StatsInterval := 10\<rparr> else cfg);
              cfg2 = (if rf_BufferSize cfg1 = 0 then cfg1\<lparr>rf_BufferSize := 10 * 1024 * 1024\<rparr> else cfg1);
              cfg3 = (if rf_ReconnectInterval cfg2 = 0 then cfg2\<lparr>rf_ReconnectInterval := 5\<rparr> else cfg2)
          in Inr cfg3)"

definition ToRelayConfig :: "relay_config_file \<Rightarrow> relay_config" where
  "ToRelayConfig c =
     \<lparr>rc_UDPListenAddr = rf_UDPListen c, rc_KCPServerAddr = rf_KCPQServer c, rc_Subject = rf_Subject c,
      rc_AES256KeyHex = rf_AES256KeyHex c, rc_AES256Key = [], rc_ReconnectDelay = seconds 3,
      rc_StatsInterval = seconds (rf_StatsInterval c), rc_BufferSize = rf_BufferSize c,
      rc_AutoReconnect = rf_AutoReconnect c, rc_ReconnectInterval = seconds (rf_ReconnectInterval c)\<rparr>"

text \<open>The built-in settings, and the part of \<open>main\<close> that ends with the decoded key.\<close>

definition relay_defaults :: relay_config where
  "relay_defaults =
     \<lparr>rc_UDPListenAddr = '':22345'', rc_KCPServerAddr = ''208.81.129.186:4000'', rc_Subject = ''h264.stream'',
      rc_AES256KeyHex = '''', rc_AES256Key = [], rc_ReconnectDelay = seconds 3, rc_StatsInterval = seconds 10,
      rc_BufferSize = 10 * 1024 * 1024, rc_AutoReconnect = True, rc_ReconnectInterval = seconds 5\<rparr>"

definition relay_settings :: "(string \<Rightarrow> string + bytes) \<Rightarrow> (bytes \<Rightarrow> string + relay_config_file) \<Rightarrow>
    string \<Rightarrow> bool \<Rightarrow> environment \<Rightarrow> fatal + relay_config" where
  "relay_settings ReadFile Unmarshal flagPath statOk env =
     (let cfgPath = config_path flagPath statOk
      in case (if cfgPath \<noteq> '''' then
                 case relay_LoadConfig ReadFile Unmarshal cfgPath of
                   Inl err \<Rightarrow> Inl err
                 | Inr cfgFile \<Rightarrow> Inr (ToRelayConfig cfgFile)
               else Inr relay_defaults) of
           Inl err \<Rightarrow> Inl err
         | Inr config \<Rightarrow>
             let c1 = config\<lparr>rc_KCPServerAddr := override env ''KCPQ_SERVER'' (rc_KCPServerAddr config)\<rparr>;
                 c2 = c1\<lparr>rc_Subject := override env ''KCPQ_SUBJECT'' (rc_Subject c1)\<rparr>;
                 c3 = c2\<lparr>rc_UDPListenAddr := override env ''UDP_LISTEN'' (rc_UDPListenAddr c2)\<rparr>;
                 c4 = c3\<lparr>rc_AES256KeyHex := override env ''KCPQ_AES256_KEY_HEX'' (rc_AES256KeyHex c3)\<rparr>
             in (case load_key (rc_AES256KeyHex c4) of
                   Inl err \<Rightarrow> Inl err
                 | Inr key \<Rightarrow> Inr (c4\<lparr>rc_AES256Key := key\<rparr>)))"

section \<open>State and start\<close>

record relay_stats =
  r_TotalFrames :: "64 word"
  r_TotalBytes :: "64 word"
  r_ErrorCount :: "64 word"
  r_StartTime :: int
  r_LastUpdateTime :: int

text \<open>The struct; \<open>recentErrors\<close>, \<open>errorMu\<close> and \<open>maxErrors\<close> are never used and left out.\<close>

record relay =
  r_config :: relay_config
  r_stats :: relay_stats
  r_kcpClient :: "client option"
  r_ctx_done :: bool
  r_initialized :: bool

definition NewH264Relay :: "int \<Rightarrow> relay_config \<Rightarrow> relay" where
  "NewH264Relay now config =
     \<lparr>r_config = config,
      r_stats = \<lparr>r_TotalFrames = 0, r_TotalBytes = 0, r_ErrorCount = 0, r_StartTime = now, r_LastUpdateTime = now\<rparr>,
      r_kcpClient = None, r_ctx_done = False, r_initialized = False\<rparr>"

datatype relay_error = RelayKeyLength nat | RelayConnect client_error

definition relay_connectToKCPQ :: "(bytes \<Rightarrow> string + 'block) \<Rightarrow> string + unit \<Rightarrow> int \<Rightarrow>
    (ptr \<Rightarrow> subscription) \<Rightarrow> (ptr \<Rightarrow> subscriptionACK) \<Rightarrow> relay \<Rightarrow> relay \<times> relay_error option" where
  "relay_connectToKCPQ NewAESBlockCrypt dialed now subHeap ackHeap r =
     (let cfg = r_config r in
      if length (rc_AES256Key cfg) \<noteq> 32 then (r, Some (RelayKeyLength (length (rc_AES256Key cfg))))
      else case ConnectWithContext (ctx_err (r_ctx_done r)) NewAESBlockCrypt dialed now subHeap ackHeap
               (rc_KCPServerAddr cfg) (rc_AES256Key cfg) of
          Inl err \<Rightarrow> (r, Some (RelayConnect err))
        | Inr cli \<Rightarrow>
            let r1 = r\<lparr>r_kcpClient := Some cli, r_initialized := True\<rparr>
            in if rc_AutoReconnect cfg then
                 let interval = (if rc_ReconnectInterval cfg = 0 then seconds 5 else rc_ReconnectInterval cfg)
                 in (r1\<lparr>r_kcpClient := Some (EnableAutoReconnect interval cli)\<rparr>, None)
               else (r1, None))"

text \<open>
  \<open>Start\<close>: on success the goroutines of \<open>statsPrinter\<close> and \<open>UDPReceiver\<close> run. The first thing the
  former does is to create its ticker (\<open>relay_statsPrinter\<close>), which panics for an interval that
  is not positive.
\<close>

definition relay_Start :: "(bytes \<Rightarrow> string + 'block) \<Rightarrow> string + unit \<Rightarrow> int \<Rightarrow>
    (ptr \<Rightarrow> subscription) \<Rightarrow> (ptr \<Rightarrow> subscriptionACK) \<Rightarrow> relay \<Rightarrow> relay \<times> relay_error option" where
  "relay_Start NewAESBlockCrypt dialed now subHeap ackHeap r =
     relay_connectToKCPQ NewAESBlockCrypt dialed now subHeap ackHeap r"

definition relay_statsPrinter :: "relay \<Rightarrow> int option" where
  "relay_statsPrinter r = NewTicker (rc_StatsInterval (r_config r))"

section \<open>Receiving and publishing\<close>

definition count_error :: "relay \<Rightarrow> relay" where
  "count_error r = r\<lparr>r_stats := (r_stats r)\<lparr>r_ErrorCount := r_ErrorCount (r_stats r) + 1\<rparr>\<rparr>"

definition publishToKCPQ :: "string option \<Rightarrow> bytes \<Rightarrow> nat \<Rightarrow> relay \<Rightarrow> relay" where
  "publishToKCPQ writeErr payload frameSize r =
     (case (r_initialized r, r_kcpClient r) of
        (True, Some cli) \<Rightarrow>
          (case PublishWithContext (ctx_err (r_ctx_done r)) writeErr (rc_Subject (r_config r)) payload cli of
             (cli', Some err) \<Rightarrow> count_error (r\<lparr>r_kcpClient := Some cli'\<rparr>)
           | (cli', None) \<Rightarrow>
               r\<lparr>r_kcpClient := Some cli',
                 r_stats := (r_stats r)\<lparr>r_TotalFrames := r_TotalFrames (r_stats r) + 1,
                   r_TotalBytes := r_TotalBytes (r_stats r) + of_nat frameSize\<rparr>\<rparr>)
      | _ \<Rightarrow> count_error r)"

text \<open>What a read of the socket gives; a datagram longer than the buffer is cut.\<close>

datatype udp_read = UdpData bytes | UdpTimeout | UdpError string

definition udp_buffer :: nat where
  "udp_buffer = 65536"

text \<open>
  One round of the loop of \<open>UDPReceiver\<close>; the flag says whether it goes on. The time stamp is the
  time in nanoseconds, converted to an unsigned 64-bit value.
\<close>

definition UDPReceiver_body :: "udp_read \<Rightarrow> int \<Rightarrow> string option \<Rightarrow> relay \<Rightarrow> relay \<times> bool" where
  "UDPReceiver_body res now writeErr r =
     (if r_ctx_done r then (r, False)
      else case res of
          UdpTimeout \<Rightarrow> (r, True)
        | UdpError err \<Rightarrow> (count_error r, True)
        | UdpData datagram \<Rightarrow>
            let payload = take udp_buffer datagram;
                timestampBytes = PutUint64 (word_of_int now);
                message = timestampBytes @ payload
            in (publishToKCPQ writeErr message (length payload) r, True))"

section \<open>Statistics and shutdown\<close>

definition relay_printStats :: "int \<Rightarrow> relay \<Rightarrow> (rates \<times> client_stats option) option" where
  "relay_printStats now r =
     (let st = r_stats r in
      case stats_rates (r_TotalFrames st) (r_TotalBytes st) (r_ErrorCount st) (now - r_StartTime st) of
        None \<Rightarrow> None
      | Some rt \<Rightarrow> Some (rt, map_option (client_GetStats now) (r_kcpClient r)))"

text \<open>The client's context is a child of the relay's: cancelling the latter cancels the former.\<close>

definition relay_Stop :: "string option \<Rightarrow> relay \<Rightarrow> relay" where
  "relay_Stop closeErr r =
     (let r1 = r\<lparr>r_ctx_done := True\<rparr>
      in case r_kcpClient r1 of
           None \<Rightarrow> r1
         | Some cli \<Rightarrow> r1\<lparr>r_kcpClient := Some (fst (client_Close closeErr (cli\<lparr>ctx_done := True\<rparr>)))\<rparr>)"

section \<open>Lemmas\<close>

text \<open>A relay in operation: connected, and its subject within the protocol's limit.\<close>

definition relay_up :: "relay \<Rightarrow> client \<Rightarrow> bool" where
  "relay_up r cli \<longleftrightarrow> \<not> r_ctx_done r \<and> r_initialized r \<and> r_kcpClient r = Some cli \<and> client_conn cli \<and>
     length (rc_Subject (r_config r)) \<le> MaxSubjectLen"

definition relay_message :: "int \<Rightarrow> bytes \<Rightarrow> relay \<Rightarrow> message" where
  "relay_message now datagram r =
     NewMessageCmd CmdPub (rc_Subject (r_config r)) (PutUint64 (word_of_int now) @ take udp_buffer datagram)"

text \<open>The largest datagram with its time stamp stays far below the protocol's limit.\<close>

lemma relay_message_valid:
  "length (rc_Subject (r_config r)) \<le> MaxSubjectLen \<Longrightarrow> valid_message (relay_message now datagram r)"
  by (simp add: relay_message_def valid_message_def NewMessageCmd_def body_len_def max_lens udp_buffer_def)

lemma receive_published:
  fixes now :: int and datagram :: bytes
  assumes "relay_up r cli"
  defines "packet \<equiv> Encode (relay_message now datagram r)"
  shows "UDPReceiver_body (UdpData datagram) now None r =
    (r\<lparr>r_kcpClient := Some (cli\<lparr>outgoing := outgoing cli @ [packet]\<rparr>),
       r_stats := (r_stats r)\<lparr>r_TotalFrames := r_TotalFrames (r_stats r) + 1,
         r_TotalBytes := r_TotalBytes (r_stats r) + of_nat (length (take udp_buffer datagram))\<rparr>\<rparr>, True)"
proof -
  have "PublishWithContext None None (rc_Subject (r_config r))
      (PutUint64 (word_of_int now) @ take udp_buffer datagram) cli =
      (cli\<lparr>outgoing := outgoing cli @ [packet]\<rparr>, None)"
    using assms(1) by (auto simp: PublishWithContext_def relay_up_def packet_def relay_message_def max_lens
        udp_buffer_def Let_def)
  then show ?thesis
    using assms(1) by (simp add: UDPReceiver_body_def publishToKCPQ_def relay_up_def Let_def del: length_take)
qed

text \<open>The receiver at work: a list of rounds, each with its read, its time and its write error.\<close>

type_synonym relay_round = "udp_read \<times> int \<times> string option"

definition relay_round :: "relay_round \<Rightarrow> relay \<Rightarrow> relay" where
  "relay_round e r = (case e of (res, now, writeErr) \<Rightarrow> fst (UDPReceiver_body res now writeErr r))"

text \<open>The rounds that count: all but the timeouts.\<close>

definition counted :: "relay_round list \<Rightarrow> nat" where
  "counted es = length (filter (\<lambda>(res, _). res \<noteq> UdpTimeout) es)"

definition relay_sent :: "relay \<Rightarrow> nat" where
  "relay_sent r = (case r_kcpClient r of None \<Rightarrow> 0 | Some cli \<Rightarrow> length (outgoing cli))"

lemma Publish_outgoing:
  "PublishWithContext x w t b cli = (cli', res) \<Longrightarrow>
   length (outgoing cli') = length (outgoing cli) + (if res = None then 1 else 0)"
  by (auto simp: PublishWithContext_def Let_def split: option.splits if_splits)

lemma relay_round_accounts:
  fixes e :: relay_round
  assumes "\<not> r_ctx_done r"
  defines "r' \<equiv> relay_round e r"
  shows "\<not> r_ctx_done r' \<and> r_config r' = r_config r \<and>
    r_TotalFrames (r_stats r') + r_ErrorCount (r_stats r') =
      r_TotalFrames (r_stats r) + r_ErrorCount (r_stats r) + of_nat (counted [e]) \<and>
    r_TotalFrames (r_stats r') - of_nat (relay_sent r') = r_TotalFrames (r_stats r) - of_nat (relay_sent r)"
proof -
  obtain res now w where e: "e = (res, now, w)" by (cases e) auto
  show ?thesis
  proof (cases res)
    case (UdpData datagram)
    then show ?thesis
      using assms(1) unfolding e r'_def
      by (auto simp: relay_round_def UDPReceiver_body_def publishToKCPQ_def count_error_def relay_sent_def
          counted_def Let_def dest!: Publish_outgoing split: option.splits prod.splits bool.splits)
  qed (use assms(1) in \<open>simp_all add: e r'_def relay_round_def UDPReceiver_body_def count_error_def relay_sent_def counted_def\<close>)
qed

lemma counted_Cons: "counted (e # es) = counted [e] + counted es"
  by (simp add: counted_def)

lemma diff_swap: "a - c = b - d \<Longrightarrow> a - b = c - (d :: 64 word)"
  by (simp add: algebra_simps)

lemma relay_run_accounts:
  fixes es :: "relay_round list"
  assumes "\<not> r_ctx_done r"
  defines "r' \<equiv> fold relay_round es r"
  shows "r_TotalFrames (r_stats r') + r_ErrorCount (r_stats r') =
      r_TotalFrames (r_stats r) + r_ErrorCount (r_stats r) + of_nat (counted es) \<and>
    r_TotalFrames (r_stats r') - of_nat (relay_sent r') = r_TotalFrames (r_stats r) - of_nat (relay_sent r)"
  using assms(1) unfolding r'_def
proof (induction es arbitrary: r)
  case Nil
  then show ?case by (simp add: counted_def)
next
  case (Cons e es)
  note a = relay_round_accounts [OF Cons.prems, of e]
  then show ?case
    using Cons.IH [of "relay_round e r"] by (simp add: counted_Cons [of e es])
qed

section \<open>Properties\<close>

text \<open>A datagram that the relay receives becomes one message that a server can read: with the client
  connected and a subject within the limit, a round of the receiver writes exactly one packet; the
  server parses it back as a PUB on the configured subject whose payload is the time stamp in its
  first eight bytes followed by the datagram (cut to the 64 KiB of the buffer); the frame and its
  bytes are counted, and no error is.\<close>

lemma relay_frame_round_trip:
  fixes now :: int and datagram :: bytes
  assumes "relay_up r cli"
  defines "r' \<equiv> fst (UDPReceiver_body (UdpData datagram) now None r)"
  shows "\<exists>cli' packet payload.
    r_kcpClient r' = Some cli' \<and> outgoing cli' = outgoing cli @ [packet] \<and>
    ParseFromReader \<lparr>avail = packet @ rest, ending = e\<rparr> =
      (Inr (NewMessageCmd CmdPub (rc_Subject (r_config r)) payload), \<lparr>avail = rest, ending = e\<rparr>) \<and>
    Uint64 payload = word_of_int now \<and> drop 8 payload = take udp_buffer datagram \<and>
    r_TotalFrames (r_stats r') = r_TotalFrames (r_stats r) + 1 \<and>
    r_TotalBytes (r_stats r') = r_TotalBytes (r_stats r) + of_nat (min (length datagram) udp_buffer) \<and>
    r_ErrorCount (r_stats r') = r_ErrorCount (r_stats r)"
proof -
  have v: "valid_message (relay_message now datagram r)"
    using assms(1) by (intro relay_message_valid) (simp add: relay_up_def)
  show ?thesis
    unfolding r'_def receive_published [OF assms(1), of datagram now]
    using ParseFromReader_encode [OF v, of "\<lparr>avail = Encode (relay_message now datagram r) @ rest, ending = e\<rparr>" rest]
    by (auto simp: relay_message_def)
qed

definition example_relay :: relay where
  "example_relay = (NewH264Relay 0 relay_defaults)\<lparr>r_kcpClient := Some example_client, r_initialized := True\<rparr>"

lemma example_relay_up: "relay_up example_relay example_client"
  by (simp add: relay_up_def example_relay_def NewH264Relay_def relay_defaults_def example_client_fields max_lens)

text \<open>What the relay's client keeps through the rounds: it stays connected and is not closed.\<close>

definition relay_open :: "relay \<Rightarrow> bool" where
  "relay_open r \<longleftrightarrow> (\<exists>cli. r_kcpClient r = Some cli \<and> client_conn cli \<and> \<not> c_closeOnce cli)"

lemma publish_open:
  "PublishWithContext x w t b cli = (cli', res) \<Longrightarrow> client_conn cli' = client_conn cli \<and> c_closeOnce cli' = c_closeOnce cli"
  by (auto simp: PublishWithContext_def triggerConnectionLost_def reconnect_def Let_def split: option.splits if_splits)

lemma relay_round_open: "relay_open r \<Longrightarrow> relay_open (relay_round e r)"
  by (auto simp: relay_open_def relay_round_def UDPReceiver_body_def publishToKCPQ_def count_error_def Let_def
      split: prod.splits udp_read.splits option.splits bool.splits dest!: publish_open)

lemma relay_rounds_open: "relay_open r \<Longrightarrow> relay_open (fold relay_round es r)"
  by (induction es arbitrary: r) (simp_all add: relay_round_open)

lemma connect_open:
  "ConnectWithContext x mk dialed now sh ah address key = Inr cli \<Longrightarrow>
   client_conn cli \<and> \<not> c_closeOnce cli \<and> outgoing cli = []"
  by (auto simp: ConnectWithContext_def split: option.splits sum.splits)

lemma relay_Start_state:
  assumes "relay_Start mk dialed now sh ah (NewH264Relay t0 cfg) = (r, None)"
  shows "length (rc_AES256Key cfg) = 32 \<and> relay_open r \<and> relay_sent r = 0 \<and> \<not> r_ctx_done r \<and> r_initialized r \<and>
    r_config r = cfg \<and> r_stats r = r_stats (NewH264Relay t0 cfg)"
  using assms
  by (auto simp: relay_Start_def relay_connectToKCPQ_def NewH264Relay_def relay_open_def relay_sent_def
      EnableAutoReconnect_def Let_def split: if_splits sum.splits dest!: connect_open)

text \<open>From start to stop the relay accounts for every datagram: after a successful \<open>Start\<close>, which needs
  a key of 32 bytes, and any rounds of the receiver, whatever was read and whether the writes
  failed, the frames counted are the packets written to the connection, and frames and errors
  together are the rounds that were not timeouts (modulo \<open>2 ^ 64\<close>). \<open>Stop\<close> keeps the counters, closes
  the client with its connection, and makes the next round of the receiver end its loop.\<close>

lemma relay_start_to_stop:
  fixes es :: "relay_round list" and closeErr :: "string option"
  assumes "relay_Start mk dialed now sh ah (NewH264Relay t0 cfg) = (r, None)"
  defines "r' \<equiv> fold relay_round es r"
  defines "s \<equiv> relay_Stop closeErr r'"
  shows "length (rc_AES256Key cfg) = 32 \<and>
    r_TotalFrames (r_stats r') = of_nat (relay_sent r') \<and>
    r_TotalFrames (r_stats r') + r_ErrorCount (r_stats r') = of_nat (counted es) \<and>
    r_stats s = r_stats r' \<and> UDPReceiver_body res t writeErr s = (s, False) \<and>
    (\<exists>cli. r_kcpClient s = Some cli \<and> client_conn_closed cli \<and> c_done cli \<and> ctx_done cli \<and> subs cli = [])"
proof -
  note start = relay_Start_state [OF assms(1)]
  have zero: "r_TotalFrames (r_stats r) = 0" "r_ErrorCount (r_stats r) = 0"
    using start by (simp_all add: NewH264Relay_def)
  have nd: "\<not> r_ctx_done r" and sent: "relay_sent r = 0" using start by simp_all
  have run: "r_TotalFrames (r_stats r') + r_ErrorCount (r_stats r') = of_nat (counted es)"
    "r_TotalFrames (r_stats r') - of_nat (relay_sent r') = 0"
    using relay_run_accounts [OF nd, of es] unfolding r'_def zero sent by (simp_all only: add_0 semiring_1_class.of_nat_0 diff_self)
  from start have "relay_open r'" unfolding r'_def by (intro relay_rounds_open) simp
  then obtain cli where cli: "r_kcpClient r' = Some cli" "client_conn cli" "\<not> c_closeOnce cli"
    by (auto simp: relay_open_def)
  have "r_stats s = r_stats r' \<and> r_ctx_done s \<and> r_kcpClient s = Some (fst (client_Close closeErr (cli\<lparr>ctx_done := True\<rparr>)))"
    by (simp add: s_def relay_Stop_def cli)
  then show ?thesis
    using run(1) run(2) [unfolded right_minus_eq] start close_releases [of "cli\<lparr>ctx_done := True\<rparr>" closeErr] cli
    by (simp add: UDPReceiver_body_def)
qed

lemma counted_three: "counted [(UdpData [1], 5, None), (UdpTimeout, 6, None), (UdpError ''x'', 7, None)] = 2"
  by (simp add: counted_def)

lemma example_relay_start:
  "\<exists>r. relay_Start (Inr :: bytes \<Rightarrow> string + bytes) (Inr ()) 0 sh ah
     (NewH264Relay 0 (relay_defaults\<lparr>rc_AES256Key := replicate 32 0\<rparr>)) = (r, None)"
  by (simp add: relay_Start_def relay_connectToKCPQ_def NewH264Relay_def ctx_err_def ConnectWithContext_def
      newAES256BlockCrypt_def Let_def)

text \<open>The statistics interval of a configuration file is used as it is: between 1 and 9223372036
  seconds the relay's ticker runs with exactly that interval and 0 stands for 10 seconds, but a
  negative interval, and one of 9223372037 seconds, which overflows, makes the goroutine of
  \<open>statsPrinter\<close> panic, which ends the program.\<close>

lemma relay_stats_interval_bounds:
  fixes cfgFile :: relay_config_file
  assumes "relay_settings ReadFile Unmarshal flagPath statOk env = Inr cfg"
    and "config_path flagPath statOk \<noteq> ''''"
    and "ReadFile (config_path flagPath statOk) = Inr content" and "Unmarshal content = Inr cfgFile"
  defines "n \<equiv> rf_StatsInterval cfgFile"
  shows "(0 \<le> n \<and> n \<le> 9223372036 \<longrightarrow> relay_statsPrinter (NewH264Relay now cfg) =
      Some ((if n = 0 then 10 else n) * 1000000000)) \<and>
    (- 9223372036 \<le> n \<and> n < 0 \<or> n = 9223372037 \<longrightarrow> relay_statsPrinter (NewH264Relay now cfg) = None)"
proof -
  have cfg: "rc_StatsInterval cfg = seconds (if n = 0 then 10 else n)"
    using assms(1-4) by (auto simp: relay_settings_def relay_LoadConfig_def read_config_def ToRelayConfig_def
        n_def Let_def split: sum.splits)
  have over: "seconds 9223372037 \<le> 0" by (simp add: seconds_def wrap64_def)
  show ?thesis
    using seconds_pos [of n] seconds_neg [of n] over
    by (auto simp: relay_statsPrinter_def NewH264Relay_def cfg NewTicker_def)
qed

text \<open>With settings from \<open>main\<close> the relay's own check of the key length never fails: \<open>Start\<close> can only fail in
  the client.\<close>

lemma relay_start_key_checked:
  assumes "relay_settings ReadFile Unmarshal flagPath statOk env = Inr cfg"
  shows "snd (relay_Start mk dialed now sh ah (NewH264Relay t0 cfg)) \<noteq> Some (RelayKeyLength n)"
proof -
  have "length (rc_AES256Key cfg) = 32"
    using assms by (auto simp: relay_settings_def load_key_Inr Let_def split: sum.splits)
  then show ?thesis
    by (auto simp: relay_Start_def relay_connectToKCPQ_def NewH264Relay_def Let_def split: sum.splits)
qed

end
