(* ===== verification/Stream_Monitors.thy ===== *)
theory Stream_Monitors
  imports Sample_Programs H264_Relay
begin

text \<open>
  Programs that watch a stream: the subscriber of the H.264 stream (\<open>examples/h264_subscriber\<close>), the
  receiver that counts UDP datagrams (\<open>examples/test-udp-receiver\<close>), and the long-running
  \<open>examples/robustness_test\<close>, which publishes to itself and compares resources. The \<open>int\<close> counters wrap at
  64 bits; rates are exact quotients where the code computes in floating point.
\<close>

section \<open>The H.264 subscriber\<close>

record frame_totals =
  frameCount :: int
  frameBytes :: int

text \<open>What the \<open>select\<close> of the loop takes, and what a round prints.\<close>

datatype h264_select = StatsTick int | FromChannel client_message | ChannelClosed

datatype h264_line =
    StatsLine int "rat option" rat "rat option"
  | FrameLine int nat string

definition h264_stats :: "int \<Rightarrow> int \<Rightarrow> frame_totals \<Rightarrow> h264_line" where
  "h264_stats startTime now st =
     (let elapsed = of_int (now - startTime) / 1000000000 :: rat;
          rate = (\<lambda>x. if elapsed = 0 then None else Some (x / elapsed))
      in StatsLine (frameCount st) (rate (of_int (frameCount st))) (of_int (frameBytes st) / 1024 / 1024)
           (map_option (\<lambda>r. r / 1000000) (rate (of_int (frameBytes st) * 8))))"

definition h264_round :: "int \<Rightarrow> h264_select \<Rightarrow> frame_totals \<Rightarrow> frame_totals \<times> h264_line option \<times> bool" where
  "h264_round startTime sel st =
     (case sel of
        StatsTick now \<Rightarrow> (st, Some (h264_stats startTime now st), True)
      | ChannelClosed \<Rightarrow> (st, None, False)
      | FromChannel msg \<Rightarrow>
          let n = wrap64 (frameCount st + 1);
              st' = st\<lparr>frameCount := n, frameBytes := wrap64 (frameBytes st + int (length (MsgData msg)))\<rparr>
          in (st', if n mod 100 = 1 then Some (FrameLine n (length (MsgData msg)) (MsgSubject msg)) else None, True))"

fun h264_loop :: "int \<Rightarrow> h264_select list \<Rightarrow> frame_totals \<Rightarrow> frame_totals \<times> h264_line list" where
  "h264_loop startTime [] st = (st, [])"
| "h264_loop startTime (sel # sels) st =
     (case h264_round startTime sel st of (st', out, goOn) \<Rightarrow>
        let lines = (case out of None \<Rightarrow> [] | Some l \<Rightarrow> [l])
        in if goOn then (case h264_loop startTime sels st' of (st2, ls) \<Rightarrow> (st2, lines @ ls)) else (st', lines))"

definition h264_start :: frame_totals where
  "h264_start = \<lparr>frameCount = 0, frameBytes = 0\<rparr>"

section \<open>The UDP receiver\<close>

record udp_totals =
  totalPackets :: int
  totalBytes :: int
  packetCount :: int

definition udp_receiver_buffer :: nat where
  "udp_receiver_buffer = 65535"

text \<open>One round: the new counters, whether the packet is shown, and whether the loop goes on.\<close>

definition udp_round :: "udp_read \<Rightarrow> udp_totals \<Rightarrow> udp_totals \<times> bool \<times> bool" where
  "udp_round res st =
     (case res of
        UdpTimeout \<Rightarrow> (st, False, True)
      | UdpError err \<Rightarrow> (st, False, False)
      | UdpData datagram \<Rightarrow>
          let n = length (take udp_receiver_buffer datagram);
              st' = st\<lparr>packetCount := wrap64 (packetCount st + 1), totalPackets := wrap64 (totalPackets st + 1),
                       totalBytes := wrap64 (totalBytes st + int n)\<rparr>
          in (st', packetCount st' \<le> 10 \<or> packetCount st' mod 100 = 0, True))"

fun udp_loop :: "udp_read list \<Rightarrow> udp_totals \<Rightarrow> udp_totals \<times> int list" where
  "udp_loop [] st = (st, [])"
| "udp_loop (res # rs) st =
     (case udp_round res st of (st', shown, goOn) \<Rightarrow>
        let here = (if shown then [packetCount st'] else [])
        in if goOn then (case udp_loop rs st' of (st2, more_shown) \<Rightarrow> (st2, here @ more_shown)) else (st', here))"

text \<open>The statistics that a goroutine prints every five seconds: totals, packets, KiB and megabits per second.\<close>

definition udp_stats :: "int \<Rightarrow> int \<Rightarrow> udp_totals \<Rightarrow> int \<times> int \<times> rat option \<times> rat option \<times> rat option" where
  "udp_stats startTime now st =
     (let duration = of_int (now - startTime) / 1000000000 :: rat;
          rate = (\<lambda>n. if duration = 0 then None else Some (of_int n / duration));
          bytesPerSec = rate (totalBytes st)
      in (totalPackets st, totalBytes st, rate (totalPackets st), map_option (\<lambda>r. r / 1024) bytesPerSec,
          map_option (\<lambda>r. r * 8 / (1000 * 1000)) bytesPerSec))"

definition udp_start :: udp_totals where
  "udp_start = \<lparr>totalPackets = 0, totalBytes = 0, packetCount = 0\<rparr>"

section \<open>The robustness test\<close>

text \<open>The ten messages of a tick; a failed publish is only logged.\<close>

definition robustness_subject :: "nat \<Rightarrow> string" where
  "robustness_subject i = ''test.robustness.msg.'' @ dec i"

definition robustness_payload :: "string \<Rightarrow> nat \<Rightarrow> bytes" where
  "robustness_payload stamp i = bytes_of (''Test message '' @ dec i @ '' at '' @ stamp)"

fun robustness_tick :: "nat \<Rightarrow> (nat \<Rightarrow> string) \<Rightarrow> (nat \<Rightarrow> string option) \<Rightarrow> client \<Rightarrow> client" where
  "robustness_tick 0 stamps writes cli = cli"
| "robustness_tick (Suc i) stamps writes cli =
     fst (Publish (writes i) (robustness_subject i) (robustness_payload (stamps i) i) (robustness_tick i stamps writes cli))"

text \<open>The verdict at the end: no leak of goroutines, no leak of memory (in bytes).\<close>

definition robustness_verdict :: "int \<Rightarrow> int \<Rightarrow> 64 word \<Rightarrow> 64 word \<Rightarrow> bool \<times> bool" where
  "robustness_verdict initialGoroutines finalGoroutines initialAlloc finalAlloc =
     (\<not> finalGoroutines - initialGoroutines > 5,
      \<not> (of_nat (unat finalAlloc) - of_nat (unat initialAlloc)) / 1024 / 1024 > (10 :: rat))"

section \<open>Lemmas\<close>

text \<open>The frames that a run of the H.264 subscriber gets before its channel is closed.\<close>

fun frames_of :: "h264_select list \<Rightarrow> client_message list" where
  "frames_of [] = []"
| "frames_of (StatsTick now # sels) = frames_of sels"
| "frames_of (FromChannel msg # sels) = msg # frames_of sels"
| "frames_of (ChannelClosed # sels) = []"

fun frame_number :: "h264_line \<Rightarrow> int list" where
  "frame_number (FrameLine n len subject) = [n]"
| "frame_number (StatsLine n fps mb mbps) = []"

lemma h264_loop_totals:
  assumes "0 \<le> frameCount st" and "0 \<le> frameBytes st"
    and "frameCount st + int (length (frames_of sels)) < 2 ^ 63"
    and "frameBytes st + int (sum_list (map (length \<circ> MsgData) (frames_of sels))) < 2 ^ 63"
  shows "h264_loop startTime sels st = (st', lines) \<Longrightarrow>
    frameCount st' = frameCount st + int (length (frames_of sels)) \<and>
    frameBytes st' = frameBytes st + int (sum_list (map (length \<circ> MsgData) (frames_of sels))) \<and>
    concat (map frame_number lines) =
      filter (\<lambda>k. k mod 100 = 1) [frameCount st + 1..frameCount st + int (length (frames_of sels))]"
  using assms
proof (induction sels arbitrary: st st' lines rule: frames_of.induct)
  case (2 now sels)
  then show ?case by (auto simp: h264_round_def h264_stats_def Let_def split: prod.splits)
next
  case (3 msg sels)
  let ?n = "frameCount st + 1" and ?b = "frameBytes st + int (length (MsgData msg))"
  let ?st1 = "st\<lparr>frameCount := ?n, frameBytes := ?b\<rparr>"
  have w: "wrap64 ?n = ?n" "wrap64 ?b = ?b" using "3.prems" by (auto intro!: wrap64_id)
  obtain ls where l: "h264_loop startTime sels ?st1 = (st', ls)"
    and lines: "lines = (if ?n mod 100 = 1 then [FrameLine ?n (length (MsgData msg)) (MsgSubject msg)] else []) @ ls"
    using "3.prems"(1) by (auto simp: h264_round_def w Let_def split: prod.splits)
  have "[?n..?n + int (length (frames_of sels))] = ?n # [?n + 1..?n + int (length (frames_of sels))]"
    by (simp add: upto_rec1)
  then show ?case
    using "3.IH" [OF l] "3.prems"(2-) by (auto simp: lines algebra_simps)
qed (auto simp: h264_round_def)

text \<open>The datagrams that a run of the UDP receiver gets before a read fails.\<close>

fun datagrams_of :: "udp_read list \<Rightarrow> bytes list" where
  "datagrams_of [] = []"
| "datagrams_of (UdpTimeout # rs) = datagrams_of rs"
| "datagrams_of (UdpData d # rs) = take udp_receiver_buffer d # datagrams_of rs"
| "datagrams_of (UdpError err # rs) = []"

lemma udp_loop_totals:
  assumes "0 \<le> packetCount st" and "0 \<le> totalBytes st" and "totalPackets st = packetCount st"
    and "packetCount st + int (length (datagrams_of rs)) < 2 ^ 63"
    and "totalBytes st + int (sum_list (map length (datagrams_of rs))) < 2 ^ 63"
  shows "udp_loop rs st = (st', shown) \<Longrightarrow>
    totalPackets st' = packetCount st + int (length (datagrams_of rs)) \<and> packetCount st' = totalPackets st' \<and>
    totalBytes st' = totalBytes st + int (sum_list (map length (datagrams_of rs))) \<and>
    shown = filter (\<lambda>k. k \<le> 10 \<or> k mod 100 = 0) [packetCount st + 1..packetCount st + int (length (datagrams_of rs))]"
  using assms
proof (induction rs arbitrary: st st' shown rule: datagrams_of.induct)
  case (2 rs)
  then show ?case by (auto simp: udp_round_def split: prod.splits)
next
  case (3 d rs)
  let ?n = "packetCount st + 1" and ?b = "totalBytes st + int (length (take udp_receiver_buffer d))"
  let ?st1 = "st\<lparr>packetCount := ?n, totalPackets := ?n, totalBytes := ?b\<rparr>"
  have w: "wrap64 ?n = ?n" "wrap64 ?b = ?b" using "3.prems" by (auto intro!: wrap64_id)
  have r: "udp_round (UdpData d) st = (?st1, ?n \<le> 10 \<or> ?n mod 100 = 0, True)"
    using "3.prems"(4) by (simp add: udp_round_def w Let_def del: length_take)
  obtain ls where l: "udp_loop rs ?st1 = (st', ls)"
    and sh: "shown = (if ?n \<le> 10 \<or> ?n mod 100 = 0 then [?n] else []) @ ls"
    using "3.prems"(1) by (auto simp: r simp del: length_take split: prod.splits)
  have "[?n..?n + int (length (datagrams_of rs))] = ?n # [?n + 1..?n + int (length (datagrams_of rs))]"
    by (simp add: upto_rec1)
  then show ?case
    using "3.IH" [OF l] "3.prems"(2-) by (auto simp: sh algebra_simps simp del: length_take)
qed (auto simp: udp_round_def)

text \<open>The messages of one tick of the robustness test.\<close>

definition robustness_messages :: "nat \<Rightarrow> (nat \<Rightarrow> string) \<Rightarrow> message list" where
  "robustness_messages n stamps =
     map (\<lambda>i. NewMessageCmd CmdPub (robustness_subject i) (robustness_payload (stamps i) i)) [0..<n]"

lemma robustness_tick_sent:
  assumes "client_conn cli" and "\<And>i. length (stamps i) \<le> 64" and "n \<le> 10"
  shows "robustness_tick n stamps (\<lambda>i. None) cli =
    cli\<lparr>outgoing := outgoing cli @ map Encode (robustness_messages n stamps)\<rparr>"
  using assms(3)
proof (induction n)
  case 0
  then show ?case by (simp add: robustness_messages_def)
next
  case (Suc n)
  have "length (dec n) \<le> 11" using length_dec [of n] Suc.prems by simp
  then have "Publish None (robustness_subject n) (robustness_payload (stamps n) n)
      (cli\<lparr>outgoing := outgoing cli @ map Encode (robustness_messages n stamps)\<rparr>) =
    (cli\<lparr>outgoing := outgoing cli @ map Encode (robustness_messages (Suc n) stamps)\<rparr>, None)"
    using assms(1) assms(2) [of n]
    by (subst Publish_ok) (simp_all add: robustness_subject_def robustness_payload_def robustness_messages_def max_lens)
  with Suc show ?case by simp
qed

lemma robustness_matches: "i < 10 \<Longrightarrow> matchSubject ''test.robustness.>'' (robustness_subject i)"
proof -
  have "\<forall>i \<in> set [0..<10]. matchSubject ''test.robustness.>'' (robustness_subject i)" by code_simp
  then show "i < 10 \<Longrightarrow> matchSubject ''test.robustness.>'' (robustness_subject i)" by simp
qed

section \<open>Properties\<close>

text \<open>The robustness test hears itself: with a working connection a tick writes ten packets, and when the
  server returns their messages, all ten are appended in order to the queue of the subscription
  \<open>test.robustness.>\<close>, given room for ten.\<close>

lemma robustness_hears_itself:
  assumes "client_ok cli" and "client_conn cli" and "p \<in> set (subs cli)" and "active (sub_obj cli p)"
    and "\<not> chan_closed (msgChan (sub_obj cli p))" and "sub_subject (sub_obj cli p) = ''test.robustness.>''"
    and "length (waiting (sub_obj cli p)) + 10 \<le> chan_cap (msgChan (sub_obj cli p))"
    and "\<And>i. length (stamps i) \<le> 64"
  shows "outgoing (robustness_tick 10 stamps (\<lambda>i. None) cli) =
      outgoing cli @ map Encode (robustness_messages 10 stamps) \<and>
    waiting (sub_obj (fold (handleMessage now) (map as_msg (robustness_messages 10 stamps)) cli) p) =
      waiting (sub_obj cli p) @ map as_client_message (robustness_messages 10 stamps)"
proof -
  let ?ms = "robustness_messages 10 stamps"
  have "Subject m \<in> robustness_subject ` {..<10}" if "m \<in> set ?ms" for m
    using that by (auto simp: robustness_messages_def NewMessageCmd_def)
  then have "matchSubject (sub_subject (sub_obj cli p)) (Subject m) \<longleftrightarrow> True" if "m \<in> set ?ms" for m
    using that robustness_matches assms(6) by fastforce
  note fw = forwarded_filter [of ?ms "matchSubject (sub_subject (sub_obj cli p))" "\<lambda>x. True", OF this]
  have "length (filter (\<lambda>m. Command m = CmdMsg \<and> matchSubject (sub_subject (sub_obj cli p)) (Subject m))
      (map as_msg ?ms)) = length ?ms"
    using arg_cong [OF fw, of length] by simp
  then have "length (waiting (sub_obj cli p)) + length (filter (\<lambda>m. Command m = CmdMsg \<and>
      matchSubject (sub_subject (sub_obj cli p)) (Subject m)) (map as_msg ?ms)) \<le> chan_cap (msgChan (sub_obj cli p))"
    using assms(7) by (simp add: robustness_messages_def)
  from handle_fold_waiting [OF assms(1,3,4,5) this, of now] fw show ?thesis
    using robustness_tick_sent [OF assms(2,8)] by simp
qed

text \<open>The verdict of the robustness test: at most five goroutines and at most ten mebibytes more than at the
  start; fewer bytes than at the start are no leak, although the counter is unsigned.\<close>

lemma robustness_verdict_iff:
  "robustness_verdict g0 g1 m0 m1 = (g1 \<le> g0 + 5, unat m1 \<le> unat m0 + 10485760)"
proof -
  have "(of_nat (unat m1) - of_nat (unat m0)) / 1024 / 1024 \<le> (10 :: rat) \<longleftrightarrow>
      of_nat (unat m1) \<le> (of_nat (unat m0 + 10485760) :: rat)"
    by (simp add: field_simps)
  also have "\<dots> \<longleftrightarrow> unat m1 \<le> unat m0 + 10485760" by (rule of_nat_le_iff)
  finally show ?thesis by (auto simp: robustness_verdict_def)
qed

text \<open>The two stream monitors count exactly and report at the promised rate: whatever ticks, timeouts and
  data come, as long as the sums fit into 64 bits, the H.264 subscriber's totals are the number and
  the bytes of the frames received before its channel was closed, and it shows the frames numbered
  1, 101, 201 and so on; the UDP receiver's totals are those of the datagrams read before the first
  failed read, and it shows the first ten and every hundredth.\<close>

lemma monitors_count_exactly:
  assumes "int (length (frames_of sels)) < 2 ^ 63"
    and "int (sum_list (map (length \<circ> MsgData) (frames_of sels))) < 2 ^ 63"
    and "int (length (datagrams_of rs)) < 2 ^ 63" and "int (sum_list (map length (datagrams_of rs))) < 2 ^ 63"
  shows "(case h264_loop startTime sels h264_start of (st, lines) \<Rightarrow>
      frameCount st = int (length (frames_of sels)) \<and>
      frameBytes st = int (sum_list (map (length \<circ> MsgData) (frames_of sels))) \<and>
      concat (map frame_number lines) = filter (\<lambda>k. k mod 100 = 1) [1..int (length (frames_of sels))]) \<and>
    (case udp_loop rs udp_start of (st, shown) \<Rightarrow>
      totalPackets st = int (length (datagrams_of rs)) \<and>
      totalBytes st = int (sum_list (map length (datagrams_of rs))) \<and>
      shown = filter (\<lambda>k. k \<le> 10 \<or> k mod 100 = 0) [1..int (length (datagrams_of rs))])"
proof -
  obtain st lines st2 shown where "h264_loop startTime sels h264_start = (st, lines)" "udp_loop rs udp_start = (st2, shown)"
    by fastforce
  with h264_loop_totals [OF _ _ _ _ this(1)] udp_loop_totals [OF _ _ _ _ _ this(2)] assms show ?thesis
    by (simp add: h264_start_def udp_start_def)
qed

end
