(* ===== verification/Feature_Tests.thy ===== *)
theory Feature_Tests
  imports Sample_Programs
begin

text \<open>
  The feature tests of \<open>examples/comprehensive_test\<close> and the walk through the context API of
  \<open>examples/context_usage\<close>, as the sequence of client calls that each makes, with its deferred calls, and
  the values that it prints. What the receive loop handles while a program sleeps is an argument.
  \<open>defer\<close> runs \<open>Unsubscribe\<close> before \<open>Close\<close>; \<^const>\<open>None\<close> stands for a panic there.
\<close>

section \<open>Shared parts\<close>

text \<open>The arguments that stand for the world around a test.\<close>

record 'block world =
  w_env :: environment
  w_NewAES :: "bytes \<Rightarrow> string + 'block"
  w_dialed :: "string + unit"
  w_now :: int
  w_subHeap :: "ptr \<Rightarrow> subscription"
  w_ackHeap :: "ptr \<Rightarrow> subscriptionACK"
  w_attempts :: "nat \<Rightarrow> attempt_env"
  w_writes :: "nat \<Rightarrow> string option"
  w_received :: "message list"
  w_later :: int
  w_unsubErr :: "string option"
  w_closeErr :: "string option"

definition test_connect :: "'block world \<Rightarrow> sample_fatal + client" where
  "test_connect w =
     (case mustAES256Key (w_env w) of
        Inl err \<Rightarrow> Inl (BadKey err)
      | Inr key \<Rightarrow>
          (case ConnectWithContext None (w_NewAES w) (w_dialed w) (w_now w) (w_subHeap w) (w_ackHeap w)
                  ''localhost:4000'' key of
             Inl err \<Rightarrow> Inl (CannotConnect err)
           | Inr cli \<Rightarrow> Inr cli))"

text \<open>The numbered messages of the programs: two Chinese characters in UTF-8, a space, the number.\<close>

definition numbered :: "nat \<Rightarrow> bytes" where
  "numbered n = [0xE6, 0xB6, 0x88, 0xE6, 0x81, 0xAF, 0x20] @ bytes_of (dec n)"

text \<open>Publishing \<open>n\<close> messages, the \<open>i\<close>-th with the write error \<open>writes i\<close>; errors are only logged.\<close>

fun publish_times :: "nat \<Rightarrow> (nat \<Rightarrow> string option) \<Rightarrow> string \<Rightarrow> (nat \<Rightarrow> bytes) \<Rightarrow> client \<Rightarrow> client" where
  "publish_times 0 writes subject payload cli = cli"
| "publish_times (Suc n) writes subject payload cli =
     fst (Publish (writes n) subject (payload n) (publish_times n writes subject payload cli))"

definition deferred :: "string option \<Rightarrow> string option \<Rightarrow> ptr \<Rightarrow> client \<Rightarrow> client option" where
  "deferred unsubErr closeErr sub cli =
     (case Subscription_Unsubscribe unsubErr sub cli of
        None \<Rightarrow> None
      | Some (cli1, _) \<Rightarrow> Some (fst (client_Close closeErr cli1)))"

section \<open>The tests\<close>

text \<open>
  \<open>testStatistics\<close>: a subscription, 100 messages, half a second of sleep, the statistics. The result is
  what is printed, the client at that moment, and the client after the deferred calls.
\<close>

definition testStatistics :: "'block world \<Rightarrow> sample_fatal + client_stats \<times> client \<times> client option" where
  "testStatistics w =
     (case test_connect w of
        Inl err \<Rightarrow> Inl err
      | Inr cli \<Rightarrow>
          (case client_Subscribe (w_attempts w) ''test.stats.*'' cli of
             (_, Inl err) \<Rightarrow> Inl (CannotSubscribe err)
           | (cli1, Inr sub) \<Rightarrow>
               let cli2 = publish_times 100 (w_writes w) ''test.stats.data'' (\<lambda>i. bytes_of ''message'') cli1;
                   cli3 = fold (handleMessage (w_later w)) (w_received w) cli2
               in Inr (client_GetStats (w_later w) cli3, cli3, deferred (w_unsubErr w) (w_closeErr w) sub cli3)))"

text \<open>\<open>testAutoReconnect\<close>: the setting, a subscription, two messages, two of the statistics.\<close>

definition testAutoReconnect :: "'block world \<Rightarrow> sample_fatal + (bool \<times> nat) \<times> client \<times> client option" where
  "testAutoReconnect w =
     (case test_connect w of
        Inl err \<Rightarrow> Inl err
      | Inr cli \<Rightarrow>
          (case client_Subscribe (w_attempts w) ''test.reconnect.*'' (EnableAutoReconnect (seconds 5) cli) of
             (_, Inl err) \<Rightarrow> Inl (CannotSubscribe err)
           | (cli1, Inr sub) \<Rightarrow>
               let cli2 = publish_times 2 (w_writes w) ''test.reconnect.hello'' (\<lambda>i. numbered (Suc i)) cli1;
                   cli3 = fold (handleMessage (w_later w)) (w_received w) cli2;
                   stats = client_GetStats (w_later w) cli3
               in Inr ((Connected stats, ActiveSubscriptions stats), cli3,
                       deferred (w_unsubErr w) (w_closeErr w) sub cli3)))"

text \<open>\<open>debug_sub\<close>: a subscription, one message to it, the number of active subscriptions.\<close>

definition debug_sub :: "'block world \<Rightarrow> sample_fatal + nat \<times> client \<times> client option" where
  "debug_sub w =
     (case sample_connect (w_env w) (w_NewAES w) (w_dialed w) (w_now w) (w_subHeap w) (w_ackHeap w) ''localhost:4000'' of
        Inl err \<Rightarrow> Inl err
      | Inr cli \<Rightarrow>
          (case client_Subscribe (w_attempts w) ''video.stream'' cli of
             (_, Inl err) \<Rightarrow> Inl (CannotSubscribe err)
           | (cli1, Inr sub) \<Rightarrow>
               let cli2 = publish_times 1 (w_writes w) ''video.stream'' (\<lambda>i. bytes_of ''test message'') cli1;
                   cli3 = fold (handleMessage (w_later w)) (w_received w) cli2
               in Inr (ActiveSubscriptions (client_GetStats (w_later w) cli3), cli3,
                       deferred (w_unsubErr w) (w_closeErr w) sub cli3)))"

text \<open>
  \<open>testContextSupport\<close>: a subscription, one message, and a wait for its return. The callback puts a
  message into a channel of capacity 1 if there is room; so the wait succeeds if the subscription's
  goroutine has handled a message. The result is the error of the publish, whether a message came,
  and the client after the deferred calls.
\<close>

definition testContextSupport :: "string option \<Rightarrow> string option \<Rightarrow> 'block world \<Rightarrow>
    sample_fatal + client_error option \<times> bool \<times> client option" where
  "testContextSupport subCtxErr pubCtxErr w =
     (case test_connect w of
        Inl err \<Rightarrow> Inl err
      | Inr cli \<Rightarrow>
          (case SubscribeWithContext subCtxErr (w_attempts w) ''test.context.*'' cli of
             (_, Inl err) \<Rightarrow> Inl (CannotSubscribe err)
           | (cli1, Inr sub) \<Rightarrow>
               (case PublishWithContext pubCtxErr (w_writes w 0) ''test.context.hello'' (bytes_of ''world'') cli1 of
                  (cli2, err) \<Rightarrow>
                    let cli3 = fold (handleMessage (w_later w)) (w_received w) cli2;
                        cli4 = on_sub sub (\<lambda>s. case process_one s of None \<Rightarrow> s | Some s' \<Rightarrow> s') cli3
                    in Inr (err, handled (sub_obj cli4 sub) \<noteq> [],
                            deferred (w_unsubErr w) (w_closeErr w) sub cli4))))"

text \<open>
  \<open>testChannelSubscription\<close> counts the messages that it receives from the channel until there are
  three or the timer fires; \<^const>\<open>None\<close> while it still waits.
\<close>

datatype channel_select = GotMessage client_message | TimeoutFired

fun channel_count :: "channel_select list \<Rightarrow> nat \<Rightarrow> nat option" where
  "channel_count [] n = None"
| "channel_count (GotMessage m # es) n = (if Suc n \<ge> 3 then Some (Suc n) else channel_count es (Suc n))"
| "channel_count (TimeoutFired # es) n = Some n"

text \<open>
  The main function of \<open>context_usage\<close>, from its second example on: a subscription, five messages, a
  subscription whose context is cancelled after a second (\<open>ctxErr4\<close> and its attempts), a message with
  a cancelled context, the statistics, and \<open>Close\<close>; the deferred \<open>Unsubscribe\<close> and \<open>Close\<close> come after it.
\<close>

fun publish_with_contexts :: "nat \<Rightarrow> (nat \<Rightarrow> string option) \<Rightarrow> (nat \<Rightarrow> string option) \<Rightarrow> client \<Rightarrow> client" where
  "publish_with_contexts 0 ctxErrs writes cli = cli"
| "publish_with_contexts (Suc n) ctxErrs writes cli =
     fst (PublishWithContext (ctxErrs n) (writes n) ''demo.hello'' (numbered (Suc n))
       (publish_with_contexts n ctxErrs writes cli))"

definition canceled :: string where
  "canceled = ''context canceled''"

text \<open>The five Chinese characters of the message that is not to be sent.\<close>

definition unsent :: bytes where
  "unsent = [0xE4, 0xB8, 0x8D, 0xE4, 0xBC, 0x9A, 0xE8, 0xA2, 0xAB, 0xE5, 0x8F, 0x91, 0xE9, 0x80, 0x81]"

definition context_usage :: "string option \<Rightarrow> (nat \<Rightarrow> string option) \<Rightarrow> string option \<Rightarrow> (nat \<Rightarrow> attempt_env) \<Rightarrow>
    'block world \<Rightarrow> (sample_fatal + client_error option \<times> nat \<times> client option) option" where
  "context_usage ctxErr1 ctxErrs ctxErr4 attempts4 w =
     (case sample_key (w_env w) of
        Inl err \<Rightarrow> Some (Inl (BadKey err))
      | Inr key \<Rightarrow>
     (case ConnectWithContext ctxErr1 (w_NewAES w) (w_dialed w) (w_now w) (w_subHeap w) (w_ackHeap w)
             ''localhost:4000'' key of
        Inl err \<Rightarrow> Some (Inl (CannotConnect err))
      | Inr cli \<Rightarrow>
     (case SubscribeWithContext None (w_attempts w) ''demo.*'' cli of
        (_, Inl err) \<Rightarrow> Some (Inl (CannotSubscribe err))
      | (cli1, Inr sub) \<Rightarrow>
          let cli2 = publish_with_contexts 5 ctxErrs (w_writes w) cli1;
              cli3 = fold (handleMessage (w_later w)) (w_received w) cli2
          in case (case SubscribeWithContext ctxErr4 attempts4 ''cancel.*'' cli3 of
                     (c, Inl err) \<Rightarrow> Some c
                   | (c, Inr sub2) \<Rightarrow> map_option fst (Subscription_Unsubscribe (w_unsubErr w) sub2 c)) of
               None \<Rightarrow> None
             | Some cli4 \<Rightarrow>
                 (case PublishWithContext (Some canceled) None ''fast.fail'' unsent cli4 of
                    (cli5, err5) \<Rightarrow>
                      let stats = client_GetStats (w_later w) cli5;
                          cli6 = fst (client_Close (w_closeErr w) cli5)
                      in Some (Inr (err5, ActiveSubscriptions stats,
                           deferred (w_unsubErr w) (w_closeErr w) sub cli6))))))"

section \<open>Lemmas\<close>

lemma test_connect_client:
  assumes "test_connect w = Inr cli"
  shows "client_typed cli \<and> client_conn cli \<and> fst (core cli) = (0, 0, 0, 0, 0, 0)"
proof -
  obtain key where c: "ConnectWithContext None (w_NewAES w) (w_dialed w) (w_now w) (w_subHeap w) (w_ackHeap w)
      ''localhost:4000'' key = Inr cli"
    using assms by (auto simp: test_connect_def split: sum.splits)
  have "reconnectCount cli = 0" using c by (auto simp: ConnectWithContext_def split: sum.splits)
  then show ?thesis using connect_typed [OF c] connect_fields [OF c] by (simp add: core_def)
qed

lemma publish_typed: "client_typed c \<Longrightarrow> client_typed (fst (PublishWithContext x e t b c))"
  using exec_call_typed [of "CallPublish x e t b" c] by simp

lemma publish_times_typed: "client_typed c \<Longrightarrow> client_typed (publish_times n writes t b c)"
  by (induction n) (simp_all add: Publish_def publish_typed)

lemma publish_contexts_typed: "client_typed c \<Longrightarrow> client_typed (publish_with_contexts n xs writes c)"
  by (induction n) (simp_all add: publish_typed)

lemma publish_core:
  "fst (core (fst (PublishWithContext x e t b c))) = fst (core c) \<and>
   client_conn (fst (PublishWithContext x e t b c)) = client_conn c"
  using call_rel_exec [of "CallPublish x e t b" c] by (simp add: call_rel_def)

lemma publish_times_core:
  "fst (core (publish_times n writes t b c)) = fst (core c) \<and> client_conn (publish_times n writes t b c) = client_conn c"
  by (induction n) (simp_all add: Publish_def publish_core)

lemma publish_frame: "next_sub (fst (PublishWithContext x e t b c)) = next_sub c"
  by (auto simp: PublishWithContext_def triggerConnectionLost_def reconnect_def Let_def split: option.splits)

lemma publish_times_frame: "next_sub (publish_times n writes t b c) = next_sub c"
  by (induction n) (simp_all add: Publish_def publish_frame)

lemma publish_times_sent:
  assumes "client_conn c" and "length t \<le> MaxSubjectLen" and "\<And>i. 3 + length t + length (b i) \<le> MaxBodyLen"
  shows "outgoing (publish_times n (\<lambda>i. None) t b c) =
    outgoing c @ map (\<lambda>i. Encode (NewMessageCmd CmdPub t (b i))) [0..<n]"
proof (induction n)
  case (Suc n)
  have "client_conn (publish_times n (\<lambda>i. None) t b c)" using publish_times_core assms(1) by simp
  from Publish_ok [OF this assms(2,3)] Suc show ?case by simp
qed simp

lemma deferred_returns:
  "client_typed c \<Longrightarrow> p < next_sub c \<Longrightarrow> \<exists>c'. deferred unsubErr closeErr p c = Some c'"
  using unsubscribe_returns [of c p unsubErr] by (auto simp: deferred_def)

lemma handle_fold_core: "core (fold (handleMessage now) ms c) = core c"
  by (induction ms arbitrary: c) simp_all

lemma subscribe_context_typed:
  assumes "client_typed c" and "SubscribeWithContext x envs t c = (c', res)"
  shows "client_typed c' \<and> next_sub c \<le> next_sub c'"
proof -
  have "client_typed (fst (SubscribeWithOptionsContext envs t 100 c))"
    using exec_call_typed [of "CallSubscribe envs t 100" c] assms(1) by simp
  then show ?thesis
    using assms subscribe_allocates [of c envs t 100]
    by (cases x) (auto simp: SubscribeWithContext_def)
qed

lemma subscribe_context_working:
  assumes "client_typed c" and "client_conn c" and "SubscribeWithContext x envs t c = (c', Inr p)"
  shows "client_typed c' \<and> p < next_sub c'"
  using assms subscribe_working [OF assms(1,2)]
  by (cases x) (auto simp: SubscribeWithContext_def)

lemma close_frame: "next_sub (fst (client_Close e c)) = next_sub c"
proof -
  have d: "next_sub (deactivate_all ps c) = next_sub c" for ps c
    by (induction ps arbitrary: c) (simp_all add: on_sub_def)
  have k: "next_sub (clear_pending es c) = next_sub c" for es c
    by (induction es c rule: clear_pending.induct) (simp_all add: drop_pending_def split: option.splits)
  show ?thesis by (simp add: client_Close_def Let_def d k)
qed

lemma publish_contexts_frame: "next_sub (publish_with_contexts n xs writes c) = next_sub c"
  by (induction n) (simp_all add: publish_frame)

section \<open>Properties\<close>

text \<open>The statistics test cannot see its own traffic: whenever \<open>testStatistics\<close> gets to its report, the
  messages and bytes sent and received, and the subscriptions in total, are printed as 0 and the
  client as connected, although without write errors exactly 100 packets were written after the
  subscription, whatever was received meanwhile; its deferred calls end without a panic.\<close>

lemma statistics_test_reports_zero:
  assumes "testStatistics w = Inr (stats, cli, final)"
  shows "MessagesSent stats = 0 \<and> MessagesReceived stats = 0 \<and> BytesSent stats = 0 \<and> BytesReceived stats = 0 \<and>
    ClientTotalSubscriptions stats = 0 \<and> Connected stats \<and> (\<exists>c. final = Some c) \<and>
    (w_writes w = (\<lambda>i. None) \<longrightarrow> (\<exists>before. outgoing cli =
       before @ replicate 100 (Encode (NewMessageCmd CmdPub ''test.stats.data'' (bytes_of ''message'')))))"
proof -
  let ?b = "\<lambda>i :: nat. bytes_of ''message''"
  obtain c0 c1 sub where 0: "test_connect w = Inr c0"
    and 1: "client_Subscribe (w_attempts w) ''test.stats.*'' c0 = (c1, Inr sub)"
    and cli: "cli = fold (handleMessage (w_later w)) (w_received w)
        (publish_times 100 (w_writes w) ''test.stats.data'' ?b c1)"
    and stats: "stats = client_GetStats (w_later w) cli" and final: "final = deferred (w_unsubErr w) (w_closeErr w) sub cli"
    using assms by (auto simp: testStatistics_def Let_def split: sum.splits prod.splits)
  note c0 = test_connect_client [OF 0]
  note c1 = client_Subscribe_working [OF c0 [THEN conjunct1] c0 [THEN conjunct2, THEN conjunct1] 1]
  have "core c1 = core c0"
    using 1 core_subscribe_loop [of 0 "background \<circ> w_attempts w" "''test.stats.*''" 100 None c0]
    by (auto simp: client_Subscribe_def SubscribeWithContext_def SubscribeWithOptionsContext_def split: if_splits)
  then have core: "fst (core cli) = (0, 0, 0, 0, 0, 0)" "client_conn cli"
    using c0 c1 publish_times_core [of 100 "w_writes w" "''test.stats.data''" ?b c1] handle_fold_frame
    by (simp_all add: cli handle_fold_core)
  have "sub < next_sub c1" using c1 by (simp add: client_typed_def client_ok_def)
  then have "sub < next_sub cli" using handle_fold_frame by (simp add: cli publish_times_frame)
  moreover have "client_typed cli" unfolding cli using c1 by (intro handle_fold_typed publish_times_typed) simp
  ultimately have "\<exists>c. final = Some c" unfolding final by (intro deferred_returns)
  moreover have "outgoing cli = outgoing c1 @ replicate 100 (Encode (NewMessageCmd CmdPub ''test.stats.data'' (bytes_of ''message'')))"
    if "w_writes w = (\<lambda>i. None)"
  proof -
    have "outgoing cli = outgoing (publish_times 100 (\<lambda>i. None) ''test.stats.data'' ?b c1)"
      unfolding cli that using handle_fold_frame by simp
    also have "\<dots> = outgoing c1 @ map (\<lambda>i. Encode (NewMessageCmd CmdPub ''test.stats.data'' (?b i))) [0..<100]"
      using c1 by (intro publish_times_sent) (simp_all add: max_lens)
    finally show ?thesis by (simp add: map_replicate_const)
  qed
  ultimately show ?thesis using core by (auto simp: stats client_GetStats_def core_def Let_def)
qed

text \<open>The walk through the context API up to the cancelled subscription.\<close>

lemma context_usage_middle:
  fixes w :: "'block world" and ctxErrs :: "nat \<Rightarrow> string option"
  assumes "ConnectWithContext ctxErr1 mk dialed now sh ah address key = Inr cli"
    and "SubscribeWithContext None (w_attempts w) ''demo.*'' cli = (cli1, Inr sub)"
  defines "cli3 \<equiv> fold (handleMessage (w_later w)) (w_received w) (publish_with_contexts 5 ctxErrs (w_writes w) cli1)"
  shows "\<exists>c. (case SubscribeWithContext ctxErr4 attempts4 ''cancel.*'' cli3 of
       (c, Inl err) \<Rightarrow> Some c
     | (c, Inr sub2) \<Rightarrow> map_option fst (Subscription_Unsubscribe (w_unsubErr w) sub2 c)) = Some c \<and>
     client_typed c \<and> sub < next_sub c"
proof -
  have conn: "client_conn cli" using assms(1) by (auto simp: ConnectWithContext_def split: option.splits sum.splits)
  have 1: "client_typed cli1" "sub < next_sub cli1"
    using subscribe_context_working [OF connect_typed [OF assms(1)] conn assms(2)] by simp_all
  have "client_conn cli1"
    using core_subscribe_loop [of 0 "w_attempts w" "''demo.*''" 100 None cli] conn assms(2)
    by (auto simp: SubscribeWithContext_def SubscribeWithOptionsContext_def core_def split: if_splits)
  then have "client_conn (publish_with_contexts n ctxErrs (w_writes w) cli1)" for n
    by (induction n) (simp_all add: publish_core)
  then have 3: "client_typed cli3" "client_conn cli3" "sub < next_sub cli3"
    unfolding cli3_def using handle_fold_frame 1
    by (simp_all add: handle_fold_typed publish_contexts_typed publish_contexts_frame)
  obtain cli4 res4 where four: "SubscribeWithContext ctxErr4 attempts4 ''cancel.*'' cli3 = (cli4, res4)" by fastforce
  then have 4: "client_typed cli4" "sub < next_sub cli4" using subscribe_context_typed [OF 3(1) four] 3(3) by simp_all
  show ?thesis
  proof (cases res4)
    case (Inr sub2)
    then have "sub2 < next_sub cli4" using subscribe_context_working [OF 3(1,2)] four by blast
    then show ?thesis using unsubscribe_returns [OF 4(1), of sub2 "w_unsubErr w"] 4(2) Inr four by auto
  qed (use 4 four in auto)
qed

text \<open>The walk through the context API ends without a panic on every path, the \<open>Unsubscribe\<close> that is
  deferred until after \<open>Close\<close> included, and the message with the cancelled context is refused with that
  error.\<close>

lemma context_usage_returns:
  fixes w :: "'block world"
  shows "\<exists>res. context_usage ctxErr1 ctxErrs ctxErr4 attempts4 w = Some res \<and>
     (\<forall>err n final. res = Inr (err, n, final) \<longrightarrow> err = Some (ContextError canceled) \<and> (\<exists>c. final = Some c))"
proof -
  have refused: "PublishWithContext (Some e) x t b c = (c, Some (ContextError e))" for e x t b c
    by (simp add: PublishWithContext_def)
  have last: "\<exists>c'. deferred u e sub (fst (client_Close e c)) = Some c'" if "client_typed c" "sub < next_sub c" for u e sub c
    using that by (intro deferred_returns) (simp_all add: close_typed close_frame)
  show ?thesis
  proof (cases "sample_key (w_env w)")
    case (Inr key)
    note k = this
    show ?thesis
    proof (cases "ConnectWithContext ctxErr1 (w_NewAES w) (w_dialed w) (w_now w) (w_subHeap w) (w_ackHeap w)
        ''localhost:4000'' key")
      case (Inr cli)
      obtain cli1 res where sub: "SubscribeWithContext None (w_attempts w) ''demo.*'' cli = (cli1, res)" by fastforce
      show ?thesis
      proof (cases res)
        case (Inr p)
        then show ?thesis
          using context_usage_middle [OF \<open>ConnectWithContext _ _ _ _ _ _ _ _ = _\<close>, where w = w and ?cli1.0 = cli1 and sub = p
              and ctxErrs = ctxErrs and ?ctxErr4.0 = ctxErr4 and ?attempts4.0 = attempts4]
            sub k \<open>ConnectWithContext _ _ _ _ _ _ _ _ = _\<close> last
          by (auto simp: context_usage_def refused Let_def)
      qed (simp add: context_usage_def k sub \<open>ConnectWithContext _ _ _ _ _ _ _ _ = _\<close>)
    qed (simp add: context_usage_def k)
  qed (simp add: context_usage_def)
qed

text \<open>The reconnection test always reports a connection and one active subscription, and so does \<open>debug_sub\<close>.\<close>

lemma publish_same:
  "subs (fst (PublishWithContext x e t b c)) = subs c" "sub_obj (fst (PublishWithContext x e t b c)) = sub_obj c"
  by (auto simp: PublishWithContext_def triggerConnectionLost_def reconnect_def Let_def split: option.splits)

lemma publish_times_same:
  "subs (publish_times n writes t b c) = subs c \<and> sub_obj (publish_times n writes t b c) = sub_obj c"
  by (induction n) (simp_all add: Publish_def publish_same)

lemma only_subscription:
  assumes "client_typed c0" and "client_conn c0" and "subs c0 = []"
    and "client_Subscribe envs t c0 = (c1, Inr sub)"
    and "cli = fold (handleMessage now) ms (publish_times k writes t2 b c1)"
  shows "client_conn cli \<and> length (filter (\<lambda>p. active (sub_obj cli p)) (subs cli)) = 1 \<and>
    (\<exists>c. deferred unsubErr closeErr sub cli = Some c)"
proof -
  note c1 = client_Subscribe_working [OF assms(1,2,4), unfolded assms(3)]
  let ?c2 = "publish_times k writes t2 b c1"
  have c2: "client_typed ?c2" "subs ?c2 = [sub]" "active (sub_obj ?c2 sub)" "client_conn ?c2"
    using c1 publish_times_same publish_times_core publish_times_typed by simp_all
  then have ok2: "client_ok ?c2" "sub < next_sub ?c2" by (simp_all add: client_typed_def client_ok_def)
  have "client_typed cli" "sub < next_sub cli" "client_conn cli" "subs cli = [sub]"
    unfolding assms(5) using handle_fold_typed [OF c2(1)] handle_fold_frame [of now ms ?c2] c2 ok2 by simp_all
  moreover have "active (sub_obj cli sub)" unfolding assms(5) using handle_fold_ok [OF ok2(1)] c2(3) by blast
  ultimately show ?thesis using deferred_returns by simp
qed

lemma connected_fresh:
  assumes "ConnectWithContext None mk dialed now sh ah address key = Inr c"
  shows "client_typed c \<and> client_conn c \<and> subs c = []"
proof -
  have "subs c = []" using assms by (auto simp: ConnectWithContext_def split: sum.splits)
  then show ?thesis using connect_typed [OF assms] connect_fields(2) [OF assms] by simp
qed

lemma reconnect_test_report:
  assumes "testAutoReconnect w = Inr ((isConnected, n), cli, final)"
  shows "isConnected \<and> n = 1 \<and> (\<exists>c. final = Some c)"
proof -
  obtain c0 c1 sub where 0: "test_connect w = Inr c0"
    and 1: "client_Subscribe (w_attempts w) ''test.reconnect.*'' (EnableAutoReconnect (seconds 5) c0) = (c1, Inr sub)"
    and cli: "cli = fold (handleMessage (w_later w)) (w_received w)
        (publish_times 2 (w_writes w) ''test.reconnect.hello'' (\<lambda>i. numbered (Suc i)) c1)"
    and out: "isConnected = client_conn cli" "n = length (filter (\<lambda>p. active (sub_obj cli p)) (subs cli))"
      "final = deferred (w_unsubErr w) (w_closeErr w) sub cli"
    using assms by (auto simp: testAutoReconnect_def client_GetStats_def Let_def split: sum.splits prod.splits)
  have "client_typed c0 \<and> client_conn c0 \<and> subs c0 = []"
    using 0 by (auto simp: test_connect_def split: sum.splits dest: connected_fresh)
  moreover have "client_conn (EnableAutoReconnect d c0) = client_conn c0" "subs (EnableAutoReconnect d c0) = subs c0" for d
    by (simp_all add: EnableAutoReconnect_def Let_def)
  ultimately show ?thesis using only_subscription [OF _ _ _ 1 cli] by (simp add: out)
qed

lemma debug_sub_report:
  assumes "debug_sub w = Inr (n, cli, final)"
  shows "n = 1 \<and> (\<exists>c. final = Some c)"
proof -
  obtain key c0 c1 sub where 0: "Connect (w_NewAES w) (w_dialed w) (w_now w) (w_subHeap w) (w_ackHeap w) ''localhost:4000'' key = Inr c0"
    and 1: "client_Subscribe (w_attempts w) ''video.stream'' c0 = (c1, Inr sub)"
    and cli: "cli = fold (handleMessage (w_later w)) (w_received w)
        (publish_times 1 (w_writes w) ''video.stream'' (\<lambda>i. bytes_of ''test message'') c1)"
    and out: "n = length (filter (\<lambda>p. active (sub_obj cli p)) (subs cli))"
      "final = deferred (w_unsubErr w) (w_closeErr w) sub cli"
    using assms
    by (auto simp: debug_sub_def sample_connect_def client_GetStats_def Let_def split: sum.splits prod.splits)
  show ?thesis
    using connected_fresh [OF 0 [unfolded Connect_def]] only_subscription [OF _ _ _ 1 cli] by (simp add: out)
qed

text \<open>The channel test counts three exactly when three messages come before the timer fires.\<close>

lemma channel_count_three:
  "channel_count es 0 = Some 3 \<longleftrightarrow> (\<exists>m1 m2 m3 rest. es = GotMessage m1 # GotMessage m2 # GotMessage m3 # rest)"
proof -
  have head: "(\<exists>m rest. es = GotMessage m # rest) \<or> es = [] \<or> (\<exists>rest. es = TimeoutFired # rest)" for es
    by (cases es; cases "hd es") auto
  have 2: "channel_count es 2 = Some 3 \<longleftrightarrow> (\<exists>m rest. es = GotMessage m # rest)" for es
    using head [of es] by auto
  have 1: "channel_count es 1 = Some 3 \<longleftrightarrow> (\<exists>m rest. es = GotMessage m # rest \<and> channel_count rest 2 = Some 3)" for es
    using head [of es] by (auto simp: numeral_2_eq_2)
  have "channel_count es 0 = Some 3 \<longleftrightarrow> (\<exists>m rest. es = GotMessage m # rest \<and> channel_count rest 1 = Some 3)"
    using head [of es] by auto
  then show ?thesis unfolding 1 2 by auto
qed

end
