(* ===== verification/Program_Runs.thy ===== *)
theory Program_Runs
  imports Perf_Test Ping_Pong Stream_Monitors Feature_Tests
begin

text \<open>
  The main functions around the loops of the example programs, from the settings to the deferred calls:
  the load test, the round-trip measurement and its responder, the robustness test and the channel test of
  \<open>examples/comprehensive_test\<close>. The arguments that stand for the world are
  those of theory \<open>Feature_Tests\<close>; what goroutines do in the meantime is a list of events in the order in
  which they happen.
\<close>

section \<open>The load test\<close>

definition perf_addr :: "environment \<Rightarrow> string" where
  "perf_addr env = (if env ''KCP_NATS_ADDR'' = [] then ''localhost:4000'' else env ''KCP_NATS_ADDR'')"

text \<open>
  A subscriber: its own connection and subscription; a failure is only logged. Its deferred calls run
  when \<open>done\<close> is closed; until then the receive loop has handled \<open>w_received\<close>.
\<close>

definition perf_subscriber :: "string \<Rightarrow> bytes \<Rightarrow> 'block world \<Rightarrow> (client \<times> ptr) option" where
  "perf_subscriber address key w =
     (case Connect (w_NewAES w) (w_dialed w) (w_now w) (w_subHeap w) (w_ackHeap w) address key of
        Inl err \<Rightarrow> None
      | Inr cli \<Rightarrow>
          (case client_Subscribe (w_attempts w) ''video.stream'' cli of
             (_, Inl err) \<Rightarrow> None
           | (cli1, Inr sub) \<Rightarrow> Some (cli1, sub)))"

definition perf_leave :: "'block world \<Rightarrow> client \<times> ptr \<Rightarrow> client option" where
  "perf_leave w cs =
     (case cs of (cli, sub) \<Rightarrow>
        deferred (w_unsubErr w) (w_closeErr w) sub (fold (handleMessage (w_later w)) (w_received w) cli))"

text \<open>What happens while the test runs: a tick of the publisher, a callback of a subscriber, a printed line.\<close>

datatype perf_event = FrameTick int "string option" | Delivered int client_message | StatsPrinted int

record perf_run =
  run_cli :: client
  run_pub :: publisher
  run_stats :: perf_stats
  run_lines :: "perf_report list"

text \<open>\<^const>\<open>None\<close> is the panic of a frame that is too small or of a message without a time stamp.\<close>

fun perf_event_step :: "scenario \<Rightarrow> perf_event \<Rightarrow> perf_run \<Rightarrow> perf_run option" where
  "perf_event_step config (FrameTick now writeErr) st =
     (case publish_tick config now writeErr (run_cli st, run_pub st, run_stats st) of
        None \<Rightarrow> None
      | Some (cli, pub, stats) \<Rightarrow> Some (st\<lparr>run_cli := cli, run_pub := pub, run_stats := stats\<rparr>))"
| "perf_event_step config (Delivered now msg) st =
     (case perf_callback now msg of
        None \<Rightarrow> None
      | Some (n, latency) \<Rightarrow> Some (st\<lparr>run_stats := RecordMessage n latency (run_stats st)\<rparr>))"
| "perf_event_step config (StatsPrinted now) st =
     Some (case perf_printStats now (run_stats st) of
        None \<Rightarrow> st
      | Some rep \<Rightarrow> st\<lparr>run_lines := run_lines st @ [rep]\<rparr>)"

fun perf_events :: "scenario \<Rightarrow> perf_event list \<Rightarrow> perf_run \<Rightarrow> perf_run option" where
  "perf_events config [] st = Some st"
| "perf_events config (e # es) st =
     (case perf_event_step config e st of None \<Rightarrow> None | Some st' \<Rightarrow> perf_events config es st')"

text \<open>
  \<open>runPerformanceTest\<close>: \<open>w\<close> is the world of the publisher, \<open>ws i\<close> that of subscriber \<open>i\<close>. The result is the
  final report, the state at that moment with the publisher's client closed by the deferred call, and what
  the deferred calls of the subscribers leave.
\<close>

definition runPerformanceTest :: "'block world \<Rightarrow> (int \<Rightarrow> 'block world) \<Rightarrow> perf_event list \<Rightarrow> scenario \<Rightarrow>
    (sample_fatal + final_report \<times> perf_run \<times> client option list) option" where
  "runPerformanceTest w ws es config =
     (let stats = new_stats (w_now w); address = perf_addr (w_env w) in
      case mustAES256Key (w_env w) of
        Inl err \<Rightarrow> Some (Inl (BadKey err))
      | Inr key \<Rightarrow>
          let started = map (\<lambda>i. (i, perf_subscriber address key (ws i))) [0..SubscriberCount config - 1] in
          (case Connect (w_NewAES w) (w_dialed w) (w_now w) (w_subHeap w) (w_ackHeap w) address key of
             Inl err \<Rightarrow> Some (Inl (CannotConnect err))
           | Inr cli \<Rightarrow>
               (case perf_events config es \<lparr>run_cli = cli,
                       run_pub = \<lparr>frameNum = 0, PublishedCount = 0, PublishedBytes = 0\<rparr>, run_stats = stats, run_lines = []\<rparr> of
                  None \<Rightarrow> None
                | Some st \<Rightarrow>
                    let left = concat (map (\<lambda>(i, cs). case cs of None \<Rightarrow> [] | Some c \<Rightarrow> [perf_leave (ws i) c]) started)
                    in Some (Inr (printFinalStats (w_later w) (run_stats st) (run_pub st) config,
                         st\<lparr>run_cli := fst (client_Close (w_closeErr w) (run_cli st))\<rparr>, left)))))"

text \<open>The arguments of the program; \<open>Atoi\<close> is \<open>strconv.Atoi\<close>, \<^const>\<open>None\<close> for an error.\<close>

datatype perf_exit = PerfUsage | UnknownScenario string | PerfFatal sample_fatal

definition perf_main :: "(string \<Rightarrow> int option) \<Rightarrow> string list \<Rightarrow> 'block world \<Rightarrow> (int \<Rightarrow> 'block world) \<Rightarrow> perf_event list \<Rightarrow>
    (perf_exit + final_report \<times> perf_run \<times> client option list) option" where
  "perf_main Atoi args w ws es =
     (if length args < 2 then Some (Inl PerfUsage)
      else
        (case scenarios (args ! 1) of
           None \<Rightarrow> Some (Inl (UnknownScenario (args ! 1)))
         | Some config \<Rightarrow>
             let config = override_count (if length args > 2 then Atoi (args ! 2) else None) config in
             (case runPerformanceTest w ws es config of
                None \<Rightarrow> None
              | Some (Inl err) \<Rightarrow> Some (Inl (PerfFatal err))
              | Some (Inr res) \<Rightarrow> Some (Inr res))))"

section \<open>The round-trip measurement\<close>

text \<open>
  \<open>Run\<close>: the connection, the subscription to the responses, the measuring loop, the report, and the
  deferred calls. \<^const>\<open>None\<close> is a panic of the loop.
\<close>

definition ping_Run :: "'block world \<Rightarrow> (nat \<Rightarrow> ping_env) \<Rightarrow> ping_test \<Rightarrow>
    (sample_fatal + ping_test \<times> ping_report option option \<times> client option) option" where
  "ping_Run w envs t =
     (case sample_connect (w_env w) (w_NewAES w) (w_dialed w) (w_now w) (w_subHeap w) (w_ackHeap w) (ServerAddr t) of
        Inl err \<Rightarrow> Some (Inl err)
      | Inr cli \<Rightarrow>
          (case client_Subscribe (w_attempts w) (response_subject (ClientID t)) cli of
             (_, Inl err) \<Rightarrow> Some (Inl (CannotSubscribe err))
           | (cli1, Inr sub) \<Rightarrow>
               (case ping_loop (map envs [0..<nat (MessageCount t)]) 0 (t, cli1) of
                  None \<Rightarrow> None
                | Some (t', cli2) \<Rightarrow>
                    Some (Inr (t', ping_printStats t',
                      deferred (w_unsubErr w) (w_closeErr w) sub (fold (handleMessage (w_later w)) (w_received w) cli2))))))"

text \<open>The main function; \<open>r\<close> is the value of \<open>rand.Intn(10000)\<close>.\<close>

definition ping_main :: "nat \<Rightarrow> 'block world \<Rightarrow> (nat \<Rightarrow> ping_env) \<Rightarrow>
    (sample_fatal + ping_test \<times> ping_report option option \<times> client option) option" where
  "ping_main r w envs =
     (let address = override (w_env w) ''KCP_NATS_ADDR'' ''142.171.156.96:4000'' in
      case NewPingPongTest (''client-'' @ dec r) address 100 64 of
        None \<Rightarrow> None
      | Some t \<Rightarrow> ping_Run w envs t)"

text \<open>
  The responder of \<open>examples/ping_server\<close>: it subscribes to \<open>ping.>\<close> and runs its callback for every message
  that it gets; a failed publish is only logged. It never ends.
\<close>

fun respond_all :: "(client_message \<times> string option) list \<Rightarrow> client \<Rightarrow> client" where
  "respond_all [] cli = cli"
| "respond_all ((msg, writeErr) # rest) cli =
     respond_all rest (case ping_server_callback msg of
        None \<Rightarrow> cli
      | Some (subject, data') \<Rightarrow> fst (Publish writeErr subject data' cli))"

definition ping_server_main :: "'block world \<Rightarrow> (client_message \<times> string option) list \<Rightarrow> sample_fatal + client" where
  "ping_server_main w msgs =
     (let address = override (w_env w) ''KCP_NATS_ADDR'' ''localhost:4000'' in
      case sample_connect (w_env w) (w_NewAES w) (w_dialed w) (w_now w) (w_subHeap w) (w_ackHeap w) address of
        Inl err \<Rightarrow> Inl err
      | Inr cli \<Rightarrow>
          (case client_Subscribe (w_attempts w) ''ping.>'' cli of
             (_, Inl err) \<Rightarrow> Inl (CannotSubscribe err)
           | (cli1, Inr sub) \<Rightarrow> Inr (respond_all msgs cli1)))"

section \<open>The robustness test\<close>

text \<open>
  What the \<open>select\<close> of a round takes. A closed channel gives \<open>nil\<close>. The messages that the receive loop
  handles before it come with the round, as does the time at which the loop condition is checked; after
  the last round of the list the condition is false.
\<close>

datatype robust_event =
    PublishTicked "nat \<Rightarrow> string" "nat \<Rightarrow> string option"
  | StatsTicked int "64 word" int
  | FromMsgChan "client_message option"
  | WaitedOut

datatype robust_line =
    PublishedTen
  | ResourceLine int rat bool int int
  | ReceivedLine string bytes

definition testDuration :: int where
  "testDuration = 3 * 60 * 1000000000"

definition mem_delta :: "64 word \<Rightarrow> 64 word \<Rightarrow> rat" where
  "mem_delta initialAlloc current = (of_nat (unat current) - of_nat (unat initialAlloc)) / 1024 / 1024"

definition resource_line :: "int \<Rightarrow> 64 word \<Rightarrow> int \<Rightarrow> 64 word \<Rightarrow> int \<Rightarrow> client \<Rightarrow> robust_line" where
  "resource_line initialGoroutines initialAlloc goroutines alloc now cli =
     (let stats = client_GetStats now cli
      in ResourceLine (goroutines - initialGoroutines) (mem_delta initialAlloc alloc) (Connected stats)
           (MessagesSent stats) (MessagesReceived stats))"

fun robustness_loop :: "int \<Rightarrow> 64 word \<Rightarrow> int \<Rightarrow> (int \<times> message list \<times> robust_event) list \<Rightarrow> client \<Rightarrow>
    client \<times> robust_line list" where
  "robustness_loop g0 m0 startTime [] cli = (cli, [])"
| "robustness_loop g0 m0 startTime ((checked, heard, ev) # rounds) cli =
     (if \<not> checked - startTime < testDuration then (cli, [])
      else
        let cli1 = fold (handleMessage checked) heard cli in
        case ev of
          WaitedOut \<Rightarrow> (cli1, [])
        | PublishTicked stamps writes \<Rightarrow>
            (case robustness_loop g0 m0 startTime rounds (robustness_tick 10 stamps writes cli1) of
               (cli2, ls) \<Rightarrow> (cli2, PublishedTen # ls))
        | StatsTicked goroutines alloc now \<Rightarrow>
            (case robustness_loop g0 m0 startTime rounds cli1 of
               (cli2, ls) \<Rightarrow> (cli2, resource_line g0 m0 goroutines alloc now cli1 # ls))
        | FromMsgChan taken_msg \<Rightarrow>
            (case robustness_loop g0 m0 startTime rounds cli1 of
               (cli2, ls) \<Rightarrow> (cli2, (case taken_msg of None \<Rightarrow> [] | Some msg \<Rightarrow> [ReceivedLine (MsgSubject msg) (MsgData msg)]) @ ls)))"

record robust_result =
  rr_lines :: "robust_line list"
  rr_final :: robust_line
  rr_verdict :: "bool \<times> bool"
  rr_client :: client
  rr_deferred :: "client option"

text \<open>The main function; the numbers of goroutines and of allocated bytes at the start and at the end are given.\<close>

definition robustness_main :: "int \<Rightarrow> 64 word \<Rightarrow> int \<Rightarrow> 64 word \<Rightarrow> (int \<times> message list \<times> robust_event) list \<Rightarrow>
    'block world \<Rightarrow> sample_fatal + robust_result" where
  "robustness_main g0 m0 g1 m1 rounds w =
     (case sample_connect (w_env w) (w_NewAES w) (w_dialed w) (w_now w) (w_subHeap w) (w_ackHeap w) ''208.81.129.186:4000'' of
        Inl err \<Rightarrow> Inl err
      | Inr cli \<Rightarrow>
          (case SubscribeChanWithContext (background \<circ> w_attempts w) ''test.robustness.>'' 100 cli of
             (_, _, Inl err) \<Rightarrow> Inl (CannotSubscribe err)
           | (cli1, msgChan', Inr sub) \<Rightarrow>
               (case robustness_loop g0 m0 (w_now w) rounds cli1 of
                  (cli2, ls) \<Rightarrow>
                    Inr \<lparr>rr_lines = ls, rr_final = resource_line g0 m0 g1 m1 (w_later w) cli2,
                         rr_verdict = robustness_verdict g0 g1 m0 m1, rr_client = cli2,
                         rr_deferred = deferred (w_unsubErr w) (w_closeErr w) sub cli2\<rparr>)))"

section \<open>The channel test\<close>

text \<open>
  \<open>testChannelSubscription\<close>: a goroutine publishes three messages with contexts of their own while the
  loop takes messages from the channel until there are three or the timer fires. The result is the count,
  \<^const>\<open>None\<close> while it still waits, the client then, and the client after the deferred calls.
\<close>

fun publish_channel :: "nat \<Rightarrow> (nat \<Rightarrow> string option) \<Rightarrow> (nat \<Rightarrow> string option) \<Rightarrow> client \<Rightarrow> client" where
  "publish_channel 0 ctxErrs writes cli = cli"
| "publish_channel (Suc n) ctxErrs writes cli =
     fst (PublishWithContext (ctxErrs n) (writes n) ''test.channel.msg'' (numbered (Suc n))
       (publish_channel n ctxErrs writes cli))"

definition testChannelSubscription :: "(nat \<Rightarrow> string option) \<Rightarrow> channel_select list \<Rightarrow> 'block world \<Rightarrow>
    sample_fatal + nat option \<times> client \<times> client option" where
  "testChannelSubscription ctxErrs sels w =
     (case test_connect w of
        Inl err \<Rightarrow> Inl err
      | Inr cli \<Rightarrow>
          (case SubscribeChan (w_attempts w) ''test.channel.*'' 10 cli of
             (_, _, Inl err) \<Rightarrow> Inl (CannotSubscribe err)
           | (cli1, msgChan', Inr sub) \<Rightarrow>
               let cli2 = publish_channel 3 ctxErrs (w_writes w) cli1;
                   cli3 = fold (handleMessage (w_later w)) (w_received w) cli2
               in Inr (channel_count sels 0, cli3, deferred (w_unsubErr w) (w_closeErr w) sub cli3)))"

section \<open>The load test counts\<close>

fun ticks_of :: "perf_event list \<Rightarrow> nat" where
  "ticks_of [] = 0"
| "ticks_of (FrameTick now e # es) = Suc (ticks_of es)"
| "ticks_of (e # es) = ticks_of es"

fun deliveries_of :: "perf_event list \<Rightarrow> client_message list" where
  "deliveries_of [] = []"
| "deliveries_of (Delivered now m # es) = m # deliveries_of es"
| "deliveries_of (e # es) = deliveries_of es"

lemma perf_events_count:
  assumes "perf_events config es st = Some st'"
  shows "TotalMessages (run_stats st') = TotalMessages (run_stats st) + of_nat (length (deliveries_of es)) \<and>
    TotalBytes (run_stats st') = TotalBytes (run_stats st) + sum_list (map (\<lambda>m. of_nat (length (MsgData m))) (deliveries_of es)) \<and>
    frameNum (run_pub st') = frameNum (run_pub st) + int (ticks_of es) \<and>
    PublishedCount (run_pub st') + ErrorCount (run_stats st') =
      PublishedCount (run_pub st) + ErrorCount (run_stats st) + of_nat (ticks_of es)"
  using assms
proof (induction es arbitrary: st)
  case (Cons e es)
  obtain st1 where s: "perf_event_step config e st = Some st1" and r: "perf_events config es st1 = Some st'"
    using Cons.prems by (auto split: option.splits)
  show ?case
  proof (cases e)
    case (FrameTick now err)
    then show ?thesis
      using Cons.IH [OF r] s
      by (auto simp: publish_tick_def RecordError_def Let_def split: option.splits prod.splits)
  next
    case (Delivered now m)
    then show ?thesis
      using Cons.IH [OF r] s
      by (auto simp: perf_callback_def RecordMessage_def Let_def split: option.splits prod.splits if_splits)
  next
    case (StatsPrinted now)
    then show ?thesis using Cons.IH [OF r] s by (auto split: option.splits)
  qed
qed simp

lemma perf_events_run:
  assumes "6 \<le> ScenarioSize config" and "\<And>m. m \<in> set (deliveries_of es) \<Longrightarrow> 8 \<le> length (MsgData m)"
  shows "\<exists>st'. perf_events config es st = Some st'"
  using assms(2)
proof (induction es arbitrary: st)
  case (Cons e es)
  have "\<exists>st1. perf_event_step config e st = Some st1"
  proof (cases e)
    case (FrameTick now err)
    obtain frame where "generateH264Frame (ScenarioSize config) (frameNum (run_pub st) + 1) = Some frame"
      using generate_length [OF assms(1)] by blast
    then show ?thesis using FrameTick by (auto simp: publish_tick_def Let_def split: option.splits prod.splits)
  next
    case (Delivered now m)
    then show ?thesis using Cons.prems [of m] by (simp add: perf_callback_def Let_def)
  qed auto
  moreover have "\<exists>st'. perf_events config es st1 = Some st'" for st1
    using Cons.IH Cons.prems by (cases e) auto
  ultimately show ?case by auto
qed simp

lemma perf_run_events:
  assumes "runPerformanceTest w ws es config = Some (Inr (rep, st, left))"
  shows "\<exists>cli st0. perf_events config es \<lparr>run_cli = cli, run_pub = \<lparr>frameNum = 0, PublishedCount = 0, PublishedBytes = 0\<rparr>,
      run_stats = new_stats (w_now w), run_lines = []\<rparr> = Some st0 \<and>
    st = st0\<lparr>run_cli := fst (client_Close (w_closeErr w) (run_cli st0))\<rparr> \<and>
    rep = printFinalStats (w_later w) (run_stats st) (run_pub st) config"
  using assms unfolding runPerformanceTest_def Let_def
  by (simp split: sum.splits option.splits) fastforce

lemma perf_main_config:
  assumes "perf_main Atoi args w ws es = Some (Inr res)"
  shows "\<exists>config. runPerformanceTest w ws es config = Some (Inr res) \<and> 1024 \<le> ScenarioSize config"
proof -
  obtain config where c: "scenarios (args ! 1) = Some config"
    using assms by (auto simp: perf_main_def split: if_splits option.splits)
  let ?config = "override_count (if length args > 2 then Atoi (args ! 2) else None) config"
  have "runPerformanceTest w ws es ?config = Some (Inr res)"
    using assms c by (simp add: perf_main_def Let_def split: if_splits option.splits sum.splits)
  moreover have "1024 \<le> ScenarioSize ?config"
    using scenario_sizes [OF c] by (simp add: override_count_def split: option.splits)
  ultimately show ?thesis by blast
qed

lemma perf_main_runs:
  assumes "\<And>m. m \<in> set (deliveries_of es) \<Longrightarrow> 8 \<le> length (MsgData m)"
  shows "perf_main Atoi args w ws es \<noteq> None"
proof (cases "scenarios (args ! 1)")
  case (Some config)
  let ?config = "override_count (if length args > 2 then Atoi (args ! 2) else None) config"
  have "6 \<le> ScenarioSize ?config"
    using scenario_sizes [OF Some] by (simp add: override_count_def split: option.splits)
  note run = perf_events_run [of ?config es, OF this assms]
  have "runPerformanceTest w ws es ?config \<noteq> None"
    unfolding runPerformanceTest_def Let_def
    by (simp split: sum.splits option.splits) (metis run option.distinct(1))
  then show ?thesis using Some by (auto simp: perf_main_def Let_def split: sum.splits option.splits)
qed (simp add: perf_main_def)

section \<open>The round-trip measurement is total\<close>

lemma client_Subscribe_typed:
  assumes "client_typed c"
  shows "client_typed (fst (client_Subscribe envs t c))"
  using assms subscribe_typed
  by (simp add: client_Subscribe_def SubscribeWithContext_def SubscribeWithOptionsContext_def Let_def)

lemma Publish_typed: "client_typed (fst (Publish e t b c)) = client_typed c" "next_sub (fst (Publish e t b c)) = next_sub c"
  by (auto simp: Publish_def PublishWithContext_def Let_def split: option.splits)

lemma ping_loop_client:
  assumes "ping_loop envs i (t, cli) = Some (t', cli')"
  shows "client_typed cli' = client_typed cli \<and> next_sub cli' = next_sub cli"
  using assms
proof (induction envs arbitrary: i t cli)
  case (Cons env envs)
  show ?case
  proof (cases "i < MessageCount t")
    case True
    then obtain t1 cli1 where r: "ping_round env i (t, cli) = Some (t1, cli1)" "ping_loop envs (i + 1) (t1, cli1) = Some (t', cli')"
      using Cons.prems by (auto split: option.splits)
    have "\<exists>e s b. cli1 = fst (Publish e s b cli)"
      using r(1) unfolding ping_round_def
      by (auto simp: Let_def split: option.splits prod.splits list.splits) (metis fst_conv)+
    then show ?thesis using Cons.IH [OF r(2)] by (auto simp: Publish_typed)
  next
    case False
    then show ?thesis using Cons.prems by simp
  qed
qed simp

lemma handle_fold_next: "next_sub (fold (handleMessage now) ms c) = next_sub c"
  using handle_fold_frame [of now ms c] by blast

lemma deferred_runs:
  assumes "client_typed cli" and "sub < next_sub cli"
  shows "\<exists>cli'. deferred unsubErr closeErr sub cli = Some cli' \<and> client_typed cli'"
proof -
  obtain c' e where "Subscription_Unsubscribe unsubErr sub cli = Some (c', e)" "client_typed c'"
    using unsubscribe_returns [OF assms] by blast
  then show ?thesis using close_typed by (simp add: deferred_def)
qed

lemma sample_connect_typed:
  assumes "sample_connect env mk r now sh ah address = Inr cli"
  shows "client_typed cli \<and> client_conn cli"
proof -
  obtain key where c: "ConnectWithContext None mk r now sh ah address key = Inr cli"
    using assms by (auto simp: sample_connect_def Connect_def split: sum.splits)
  show ?thesis using connect_typed [OF c] connect_fields(2) [OF c] by simp
qed

lemma client_Subscribe_sub:
  assumes "client_typed c" and "client_conn c" and "client_Subscribe envs t c = (c', Inr p)"
  shows "client_typed c' \<and> p < next_sub c' \<and> client_conn c'"
proof -
  have w: "client_typed c'" "client_conn c'" "subs c' = subs c @ [p]"
    using client_Subscribe_working [OF assms] by simp_all
  then show ?thesis by (auto simp: client_typed_def client_ok_def)
qed

lemma ping_stats_defined: "ping_printStats t \<noteq> Some None \<and> (ping_printStats t = None \<longleftrightarrow> Results t = [])"
proof (cases "Results t = []")
  case True
  then show ?thesis by (simp add: ping_printStats_def)
next
  case False
  then show ?thesis using ping_report_sound [of t] by auto
qed

section \<open>Properties\<close>


definition quick_world :: "bytes world" where
  "quick_world = \<lparr>w_env = key_env, w_NewAES = Inr, w_dialed = Inr (), w_now = 0, w_subHeap = (\<lambda>p. new_subscription [] 1),
     w_ackHeap = (\<lambda>a. \<lparr>ack_subject = [], acked = False, ackedAt = None, ack_timeout = 0\<rparr>),
     w_attempts = (\<lambda>k. timeout_env), w_writes = (\<lambda>i. None), w_received = [], w_later = 1, w_unsubErr = None, w_closeErr = None\<rparr>"

definition one_delivery :: "perf_event list" where
  "one_delivery = [Delivered 5 \<lparr>MsgSubject = ''video.stream'', MsgData = replicate 8 0\<rparr>]"

lemma quick_key: "mustAES256Key key_env = Inr (replicate 32 0)"
proof -
  have "EncodeToString (replicate 32 0) \<noteq> []" using length_EncodeToString [of "replicate 32 0"] by force
  then show ?thesis unfolding mustAES256Key_def load_key_def key_env_def Decode_Encode by simp
qed

lemma quick_connect:
  "\<exists>cli. Connect (w_NewAES quick_world) (w_dialed quick_world) (w_now quick_world) (w_subHeap quick_world)
     (w_ackHeap quick_world) address (replicate 32 0) = Inr cli"
  by (simp add: quick_world_def Connect_def ConnectWithContext_def newAES256BlockCrypt_def)

lemma quick_perf_run:
  "\<exists>rep st left. perf_main (\<lambda>s. None) [''perf_test'', ''small''] quick_world (\<lambda>i. quick_world) one_delivery = Some (Inr (rep, st, left))"
proof -
  obtain config where c: "scenarios ''small'' = Some config" by (simp add: scenarios_def)
  obtain cli where cli: "Connect (w_NewAES quick_world) (w_dialed quick_world) (w_now quick_world) (w_subHeap quick_world)
      (w_ackHeap quick_world) (perf_addr (w_env quick_world)) (replicate 32 0) = Inr cli"
    using quick_connect by blast
  have k: "mustAES256Key (w_env quick_world) = Inr (replicate 32 0)" using quick_key by (simp add: quick_world_def)
  have "\<exists>st. perf_events config one_delivery x = Some st" for x
    by (simp add: one_delivery_def perf_callback_def Let_def)
  then obtain st where "perf_events config one_delivery \<lparr>run_cli = cli, run_pub = \<lparr>frameNum = 0, PublishedCount = 0, PublishedBytes = 0\<rparr>,
      run_stats = new_stats (w_now quick_world), run_lines = []\<rparr> = Some st" by blast
  then have "\<exists>rep st left. runPerformanceTest quick_world (\<lambda>i. quick_world) one_delivery config = Some (Inr (rep, st, left))"
    unfolding runPerformanceTest_def Let_def k by (simp add: cli)
  then show ?thesis by (auto simp: perf_main_def c override_count_def)
qed



section \<open>The robustness test and the responder\<close>

text \<open>The ticks of the publisher that a run of the robustness test gets to.\<close>

fun ticked :: "int \<Rightarrow> (int \<times> message list \<times> robust_event) list \<Rightarrow> (nat \<Rightarrow> string) list" where
  "ticked startTime [] = []"
| "ticked startTime ((checked, heard, ev) # rounds) =
     (if \<not> checked - startTime < testDuration then []
      else case ev of
          WaitedOut \<Rightarrow> []
        | PublishTicked stamps writes \<Rightarrow> stamps # ticked startTime rounds
        | _ \<Rightarrow> ticked startTime rounds)"

definition calm_round :: "int \<times> message list \<times> robust_event \<Rightarrow> bool" where
  "calm_round rd \<longleftrightarrow> (case rd of (_, _, PublishTicked stamps writes) \<Rightarrow>
     writes = (\<lambda>i. None) \<and> (\<forall>i. length (stamps i) \<le> 64) | _ \<Rightarrow> True)"

fun no_traffic :: "robust_line \<Rightarrow> bool" where
  "no_traffic (ResourceLine g m c sent received) = (sent = 0 \<and> received = 0)"
| "no_traffic l = True"

lemma robustness_loop_spec:
  assumes "client_conn cli" and "\<And>rd. rd \<in> set rounds \<Longrightarrow> calm_round rd"
    and "messagesSent cli = 0" and "messagesReceived cli = 0"
    and "robustness_loop g0 m0 startTime rounds cli = (cli', ls)"
  shows "outgoing cli' = outgoing cli @ concat (map (\<lambda>stamps. map Encode (robustness_messages 10 stamps)) (ticked startTime rounds)) \<and>
    length (filter (\<lambda>l. l = PublishedTen) ls) = length (ticked startTime rounds) \<and>
    (\<forall>l \<in> set ls. no_traffic l) \<and> client_conn cli' \<and> messagesSent cli' = 0 \<and> messagesReceived cli' = 0"
  using assms
proof (induction g0 m0 startTime rounds cli arbitrary: ls rule: robustness_loop.induct)
  case (2 g0 m0 startTime checked heard ev rounds cli)
  define c1 where "c1 = fold (handleMessage checked) heard cli"
  have f: "client_conn c1" "outgoing c1 = outgoing cli" "messagesSent c1 = 0" "messagesReceived c1 = 0"
    using handle_fold_frame [of checked heard cli] core_fold_handle [of checked heard cli] "2.prems"(1,3,4)
    by (simp_all add: c1_def core_def)
  show ?case
  proof (cases "checked - startTime < testDuration")
    case False
    then show ?thesis using "2.prems" by simp
  next
    case True
    show ?thesis
    proof (cases ev)
      case (PublishTicked stamps writes)
      have w: "writes = (\<lambda>i. None)" "\<And>i. length (stamps i) \<le> 64"
        using "2.prems"(2) [of "(checked, heard, ev)"] by (simp_all add: calm_round_def PublishTicked)
      have t: "robustness_tick 10 stamps writes c1 = c1\<lparr>outgoing := outgoing c1 @ map Encode (robustness_messages 10 stamps)\<rparr>"
        using robustness_tick_sent [OF f(1) w(2), of 10] w(1) by simp
      obtain ls' where "robustness_loop g0 m0 startTime rounds (robustness_tick 10 stamps writes c1) = (cli', ls')"
        and "ls = PublishedTen # ls'"
        using "2.prems"(5) True PublishTicked by (auto simp: c1_def [symmetric] Let_def split: prod.splits)
      then show ?thesis
        using "2.IH"(1) [of c1 stamps writes ls'] True PublishTicked "2.prems"(2) f t c1_def by auto
    next
      case (StatsTicked goroutines alloc now)
      obtain ls' where "robustness_loop g0 m0 startTime rounds c1 = (cli', ls')"
        and "ls = resource_line g0 m0 goroutines alloc now c1 # ls'"
        using "2.prems"(5) True StatsTicked by (auto simp: c1_def [symmetric] Let_def split: prod.splits)
      then show ?thesis
        using "2.IH"(2) [of c1 goroutines alloc now ls'] True StatsTicked "2.prems"(2) f c1_def
        by (auto simp: resource_line_def client_GetStats_def Let_def)
    next
      case (FromMsgChan taken_msg)
      obtain ls' where "robustness_loop g0 m0 startTime rounds c1 = (cli', ls')"
        and "ls = (case taken_msg of None \<Rightarrow> [] | Some msg \<Rightarrow> [ReceivedLine (MsgSubject msg) (MsgData msg)]) @ ls'"
        using "2.prems"(5) True FromMsgChan by (auto simp: c1_def [symmetric] Let_def split: prod.splits)
      then show ?thesis
        using "2.IH"(3) [of c1 taken_msg ls'] True FromMsgChan "2.prems"(2) f c1_def by (auto split: option.splits)
    next
      case WaitedOut
      then show ?thesis using "2.prems"(5) True f by (simp add: c1_def [symmetric] Let_def)
    qed
  qed
qed simp

text \<open>
  The report of the whole test: when every write succeeds, it sends ten messages per tick and says so as many
  times, and every line about the traffic, the last one too, has 0 sent and 0 received messages, because no
  code of the client counts them.
\<close>

lemma robustness_reports_zero:
  assumes "robustness_main g0 m0 g1 m1 rounds w = Inr res" and "\<And>rd. rd \<in> set rounds \<Longrightarrow> calm_round rd"
  shows "(\<forall>l \<in> set (rr_final res # rr_lines res). no_traffic l) \<and>
    length (filter (\<lambda>l. l = PublishedTen) (rr_lines res)) = length (ticked (w_now w) rounds) \<and>
    suffix (concat (map (\<lambda>stamps. map Encode (robustness_messages 10 stamps)) (ticked (w_now w) rounds))) (outgoing (rr_client res))"
proof -
  obtain cli cli1 ch sub cli2 ls
    where c: "sample_connect (w_env w) (w_NewAES w) (w_dialed w) (w_now w) (w_subHeap w) (w_ackHeap w) ''208.81.129.186:4000'' = Inr cli"
      and s: "SubscribeChanWithContext (background \<circ> w_attempts w) ''test.robustness.>'' 100 cli = (cli1, ch, Inr sub)"
      and l: "robustness_loop g0 m0 (w_now w) rounds cli1 = (cli2, ls)"
      and res: "rr_lines res = ls" "rr_final res = resource_line g0 m0 g1 m1 (w_later w) cli2" "rr_client res = cli2"
    using assms(1) by (auto simp: robustness_main_def split: sum.splits prod.splits)
  obtain key where k: "ConnectWithContext None (w_NewAES w) (w_dialed w) (w_now w) (w_subHeap w) (w_ackHeap w)
      ''208.81.129.186:4000'' key = Inr cli"
    using c by (auto simp: sample_connect_def Connect_def split: sum.splits)
  have z: "messagesSent cli = 0" "messagesReceived cli = 0" "client_conn cli"
    using k by (auto simp: ConnectWithContext_def split: sum.splits)
  have "subscribe_loop 0 (background \<circ> w_attempts w) ''test.robustness.>'' 100 None cli = (cli1, Inr sub)"
    using s by (auto simp: SubscribeChanWithContext_def SubscribeWithOptionsContext_def Let_def split: prod.splits sum.splits if_splits)
  then have "core cli1 = core cli"
    using core_subscribe_loop [of 0 "background \<circ> w_attempts w" "''test.robustness.>''" 100 None cli] by simp
  then have z1: "messagesSent cli1 = 0" "messagesReceived cli1 = 0" "client_conn cli1"
    using z by (simp_all add: core_def)
  from robustness_loop_spec [OF z1(3) assms(2) z1(1,2) l] show ?thesis
    by (auto simp: res resource_line_def client_GetStats_def Let_def suffix_def)
qed

text \<open>The responder publishes exactly the answers to the pings that it gets, in their order.\<close>

definition answer_fits :: "client_message \<Rightarrow> bool" where
  "answer_fits m \<longleftrightarrow> (case ping_server_callback m of
     None \<Rightarrow> True | Some (t, b) \<Rightarrow> length t \<le> MaxSubjectLen \<and> 3 + length t + length b \<le> MaxBodyLen)"

lemma respond_all_sent:
  assumes "client_conn cli" and "\<forall>(m, e) \<in> set msgs. e = None \<and> answer_fits m"
  shows "outgoing (respond_all msgs cli) = outgoing cli @
    map (\<lambda>(t, b). Encode (NewMessageCmd CmdPub t b)) (List.map_filter (ping_server_callback \<circ> fst) msgs)"
  using assms
proof (induction msgs cli rule: respond_all.induct)
  case (2 m e rest cli)
  show ?case
  proof (cases "ping_server_callback m")
    case None
    then show ?thesis using "2.IH" "2.prems" by (simp add: List.map_filter_simps)
  next
    case (Some tb)
    obtain t b where tb: "tb = (t, b)" by force
    have e: "e = None" using "2.prems"(2) by simp
    have p: "Publish None t b cli = (cli\<lparr>outgoing := outgoing cli @ [Encode (NewMessageCmd CmdPub t b)]\<rparr>, None)"
      using Publish_ok [OF "2.prems"(1)] "2.prems"(2) Some tb by (simp add: answer_fits_def)
    show ?thesis
      using "2.IH" "2.prems" by (simp add: Some tb p e List.map_filter_simps)
  qed
qed (simp add: List.map_filter_simps)

text \<open>
  The channel test always comes to its verdict when its timer fires: it counts three messages at most, and its
  deferred calls return.
\<close>

lemma channel_count_bound: "TimeoutFired \<in> set sels \<Longrightarrow> n < 3 \<Longrightarrow> \<exists>k \<le> 3. channel_count sels n = Some k"
  by (induction sels n rule: channel_count.induct) auto

lemma publish_channel_client:
  "client_typed cli \<Longrightarrow> client_typed (publish_channel n xs writes cli) \<and> next_sub (publish_channel n xs writes cli) = next_sub cli"
  by (induction n) (simp_all add: publish_typed publish_frame)

lemma channel_test_ends:
  assumes "testChannelSubscription ctxErrs sels w = Inr (k, cli, left)" and "TimeoutFired \<in> set sels"
  shows "(\<exists>n \<le> 3. k = Some n) \<and> client_typed cli \<and> left \<noteq> None"
proof -
  obtain cli0 cli1 ch sub where c: "test_connect w = Inr cli0"
      and s: "SubscribeChan (w_attempts w) ''test.channel.*'' 10 cli0 = (cli1, ch, Inr sub)"
      and cli: "cli = fold (handleMessage (w_later w)) (w_received w) (publish_channel 3 ctxErrs (w_writes w) cli1)"
      and k: "k = channel_count sels 0" "left = deferred (w_unsubErr w) (w_closeErr w) sub cli"
    using assms(1) by (auto simp: testChannelSubscription_def Let_def split: sum.splits prod.splits)
  note c0 = test_connect_client [OF c]
  have o: "SubscribeWithOptionsContext (background \<circ> (background \<circ> w_attempts w)) ''test.channel.*'' 10 cli0 = (cli1, Inr sub) \<or>
      SubscribeWithOptionsContext (background \<circ> w_attempts w) ''test.channel.*'' 10 cli0 = (cli1, Inr sub)"
    using s by (auto simp: SubscribeChan_def SubscribeChanWithContext_def Let_def split: prod.splits sum.splits)
  have w: "client_typed cli1 \<and> sub < next_sub cli1"
    using o subscribe_working [OF c0 [THEN conjunct1] c0 [THEN conjunct2, THEN conjunct1]]
    by (auto simp: client_typed_def client_ok_def)
  then have "client_typed cli" "sub < next_sub cli"
    using publish_channel_client handle_fold_typed by (auto simp: cli handle_fold_next)
  then show ?thesis using deferred_runs channel_count_bound [OF assms(2), of 0] k by fastforce
qed

end
