(* ===== verification/Sample_Runs.thy ===== *)
theory Sample_Runs
  imports Program_Runs
begin

text \<open>
  The main functions of the small programs: publisher, subscriber, H.264 subscriber, UDP receiver and the
  suite of feature tests. Their loops never end by themselves; what is modelled is a run up to a
  point, given by the list of ticks, events or reads so far.
\<close>

section \<open>Definitions\<close>

text \<open>The publisher: a tick is its time stamp with the errors of its writes.\<close>

definition publisher_main :: "'block world \<Rightarrow> (string \<times> string option \<times> string option) list \<Rightarrow> sample_fatal + int \<times> client" where
  "publisher_main w ticks =
     (case sample_connect (w_env w) (w_NewAES w) (w_dialed w) (w_now w) (w_subHeap w) (w_ackHeap w) ''localhost:4000'' of
        Inl err \<Rightarrow> Inl err
      | Inr cli \<Rightarrow> Inr (fold (\<lambda>(stamp, err1, err2). publisher_tick stamp err1 err2) ticks (0, cli)))"

text \<open>
  The subscriber: messages arrive, the statistics are printed now and then, and the deferred calls run after
  the signal.
\<close>

datatype watch_event = Hears int message | PrintsStats int

fun watch :: "watch_event list \<Rightarrow> client \<Rightarrow> client \<times> nat list" where
  "watch [] cli = (cli, [])"
| "watch (Hears now m # es) cli = watch es (handleMessage now m cli)"
| "watch (PrintsStats now # es) cli =
     (case watch es cli of (cli', ns) \<Rightarrow> (cli', ActiveSubscriptions (client_GetStats now cli) # ns))"

definition subscriber_main :: "'block world \<Rightarrow> (nat \<Rightarrow> nat \<Rightarrow> attempt_env) \<Rightarrow> (nat \<Rightarrow> string option) \<Rightarrow> watch_event list \<Rightarrow>
    sample_fatal + nat list \<times> client option" where
  "subscriber_main w envs unsubErrs es =
     (case subscriber_start (w_env w) (w_NewAES w) (w_dialed w) (w_now w) (w_subHeap w) (w_ackHeap w) envs of
        Inl err \<Rightarrow> Inl err
      | Inr (cli, testSub, fooSub, allTestSub) \<Rightarrow>
          (case watch es cli of (cli1, ns) \<Rightarrow>
             Inr (ns, subscriber_stop unsubErrs (w_closeErr w) (cli1, testSub, fooSub, allTestSub))))"

text \<open>The H.264 subscriber, whose deferred calls run when its channel is closed.\<close>

definition h264_main :: "'block world \<Rightarrow> h264_select list \<Rightarrow>
    sample_fatal + frame_totals \<times> h264_line list \<times> client option" where
  "h264_main w sels =
     (case sample_connect (w_env w) (w_NewAES w) (w_dialed w) (w_now w) (w_subHeap w) (w_ackHeap w) ''208.81.129.186:4000'' of
        Inl err \<Rightarrow> Inl err
      | Inr cli \<Rightarrow>
          (case SubscribeChanWithContext (background \<circ> w_attempts w) ''h264.stream'' 1000 cli of
             (_, _, Inl err) \<Rightarrow> Inl (CannotSubscribe err)
           | (cli1, msgChan', Inr sub) \<Rightarrow>
               (case h264_loop (w_later w) sels h264_start of
                  (totals, ls) \<Rightarrow>
                    Inr (totals, ls, deferred (w_unsubErr w) (w_closeErr w) sub
                      (fold (handleMessage (w_later w)) (w_received w) cli1)))))"

text \<open>The UDP receiver; \<open>socket\<close> is the result of resolving and opening its address.\<close>

definition udp_main :: "string + unit \<Rightarrow> udp_read list \<Rightarrow> string + udp_totals \<times> int list" where
  "udp_main socket rs =
     (case socket of
        Inl err \<Rightarrow> Inl err
      | Inr _ \<Rightarrow> Inr (udp_loop rs udp_start))"

text \<open>The feature tests in their order; \<open>log.Fatalf\<close> in one of them ends the program.\<close>

definition comprehensive_main :: "string option \<Rightarrow> string option \<Rightarrow> (nat \<Rightarrow> string option) \<Rightarrow> channel_select list \<Rightarrow>
    (nat \<Rightarrow> 'block world) \<Rightarrow> sample_fatal +
      (client_error option \<times> bool \<times> client option) \<times> (nat option \<times> client \<times> client option) \<times>
      ((bool \<times> nat) \<times> client \<times> client option) \<times> (client_stats \<times> client \<times> client option)" where
  "comprehensive_main subCtxErr pubCtxErr ctxErrs sels ws =
     (case testContextSupport subCtxErr pubCtxErr (ws 0) of
        Inl err \<Rightarrow> Inl err
      | Inr r1 \<Rightarrow>
          (case testChannelSubscription ctxErrs sels (ws 1) of
             Inl err \<Rightarrow> Inl err
           | Inr r2 \<Rightarrow>
               (case testAutoReconnect (ws 2) of
                  Inl err \<Rightarrow> Inl err
                | Inr r3 \<Rightarrow>
                    (case testStatistics (ws 3) of
                       Inl err \<Rightarrow> Inl err
                     | Inr r4 \<Rightarrow> Inr (r1, r2, r3, r4)))))"

section \<open>The quick start\<close>

text \<open>
  With a connection that works the publisher writes the messages of its ticks and nothing else: one on
  \<open>test.hello\<close> per tick, one on \<open>foo.bar\<close> in every tenth.
\<close>

lemma publisher_main_sends:
  assumes "publisher_main w (map (\<lambda>s. (s, None, None)) stamps) = Inr (n, cli)"
    and "\<forall>s \<in> set stamps. length s \<le> 64" and "length stamps < 1000000"
  shows "n = int (length stamps) \<and> outgoing cli = map Encode (run_messages stamps 1)"
proof -
  obtain c where c: "sample_connect (w_env w) (w_NewAES w) (w_dialed w) (w_now w) (w_subHeap w) (w_ackHeap w) ''localhost:4000'' = Inr c"
    and f: "fold (\<lambda>s. publisher_tick s None None) stamps (0, c) = (n, cli)"
    using assms(1) by (auto simp: publisher_main_def fold_map comp_def split: sum.splits)
  have "outgoing c = []"
    using c by (auto simp: sample_connect_def Connect_def ConnectWithContext_def split: sum.splits)
  then show ?thesis
    using publisher_run_ok [of c stamps 0] sample_connect_typed [OF c] assms(2,3) f by auto
qed

text \<open>
  Whatever the subscriber hears, every line of its statistics says 3 active subscriptions, and its deferred
  calls return.
\<close>

lemma watch_three:
  assumes "client_typed cli" and "subs cli = [t, f, a]"
    and "active (sub_obj cli t)" and "active (sub_obj cli f)" and "active (sub_obj cli a)"
  shows "(\<forall>n \<in> set (snd (watch es cli)). n = 3) \<and> client_typed (fst (watch es cli)) \<and> next_sub (fst (watch es cli)) = next_sub cli"
  using assms
proof (induction es cli rule: watch.induct)
  case (2 now m es cli)
  have "distinct (subs cli)" using "2.prems"(1) by (simp add: client_typed_def client_ok_def)
  note h = handle_sub_frame [OF this, of now m] handle_frame(1,2) [of now m cli]
  show ?case using "2.IH" "2.prems" handle_typed [OF "2.prems"(1)] by (simp add: h)
next
  case (3 now es cli)
  then show ?case by (auto simp: client_GetStats_def Let_def split: prod.splits)
qed simp

lemma subscriber_main_counts:
  assumes "subscriber_main w envs unsubErrs es = Inr (ns, left)"
  shows "(\<forall>n \<in> set ns. n = 3) \<and> left \<noteq> None"
proof -
  obtain cli t f a cli1 where s: "subscriber_start (w_env w) (w_NewAES w) (w_dialed w) (w_now w) (w_subHeap w) (w_ackHeap w) envs =
      Inr (cli, t, f, a)" and watch: "watch es cli = (cli1, ns)"
    and left: "left = subscriber_stop unsubErrs (w_closeErr w) (cli1, t, f, a)"
    using assms by (auto simp: subscriber_main_def split: sum.splits prod.splits)
  note st = subscriber_start_state [OF s]
  have w: "(\<forall>n \<in> set ns. n = 3) \<and> client_typed cli1 \<and> next_sub cli1 = next_sub cli"
    using watch_three [of cli t f a es] st watch by simp
  have "t < next_sub cli" "f < next_sub cli" "a < next_sub cli"
    using st by (auto simp: client_typed_def client_ok_def)
  then show ?thesis using subscriber_stop_returns [of cli1 t f a unsubErrs "w_closeErr w"] w left by auto
qed

text \<open>The two monitors report exactly what they got, as long as the totals fit into 63 bits.\<close>

lemma monitor_mains_count:
  assumes "int (length (frames_of sels)) < 2 ^ 63"
    and "int (sum_list (map (length \<circ> MsgData) (frames_of sels))) < 2 ^ 63"
    and "int (length (datagrams_of rs)) < 2 ^ 63" and "int (sum_list (map length (datagrams_of rs))) < 2 ^ 63"
  shows "(case h264_main w sels of
      Inl err \<Rightarrow> True
    | Inr (totals, ls, left) \<Rightarrow> frameCount totals = int (length (frames_of sels)) \<and>
        frameBytes totals = int (sum_list (map (length \<circ> MsgData) (frames_of sels)))) \<and>
    (case udp_main socket rs of
      Inl err \<Rightarrow> socket = Inl err
    | Inr (totals, shown) \<Rightarrow> totalPackets totals = int (length (datagrams_of rs)) \<and>
        totalBytes totals = int (sum_list (map length (datagrams_of rs))))"
  using monitors_count_exactly [OF assms, of "w_later w"]
  by (auto simp: h264_main_def udp_main_def split: sum.splits prod.splits)

text \<open>The suite of feature tests that completes reports zero traffic at its end, whatever was sent.\<close>

lemma comprehensive_reports_zero:
  assumes "comprehensive_main subCtxErr pubCtxErr ctxErrs sels ws = Inr (r1, r2, r3, stats, rest)"
  shows "MessagesSent stats = 0 \<and> MessagesReceived stats = 0 \<and> BytesSent stats = 0 \<and> BytesReceived stats = 0"
proof -
  have t: "testStatistics (ws 3) = Inr (stats, rest)"
    using assms by (auto simp: comprehensive_main_def split: sum.splits)
  show ?thesis using statistics_test_reports_zero [of "ws 3" stats "fst rest" "snd rest"] t by simp
qed

end
