(* ===== verification/NATS_Forwarder.thy ===== *)
theory NATS_Forwarder
  imports Client_API Config
begin

text \<open>
  The forwarder program \<open>src/examples/kcpq-to-nats\<close>: it subscribes to a subject through the client
  library, strips the time stamp of every message and publishes the rest to NATS. It can receive
  through a channel subscription or through a callback. The NATS connection is a parameter: whether
  connecting and each publish fails; what was published is recorded.
\<close>

section \<open>Configuration\<close>

record forwarder_config_file =
  ff_KCPQServer :: string
  ff_KCPQSubject :: string
  ff_NATSServer :: string
  ff_NATSSubject :: string
  ff_AES256KeyHex :: string
  ff_StatsInterval :: int
  ff_AutoReconnect :: bool
  ff_ReconnectInterval :: int
  ff_UseChannelMode :: bool

record forwarder_config =
  fc_KCPQServer :: string
  fc_KCPQSubject :: string
  fc_NATSServer :: string
  fc_NATSSubject :: string
  fc_AES256KeyHex :: string
  fc_AES256Key :: bytes
  fc_ReconnectDelay :: duration
  fc_StatsInterval :: duration
  fc_AutoReconnect :: bool
  fc_ReconnectInterval :: duration
  fc_UseChannelMode :: bool

definition forwarder_LoadConfig :: "(string \<Rightarrow> string + bytes) \<Rightarrow> (bytes \<Rightarrow> string + forwarder_config_file) \<Rightarrow>
    string \<Rightarrow> fatal + forwarder_config_file" where
  "forwarder_LoadConfig ReadFile Unmarshal path =
     (case read_config ReadFile Unmarshal path of
        Inl err \<Rightarrow> Inl err
      | Inr cfg \<Rightarrow>
          let cfg1 = (if ff_StatsInterval cfg = 0 then cfg\<lparr>ff_StatsInterval := 10\<rparr> else cfg);
              cfg2 = (if ff_ReconnectInterval cfg1 = 0 then cfg1\<lparr>ff_ReconnectInterval := 5\<rparr> else cfg1)
          in Inr cfg2)"

definition ToForwarderConfig :: "forwarder_config_file \<Rightarrow> forwarder_config" where
  "ToForwarderConfig c =
     \<lparr>fc_KCPQServer = ff_KCPQServer c, fc_KCPQSubject = ff_KCPQSubject c, fc_NATSServer = ff_NATSServer c,
      fc_NATSSubject = ff_NATSSubject c, fc_AES256KeyHex = ff_AES256KeyHex c, fc_AES256Key = [],
      fc_ReconnectDelay = seconds 3, fc_StatsInterval = seconds (ff_StatsInterval c),
      fc_AutoReconnect = ff_AutoReconnect c, fc_ReconnectInterval = seconds (ff_ReconnectInterval c),
      fc_UseChannelMode = ff_UseChannelMode c\<rparr>"

definition forwarder_defaults :: forwarder_config where
  "forwarder_defaults =
     \<lparr>fc_KCPQServer = ''208.81.129.186:4000'', fc_KCPQSubject = ''h264.stream'',
      fc_NATSServer = ''nats://cctv.mba:4222'', fc_NATSSubject = ''h264.stream'', fc_AES256KeyHex = '''',
      fc_AES256Key = [], fc_ReconnectDelay = seconds 3, fc_StatsInterval = seconds 10, fc_AutoReconnect = True,
      fc_ReconnectInterval = seconds 5, fc_UseChannelMode = True\<rparr>"

definition forwarder_settings :: "(string \<Rightarrow> string + bytes) \<Rightarrow> (bytes \<Rightarrow> string + forwarder_config_file) \<Rightarrow>
    string \<Rightarrow> bool \<Rightarrow> environment \<Rightarrow> fatal + forwarder_config" where
  "forwarder_settings ReadFile Unmarshal flagPath statOk env =
     (let cfgPath = config_path flagPath statOk
      in case (if cfgPath \<noteq> '''' then
                 case forwarder_LoadConfig ReadFile Unmarshal cfgPath of
                   Inl err \<Rightarrow> Inl err
                 | Inr cfgFile \<Rightarrow> Inr (ToForwarderConfig cfgFile)
               else Inr forwarder_defaults) of
           Inl err \<Rightarrow> Inl err
         | Inr config \<Rightarrow>
             let c1 = config\<lparr>fc_KCPQServer := override env ''KCPQ_SERVER'' (fc_KCPQServer config)\<rparr>;
                 c2 = c1\<lparr>fc_KCPQSubject := override env ''KCPQ_SUBJECT'' (fc_KCPQSubject c1)\<rparr>;
                 c3 = c2\<lparr>fc_NATSServer := override env ''NATS_SERVER'' (fc_NATSServer c2)\<rparr>;
                 c4 = c3\<lparr>fc_NATSSubject := override env ''NATS_SUBJECT'' (fc_NATSSubject c3)\<rparr>;
                 c5 = c4\<lparr>fc_AES256KeyHex := override env ''KCPQ_AES256_KEY_HEX'' (fc_AES256KeyHex c4)\<rparr>
             in (case load_key (fc_AES256KeyHex c5) of
                   Inl err \<Rightarrow> Inl err
                 | Inr key \<Rightarrow> Inr (c5\<lparr>fc_AES256Key := key\<rparr>)))"

section \<open>State and start\<close>

record forwarder_stats =
  f_TotalFrames :: "64 word"
  f_TotalBytes :: "64 word"
  f_ErrorCount :: "64 word"
  f_StartTime :: int

text \<open>The struct. \<open>f_published\<close> records what was published to NATS: subject and data.\<close>

record forwarder =
  f_config :: forwarder_config
  f_stats :: forwarder_stats
  f_kcpClient :: "client option"
  f_natsConn :: bool
  f_nats_closed :: bool
  f_subscription :: "ptr option"
  f_msgChan :: "client_message chan option"
  f_ctx_done :: bool
  f_published :: "(string \<times> bytes) list"

definition NewForwarder :: "int \<Rightarrow> forwarder_config \<Rightarrow> forwarder" where
  "NewForwarder now config =
     \<lparr>f_config = config,
      f_stats = \<lparr>f_TotalFrames = 0, f_TotalBytes = 0, f_ErrorCount = 0, f_StartTime = now\<rparr>,
      f_kcpClient = None, f_natsConn = False, f_nats_closed = False, f_subscription = None, f_msgChan = None,
      f_ctx_done = False, f_published = []\<rparr>"

datatype forwarder_error = ForwarderKeyLength nat | ForwarderClient client_error | ForwarderNats string

definition forwarder_connectToKCPQ :: "(bytes \<Rightarrow> string + 'block) \<Rightarrow> string + unit \<Rightarrow> int \<Rightarrow>
    (ptr \<Rightarrow> subscription) \<Rightarrow> (ptr \<Rightarrow> subscriptionACK) \<Rightarrow> forwarder \<Rightarrow> forwarder \<times> forwarder_error option" where
  "forwarder_connectToKCPQ NewAESBlockCrypt dialed now subHeap ackHeap f =
     (let cfg = f_config f in
      if length (fc_AES256Key cfg) \<noteq> 32 then (f, Some (ForwarderKeyLength (length (fc_AES256Key cfg))))
      else case ConnectWithContext (ctx_err (f_ctx_done f)) NewAESBlockCrypt dialed now subHeap ackHeap
               (fc_KCPQServer cfg) (fc_AES256Key cfg) of
          Inl err \<Rightarrow> (f, Some (ForwarderClient err))
        | Inr cli \<Rightarrow>
            let f1 = f\<lparr>f_kcpClient := Some cli\<rparr>
            in if fc_AutoReconnect cfg then
                 let interval = (if fc_ReconnectInterval cfg = 0 then seconds 5 else fc_ReconnectInterval cfg)
                 in (f1\<lparr>f_kcpClient := Some (EnableAutoReconnect interval cli)\<rparr>, None)
               else (f1, None))"

definition connectToNATS :: "string option \<Rightarrow> forwarder \<Rightarrow> forwarder \<times> forwarder_error option" where
  "connectToNATS natsErr f =
     (case natsErr of
        Some err \<Rightarrow> (f, Some (ForwarderNats err))
      | None \<Rightarrow> (f\<lparr>f_natsConn := True\<rparr>, None))"

text \<open>
  \<open>subscribeKCPQ\<close>, in channel mode or with the callback. It runs after the connection was made; on a
  nil client it would panic (\<^const>\<open>None\<close>).
\<close>

definition subscribeKCPQ :: "(nat \<Rightarrow> attempt_env) \<Rightarrow> forwarder \<Rightarrow> (forwarder \<times> forwarder_error option) option" where
  "subscribeKCPQ envs f =
     (case f_kcpClient f of
        None \<Rightarrow> None
      | Some cli \<Rightarrow>
          if fc_UseChannelMode (f_config f) then
            (case SubscribeChanWithContext envs (fc_KCPQSubject (f_config f)) 1000 cli of
               (cli', _, Inl err) \<Rightarrow> Some (f\<lparr>f_kcpClient := Some cli'\<rparr>, Some (ForwarderClient err))
             | (cli', ch, Inr sub) \<Rightarrow>
                 Some (f\<lparr>f_kcpClient := Some cli', f_msgChan := Some ch, f_subscription := Some sub\<rparr>, None))
          else
            (case SubscribeWithContext (ctx_err (f_ctx_done f)) envs (fc_KCPQSubject (f_config f)) cli of
               (cli', Inl err) \<Rightarrow> Some (f\<lparr>f_kcpClient := Some cli'\<rparr>, Some (ForwarderClient err))
             | (cli', Inr sub) \<Rightarrow> Some (f\<lparr>f_kcpClient := Some cli', f_subscription := Some sub\<rparr>, None)))"

definition forwarder_Start :: "(bytes \<Rightarrow> string + 'block) \<Rightarrow> string + unit \<Rightarrow> int \<Rightarrow>
    (ptr \<Rightarrow> subscription) \<Rightarrow> (ptr \<Rightarrow> subscriptionACK) \<Rightarrow> string option \<Rightarrow> (nat \<Rightarrow> attempt_env) \<Rightarrow>
    forwarder \<Rightarrow> (forwarder \<times> forwarder_error option) option" where
  "forwarder_Start NewAESBlockCrypt dialed now subHeap ackHeap natsErr envs f =
     (case forwarder_connectToKCPQ NewAESBlockCrypt dialed now subHeap ackHeap f of
        (f1, Some err) \<Rightarrow> Some (f1, Some err)
      | (f1, None) \<Rightarrow>
          (case connectToNATS natsErr f1 of
             (f2, Some err) \<Rightarrow> Some (f2, Some err)
           | (f2, None) \<Rightarrow> subscribeKCPQ envs f2))"

definition forwarder_statsPrinter :: "forwarder \<Rightarrow> int option" where
  "forwarder_statsPrinter f = NewTicker (fc_StatsInterval (f_config f))"

section \<open>Handling messages\<close>

text \<open>\<open>handleMessage\<close>; the argument \<open>natsErr\<close> is the error of the publish to NATS, if it fails.\<close>

definition forwarder_handleMessage :: "string option \<Rightarrow> client_message \<Rightarrow> forwarder \<Rightarrow> forwarder" where
  "forwarder_handleMessage natsErr msg f =
     (if length (MsgData msg) < 8
      then f\<lparr>f_stats := (f_stats f)\<lparr>f_ErrorCount := f_ErrorCount (f_stats f) + 1\<rparr>\<rparr>
      else
        let h264Data = drop 8 (MsgData msg) in
        case natsErr of
          Some err \<Rightarrow> f\<lparr>f_stats := (f_stats f)\<lparr>f_ErrorCount := f_ErrorCount (f_stats f) + 1\<rparr>\<rparr>
        | None \<Rightarrow>
            f\<lparr>f_published := f_published f @ [(fc_NATSSubject (f_config f), h264Data)],
              f_stats := (f_stats f)\<lparr>f_TotalFrames := f_TotalFrames (f_stats f) + 1,
                f_TotalBytes := f_TotalBytes (f_stats f) + of_nat (length h264Data)\<rparr>\<rparr>)"

text \<open>
  One round of \<open>handleMessagesFromChannel\<close>: with both the context done and a message there, the
  \<open>select\<close> takes either (\<open>preferCtx\<close>). The round waits, ends the goroutine, or goes on.
\<close>

datatype handler_round = HandlerWaits | HandlerStopped | HandlerRan forwarder

definition handleMessagesFromChannel_body :: "bool \<Rightarrow> string option \<Rightarrow> forwarder \<Rightarrow> handler_round" where
  "handleMessagesFromChannel_body preferCtx natsErr f =
     (case f_msgChan f of
        None \<Rightarrow> if f_ctx_done f then HandlerStopped else HandlerWaits
      | Some ch \<Rightarrow>
          (case try_recv ch of
             Some (msg, ch') \<Rightarrow>
               if f_ctx_done f \<and> preferCtx then HandlerStopped
               else HandlerRan (forwarder_handleMessage natsErr msg (f\<lparr>f_msgChan := Some ch'\<rparr>))
           | None \<Rightarrow> if f_ctx_done f \<or> chan_closed ch then HandlerStopped else HandlerWaits))"

text \<open>
  What the subscription's goroutine does with the messages it handles: it passes them to
  \<open>handleMessage\<close>, or in channel mode to the closure of \<open>SubscribeChanWithContext\<close>.
\<close>

definition run_callback :: "string option \<Rightarrow> client_message \<Rightarrow> forwarder \<Rightarrow> forwarder" where
  "run_callback natsErr msg f =
     (if fc_UseChannelMode (f_config f)
      then f\<lparr>f_msgChan := map_option (\<lambda>ch. fst (try_send msg ch)) (f_msgChan f)\<rparr>
      else forwarder_handleMessage natsErr msg f)"

fun run_callbacks :: "(nat \<Rightarrow> string option) \<Rightarrow> nat \<Rightarrow> client_message list \<Rightarrow> forwarder \<Rightarrow> forwarder" where
  "run_callbacks natsErr k [] f = f"
| "run_callbacks natsErr k (m # ms) f = run_callbacks natsErr (Suc k) ms (run_callback (natsErr k) m f)"

section \<open>Statistics and shutdown\<close>

definition forwarder_printStats :: "int \<Rightarrow> forwarder \<Rightarrow> (rates \<times> client_stats option) option" where
  "forwarder_printStats now f =
     (let st = f_stats f in
      case stats_rates (f_TotalFrames st) (f_TotalBytes st) (f_ErrorCount st) (now - f_StartTime st) of
        None \<Rightarrow> None
      | Some rt \<Rightarrow> Some (rt, map_option (client_GetStats now) (f_kcpClient f)))"

text \<open>
  \<open>Stop\<close>: \<open>Unsubscribe\<close> waits for the subscription's goroutine, which runs the callback on the queued
  messages; then the client and the NATS connection are closed. The client's context is a child of
  the forwarder's. A panic of \<open>Unsubscribe\<close> is \<^const>\<open>None\<close>.
\<close>

definition forwarder_unsubscribe :: "(nat \<Rightarrow> string option) \<Rightarrow> string option \<Rightarrow> forwarder \<Rightarrow> forwarder option" where
  "forwarder_unsubscribe natsErr writeErr f =
     (case (f_subscription f, f_kcpClient f) of
        (Some p, Some cli) \<Rightarrow>
          (case Subscription_Unsubscribe writeErr p cli of
             None \<Rightarrow> None
           | Some (cli', _) \<Rightarrow>
               let new = drop (length (handled (sub_obj cli p))) (handled (sub_obj cli' p))
               in Some (run_callbacks natsErr 0 new (f\<lparr>f_kcpClient := Some cli'\<rparr>)))
      | _ \<Rightarrow> Some f)"

definition forwarder_Stop :: "(nat \<Rightarrow> string option) \<Rightarrow> string option \<Rightarrow> string option \<Rightarrow> forwarder \<Rightarrow>
    forwarder option" where
  "forwarder_Stop natsErr writeErr closeErr f =
     (let f1 = f\<lparr>f_ctx_done := True,
                 f_kcpClient := map_option (\<lambda>c. c\<lparr>ctx_done := True\<rparr>) (f_kcpClient f)\<rparr>
      in case forwarder_unsubscribe natsErr writeErr f1 of
           None \<Rightarrow> None
         | Some f2 \<Rightarrow>
             let f3 = f2\<lparr>f_kcpClient := map_option (\<lambda>c. fst (client_Close closeErr c)) (f_kcpClient f2)\<rparr>
             in Some (if f_natsConn f3 then f3\<lparr>f_nats_closed := True\<rparr> else f3))"

section \<open>Lemmas\<close>

text \<open>What the forwarder publishes for a list of numbered messages.\<close>

definition forwards :: "(nat \<Rightarrow> string option) \<Rightarrow> nat \<times> client_message \<Rightarrow> bool" where
  "forwards natsErr e = (8 \<le> length (MsgData (snd e)) \<and> natsErr (fst e) = None)"

definition forwarded :: "string \<Rightarrow> (nat \<Rightarrow> string option) \<Rightarrow> nat \<Rightarrow> client_message list \<Rightarrow> (string \<times> bytes) list" where
  "forwarded subj natsErr k ms =
     map (\<lambda>e. (subj, drop 8 (MsgData (snd e)))) (filter (forwards natsErr) (enumerate k ms))"

lemma handle_published:
  "f_published (forwarder_handleMessage (natsErr k) m f) =
     f_published f @ forwarded (fc_NATSSubject (f_config f)) natsErr k [m]"
  "f_config (forwarder_handleMessage e m f) = f_config f"
  "f_natsConn (forwarder_handleMessage e m f) = f_natsConn f"
  "f_kcpClient (forwarder_handleMessage e m f) = f_kcpClient f"
  by (auto simp: forwarder_handleMessage_def forwarded_def forwards_def Let_def split: option.splits)

lemma handle_counts:
  fixes m :: client_message and f :: forwarder and natsErr :: "nat \<Rightarrow> string option" and k :: nat
  defines "f' \<equiv> forwarder_handleMessage (natsErr k) m f"
  shows "f_TotalFrames (f_stats f') + f_ErrorCount (f_stats f') =
      f_TotalFrames (f_stats f) + f_ErrorCount (f_stats f) + 1 \<and>
    f_TotalFrames (f_stats f') = f_TotalFrames (f_stats f) + of_nat (length (forwarded subj natsErr k [m]))"
  unfolding f'_def
  by (auto simp: forwarder_handleMessage_def forwarded_def forwards_def Let_def split: option.splits)

lemma forwarded_Cons: "forwarded subj natsErr k (m # ms) = forwarded subj natsErr k [m] @ forwarded subj natsErr (Suc k) ms"
  by (simp add: forwarded_def)

lemma run_callbacks_published:
  fixes natsErr :: "nat \<Rightarrow> string option" and k :: nat and ms :: "client_message list"
  assumes "\<not> fc_UseChannelMode (f_config f)"
  defines "f' \<equiv> run_callbacks natsErr k ms f"
  shows "f_published f' = f_published f @ forwarded (fc_NATSSubject (f_config f)) natsErr k ms \<and>
    f_TotalFrames (f_stats f') + f_ErrorCount (f_stats f') =
      f_TotalFrames (f_stats f) + f_ErrorCount (f_stats f) + of_nat (length ms) \<and>
    f_TotalFrames (f_stats f') = f_TotalFrames (f_stats f) +
      of_nat (length (forwarded (fc_NATSSubject (f_config f)) natsErr k ms)) \<and>
    f_kcpClient f' = f_kcpClient f \<and> f_natsConn f' = f_natsConn f"
  using assms(1) unfolding f'_def
proof (induction ms arbitrary: k f)
  case Nil
  then show ?case by (simp add: forwarded_def)
next
  case (Cons m ms)
  let ?f1 = "forwarder_handleMessage (natsErr k) m f"
  have r: "run_callback (natsErr k) m f = ?f1" using Cons.prems by (simp add: run_callback_def)
  have c: "\<not> fc_UseChannelMode (f_config ?f1)" using Cons.prems by (simp add: handle_published)
  note ih = Cons.IH [OF c, of "Suc k"]
  note hc = handle_counts [of natsErr k m f "fc_NATSSubject (f_config f)"]
  let ?f2 = "run_callbacks natsErr (Suc k) ms ?f1"
  have sum: "f_TotalFrames (f_stats ?f2) + f_ErrorCount (f_stats ?f2) =
      f_TotalFrames (f_stats f) + f_ErrorCount (f_stats f) + of_nat (length (m # ms))"
    unfolding ih [THEN conjunct2, THEN conjunct1] hc [THEN conjunct1] by simp
  have frames: "f_TotalFrames (f_stats ?f2) = f_TotalFrames (f_stats f) +
      of_nat (length (forwarded (fc_NATSSubject (f_config f)) natsErr k (m # ms)))"
    unfolding ih [THEN conjunct2, THEN conjunct2, THEN conjunct1] hc [THEN conjunct2]
    by (simp add: handle_published forwarded_Cons [of _ natsErr k m ms])
  have "f_published ?f2 = f_published f @ forwarded (fc_NATSSubject (f_config f)) natsErr k (m # ms) \<and>
      f_kcpClient ?f2 = f_kcpClient f \<and> f_natsConn ?f2 = f_natsConn f"
    using ih by (simp add: handle_published forwarded_Cons [of _ natsErr k m ms])
  with sum frames show ?case
    unfolding run_callbacks.simps r by blast
qed

lemma forwarded_all:
  "(\<And>k. natsErr k = None) \<Longrightarrow> forwarded subj natsErr k ms =
     map (\<lambda>m. (subj, drop 8 (MsgData m))) (filter (\<lambda>m. 8 \<le> length (MsgData m)) ms)"
proof (induction ms arbitrary: k)
  case (Cons m ms)
  then show ?case by (simp add: forwarded_Cons [of _ _ k m ms]) (simp add: forwarded_def forwards_def)
qed (simp add: forwarded_def)

lemma run_callbacks_channel:
  fixes natsErr :: "nat \<Rightarrow> string option" and k :: nat and ms :: "client_message list"
  assumes "fc_UseChannelMode (f_config f)" and "f_msgChan f = Some ch" and "\<not> chan_closed ch" and "chan_ok ch"
  defines "f' \<equiv> run_callbacks natsErr k ms f"
  shows "f_published f' = f_published f \<and> f_kcpClient f' = f_kcpClient f \<and> f_natsConn f' = f_natsConn f \<and>
    f_ctx_done f' = f_ctx_done f \<and>
    (\<exists>ch'. f_msgChan f' = Some ch' \<and>
       chan_buf ch' = chan_buf ch @ take (chan_cap ch - length (chan_buf ch)) ms)"
  using assms(1-4) unfolding f'_def
proof (induction ms arbitrary: k f ch)
  case (Cons m ms)
  let ?f1 = "f\<lparr>f_msgChan := Some (fst (try_send m ch))\<rparr>"
  have r: "run_callback (natsErr k) m f = ?f1" using Cons.prems by (simp add: run_callback_def)
  have c: "\<not> chan_closed (fst (try_send m ch))" "chan_ok (fst (try_send m ch))"
    using Cons.prems by (simp_all add: try_send_def chan_ok_def)
  show ?case
    using Cons.IH [of ?f1 "fst (try_send m ch)" "Suc k"] Cons.prems c
    by (cases "length (chan_buf ch) < chan_cap ch") (auto simp: r try_send_def chan_ok_def take_Cons')
qed simp

text \<open>\<open>Unsubscribe\<close> of a working subscription passes exactly the waiting messages to the callback.\<close>

definition working :: "client \<Rightarrow> ptr \<Rightarrow> bool" where
  "working cli p \<longleftrightarrow> active (sub_obj cli p) \<and> processing (sub_obj cli p) \<and> \<not> sub_closeOnce (sub_obj cli p) \<and>
     \<not> chan_closed (msgChan (sub_obj cli p))"

lemma unsubscribe_handled:
  assumes "working cli p"
  shows "\<exists>cli' e. Subscription_Unsubscribe writeErr p cli = Some (cli', e) \<and>
    handled (sub_obj cli' p) = handled (sub_obj cli p) @ waiting (sub_obj cli p)"
proof -
  let ?s = "close_msgChan (sub_obj cli p\<lparr>sub_closeOnce := True, active := False\<rparr>)"
  have "handled (drain ?s) = handled (sub_obj cli p) @ waiting (sub_obj cli p)"
    using drain_closed [of ?s] assms by (simp add: close_msgChan_def working_def)
  then show ?thesis
    using assms by (auto simp: Subscription_Unsubscribe_def working_def on_sub_def removeSubscription_def Let_def
        split: option.splits)
qed

lemma stop_eq:
  assumes "f_subscription f = Some p" and "f_kcpClient f = Some cli" and "working cli p"
  shows "\<exists>cli'. forwarder_Stop natsErr writeErr closeErr f =
    (let f2 = run_callbacks natsErr 0 (waiting (sub_obj cli p)) (f\<lparr>f_ctx_done := True, f_kcpClient := Some cli'\<rparr>);
         f3 = f2\<lparr>f_kcpClient := map_option (\<lambda>c. fst (client_Close closeErr c)) (f_kcpClient f2)\<rparr>
     in Some (if f_natsConn f3 then f3\<lparr>f_nats_closed := True\<rparr> else f3))"
proof -
  have "working (cli\<lparr>ctx_done := True\<rparr>) p" using assms(3) by (simp add: working_def)
  from unsubscribe_handled [OF this, of writeErr] obtain cli' e where
    "Subscription_Unsubscribe writeErr p (cli\<lparr>ctx_done := True\<rparr>) = Some (cli', e)"
    "handled (sub_obj cli' p) = handled (sub_obj cli p) @ waiting (sub_obj cli p)" by auto
  then show ?thesis
    using assms(1,2) by (intro exI [of _ cli']) (simp add: forwarder_Stop_def forwarder_unsubscribe_def Let_def)
qed

section \<open>Properties\<close>

text \<open>The forwarder passes frames on unchanged and in order: of the messages handed to its callback
  it publishes, in that order, the data after the time stamp of exactly those that have one and
  whose publish succeeds; frames and errors together grow by the number of messages, and the frames
  counted are those published (modulo \<open>2 ^ 64\<close>).\<close>

lemma forwarder_forwards_in_order:
  fixes natsErr :: "nat \<Rightarrow> string option" and ms :: "client_message list"
  assumes "\<not> fc_UseChannelMode (f_config f)"
  defines "f' \<equiv> run_callbacks natsErr 0 ms f"
  shows "f_published f' = f_published f @
      map (\<lambda>e. (fc_NATSSubject (f_config f), drop 8 (MsgData (snd e))))
        (filter (\<lambda>e. 8 \<le> length (MsgData (snd e)) \<and> natsErr (fst e) = None) (enumerate 0 ms)) \<and>
    f_TotalFrames (f_stats f') + f_ErrorCount (f_stats f') =
      f_TotalFrames (f_stats f) + f_ErrorCount (f_stats f) + of_nat (length ms) \<and>
    f_TotalFrames (f_stats f') - f_TotalFrames (f_stats f) =
      of_nat (length (f_published f') - length (f_published f))"
proof -
  note run = run_callbacks_published [OF assms(1), of natsErr 0 ms, folded f'_def]
  have fw: "forwarded (fc_NATSSubject (f_config f)) natsErr 0 ms =
      map (\<lambda>e. (fc_NATSSubject (f_config f), drop 8 (MsgData (snd e))))
        (filter (\<lambda>e. 8 \<le> length (MsgData (snd e)) \<and> natsErr (fst e) = None) (enumerate 0 ms))"
    by (simp add: forwarded_def forwards_def [abs_def])
  have "f_TotalFrames (f_stats f') - f_TotalFrames (f_stats f) =
      of_nat (length (f_published f') - length (f_published f))"
    using run by simp
  then show ?thesis using run unfolding fw by blast
qed

definition example_forwarder :: "bool \<Rightarrow> forwarder" where
  "example_forwarder chanMode = (NewForwarder 0 (forwarder_defaults\<lparr>fc_UseChannelMode := chanMode\<rparr>))
     \<lparr>f_natsConn := True, f_subscription := Some 0, f_msgChan := (if chanMode then Some (make_chan 2) else None),
      f_kcpClient := Some (example_client\<lparr>subs := [0], next_sub := 1,
        sub_obj := (\<lambda>p. fst (TryEnqueue \<lparr>MsgSubject = ''h264.stream'', MsgData = [0, 0, 0, 0, 0, 0, 0, 1, 7]\<rparr>
          (new_subscription ''h264.stream'' 2)))\<rparr>)\<rparr>"

text \<open>In callback mode a shutdown loses no accepted frame: \<open>Stop\<close> returns, and before it closes
  the NATS connection every message waiting in the subscription has been published without its
  time stamp, in order (those shorter than a time stamp apart).\<close>

lemma forwarder_stop_drains:
  assumes "\<not> fc_UseChannelMode (f_config f)" and "f_subscription f = Some p" and "f_kcpClient f = Some cli"
    and "working cli p" and "f_natsConn f"
  shows "\<exists>f'. forwarder_Stop (\<lambda>k. None) writeErr closeErr f = Some f' \<and> f_nats_closed f' \<and>
    f_published f' = f_published f @ map (\<lambda>m. (fc_NATSSubject (f_config f), drop 8 (MsgData m)))
      (filter (\<lambda>m. 8 \<le> length (MsgData m)) (waiting (sub_obj cli p)))"
proof -
  obtain cli' where stop: "forwarder_Stop (\<lambda>k. None) writeErr closeErr f =
    (let f2 = run_callbacks (\<lambda>k. None) 0 (waiting (sub_obj cli p)) (f\<lparr>f_ctx_done := True, f_kcpClient := Some cli'\<rparr>);
         f3 = f2\<lparr>f_kcpClient := map_option (\<lambda>c. fst (client_Close closeErr c)) (f_kcpClient f2)\<rparr>
     in Some (if f_natsConn f3 then f3\<lparr>f_nats_closed := True\<rparr> else f3))"
    using stop_eq [OF assms(2-4)] by blast
  show ?thesis
    using run_callbacks_published [of "f\<lparr>f_ctx_done := True, f_kcpClient := Some cli'\<rparr>" "\<lambda>k. None" 0
        "waiting (sub_obj cli p)"] assms(1,5)
    by (simp add: stop Let_def forwarded_all)
qed

lemma example_working:
  "f_kcpClient (example_forwarder b) = Some cli \<Longrightarrow> working cli 0 \<and>
     waiting (sub_obj cli 0) = [\<lparr>MsgSubject = ''h264.stream'', MsgData = [0, 0, 0, 0, 0, 0, 0, 1, 7]\<rparr>]"
  by (auto simp: example_forwarder_def working_def new_subscription_def startProcessing_def TryEnqueue_def
      try_send_def make_chan_def)

text \<open>A successful \<open>Start\<close> leaves a client whose subscription is at work.\<close>

lemma typed_working: "client_typed cli \<Longrightarrow> p < next_sub cli \<Longrightarrow> active (sub_obj cli p) \<Longrightarrow> working cli p"
  by (simp add: client_typed_def sub_typed_def working_def)

lemma forwarder_connect_typed:
  assumes "forwarder_connectToKCPQ mk dialed now sh ah f = (f1, None)"
  shows "\<exists>cli. f_kcpClient f1 = Some cli \<and> client_typed cli \<and> client_conn cli \<and> f1 = f\<lparr>f_kcpClient := Some cli\<rparr>"
proof -
  obtain cli where c: "ConnectWithContext (ctx_err (f_ctx_done f)) mk dialed now sh ah (fc_KCPQServer (f_config f))
      (fc_AES256Key (f_config f)) = Inr cli"
    and f1: "f1 = f\<lparr>f_kcpClient := Some cli\<rparr> \<or> (\<exists>d. f1 = f\<lparr>f_kcpClient := Some (EnableAutoReconnect d cli)\<rparr>)"
    using assms by (auto simp: forwarder_connectToKCPQ_def Let_def split: if_splits sum.splits)
  have n: "ctx_err (f_ctx_done f) = None"
    using c by (auto simp: ConnectWithContext_def split: option.splits)
  have "client_typed cli" by (rule connect_typed [OF c])
  moreover have "client_conn cli" using connect_fields(2) c n by fastforce
  moreover have "client_conn (EnableAutoReconnect d cli) = client_conn cli" for d
    by (simp add: EnableAutoReconnect_def Let_def)
  ultimately show ?thesis using f1 by auto
qed

lemma forwarder_Start_working:
  assumes "forwarder_Start mk dialed now sh ah natsErr envs f = Some (f1, None)"
    and "\<not> fc_UseChannelMode (f_config f)" and "\<not> f_natsConn f"
  shows "\<exists>cli p. f1 = f\<lparr>f_kcpClient := Some cli, f_natsConn := True, f_subscription := Some p\<rparr> \<and>
    client_typed cli \<and> p < next_sub cli \<and> active (sub_obj cli p) \<and>
    sub_subject (sub_obj cli p) = fc_KCPQSubject (f_config f)"
proof -
  obtain f0 where f0: "forwarder_connectToKCPQ mk dialed now sh ah f = (f0, None)" and n: "natsErr = None"
    and sub: "subscribeKCPQ envs (f0\<lparr>f_natsConn := True\<rparr>) = Some (f1, None)"
    using assms(1) by (auto simp: forwarder_Start_def connectToNATS_def split: prod.splits option.splits)
  obtain cli where c: "client_typed cli" "client_conn cli" "f0 = f\<lparr>f_kcpClient := Some cli\<rparr>"
    using forwarder_connect_typed [OF f0] by blast
  obtain cli' p where s: "SubscribeWithOptionsContext envs (fc_KCPQSubject (f_config f)) 100 cli = (cli', Inr p)"
    and f1: "f1 = f0\<lparr>f_natsConn := True, f_kcpClient := Some cli', f_subscription := Some p\<rparr>"
    using sub assms(2) c(3)
    by (auto simp: subscribeKCPQ_def SubscribeWithContext_def split: prod.splits sum.splits option.splits)
  from subscribe_working [OF c(1,2) s] f1 c(3) show ?thesis
    by (intro exI [of _ cli'] exI [of _ p]) simp
qed

text \<open>From start to stop in callback mode no accepted frame is lost: after a successful \<open>Start\<close> the
  forwarder has a client with an active subscription to its subject; whatever messages arrive then,
  \<open>Stop\<close> returns without a panic, and before it closes the NATS connection every message waiting in
  the subscription has been published to the NATS subject without its time stamp, in order (those
  shorter than a time stamp apart).\<close>

lemma forwarder_start_to_stop:
  assumes "forwarder_Start mk dialed now sh ah natsErr envs (NewForwarder t0 cfg) = Some (f, None)"
    and "\<not> fc_UseChannelMode cfg"
  shows "\<exists>cli p. f_kcpClient f = Some cli \<and> f_subscription f = Some p \<and>
    sub_subject (sub_obj cli p) = fc_KCPQSubject cfg \<and>
    (\<forall>ms t writeErr closeErr. let cli' = fold (handleMessage t) ms cli in
       \<exists>f'. forwarder_Stop (\<lambda>k. None) writeErr closeErr (f\<lparr>f_kcpClient := Some cli'\<rparr>) = Some f' \<and> f_nats_closed f' \<and>
         f_published f' = map (\<lambda>m. (fc_NATSSubject cfg, drop 8 (MsgData m)))
           (filter (\<lambda>m. 8 \<le> length (MsgData m)) (waiting (sub_obj cli' p))))"
proof -
  obtain cli p where f: "f = (NewForwarder t0 cfg)\<lparr>f_kcpClient := Some cli, f_natsConn := True, f_subscription := Some p\<rparr>"
    and t: "client_typed cli" and p: "p < next_sub cli" "active (sub_obj cli p)"
    and subject: "sub_subject (sub_obj cli p) = fc_KCPQSubject cfg"
    using forwarder_Start_working [OF assms(1)] assms(2) by (auto simp: NewForwarder_def)
  have w: "working (fold (handleMessage t) ms cli) p" for ms t
    using handle_fold_typed [OF t] handle_fold_frame [of t ms cli] handle_fold_ok [of cli t ms p] t p
    by (intro typed_working) (simp_all add: client_typed_def)
  have "\<exists>f'. forwarder_Stop (\<lambda>k. None) writeErr closeErr (f\<lparr>f_kcpClient := Some (fold (handleMessage t) ms cli)\<rparr>) =
      Some f' \<and> f_nats_closed f' \<and> f_published f' = map (\<lambda>m. (fc_NATSSubject cfg, drop 8 (MsgData m)))
        (filter (\<lambda>m. 8 \<le> length (MsgData m)) (waiting (sub_obj (fold (handleMessage t) ms cli) p)))"
    for ms t writeErr closeErr
    using forwarder_stop_drains [of "f\<lparr>f_kcpClient := Some (fold (handleMessage t) ms cli)\<rparr>" p
        "fold (handleMessage t) ms cli" writeErr closeErr] w [of t ms] assms(2)
    by (simp add: f NewForwarder_def)
  then show ?thesis using f subject by (auto simp: Let_def)
qed

lemma ack_env_subscribes:
  assumes "client_conn cli" and "pendingSubs cli = []" and "next_sub cli = 0" and "next_ack cli = 0"
  shows "\<exists>cli'. SubscribeWithOptionsContext (\<lambda>k. ack_env) ''x'' 100 cli = (cli', Inr 0)"
proof -
  have t: "Contains ''subscribed to x'' ''subscribed to ''"
    "TrimPrefix ''subscribed to x'' ''subscribed to '' = ''x''"
    by code_simp+
  have "snd (SubscribeWithOptionsContext (\<lambda>k. ack_env) ''x'' 100 cli) = Inr 0"
    using t assms
    by (simp add: SubscribeWithOptionsContext_def max_lens subscribe_loop.simps [of 0] maxRetries_def
        subscribe_attempt_eq ack_env_def Let_def registered_def add_pending_def handleMessage_def
        NewMessageCmd_def cmd_defs wait_ack_def confirm_ack_def)
  then show ?thesis by (metis prod.collapse)
qed

text \<open>In channel mode, the default, a shutdown can lose every frame on its way: \<open>Stop\<close> moves the
  waiting messages to the application's channel as far as they fit and publishes none of them;
  the context is cancelled then, so the goroutine that reads the channel may end at once, with all
  of them unpublished.\<close>

lemma forwarder_stop_strands_channel:
  assumes "fc_UseChannelMode (f_config f)" and "f_subscription f = Some p" and "f_kcpClient f = Some cli"
    and "working cli p" and "f_msgChan f = Some ch" and "\<not> chan_closed ch" and "chan_ok ch"
  shows "\<exists>f' ch'. forwarder_Stop natsErr writeErr closeErr f = Some f' \<and> f_msgChan f' = Some ch' \<and>
    chan_buf ch' = chan_buf ch @ take (chan_cap ch - length (chan_buf ch)) (waiting (sub_obj cli p)) \<and>
    f_published f' = f_published f \<and> handleMessagesFromChannel_body True e f' = HandlerStopped"
proof -
  obtain cli' where stop: "forwarder_Stop natsErr writeErr closeErr f =
    (let f2 = run_callbacks natsErr 0 (waiting (sub_obj cli p)) (f\<lparr>f_ctx_done := True, f_kcpClient := Some cli'\<rparr>);
         f3 = f2\<lparr>f_kcpClient := map_option (\<lambda>c. fst (client_Close closeErr c)) (f_kcpClient f2)\<rparr>
     in Some (if f_natsConn f3 then f3\<lparr>f_nats_closed := True\<rparr> else f3))"
    using stop_eq [OF assms(2-4)] by blast
  have "handleMessagesFromChannel_body True e g = HandlerStopped" if "f_ctx_done g" for g
    using that by (auto simp: handleMessagesFromChannel_body_def split: option.splits)
  then show ?thesis
    using run_callbacks_channel [of "f\<lparr>f_ctx_done := True, f_kcpClient := Some cli'\<rparr>" ch natsErr 0
        "waiting (sub_obj cli p)"] assms(1,5-7)
    by (auto simp: stop Let_def)
qed

text \<open>With settings from \<open>main\<close> the check of the key length never fails, and \<open>Start\<close> does not panic.\<close>

lemma forwarder_start_key_checked:
  assumes "forwarder_settings ReadFile Unmarshal flagPath statOk env = Inr cfg"
  shows "\<exists>f err. forwarder_Start mk dialed now sh ah natsErr envs (NewForwarder t0 cfg) = Some (f, err) \<and>
    err \<noteq> Some (ForwarderKeyLength n)"
proof -
  have k: "length (fc_AES256Key cfg) = 32"
    using assms by (auto simp: forwarder_settings_def load_key_Inr Let_def split: sum.splits)
  obtain f1 e1 where c: "forwarder_connectToKCPQ mk dialed now sh ah (NewForwarder t0 cfg) = (f1, e1)" by fastforce
  have e1: "e1 \<noteq> Some (ForwarderKeyLength n)"
    using c k by (auto simp: forwarder_connectToKCPQ_def NewForwarder_def Let_def split: sum.splits if_splits)
  show ?thesis
  proof (cases e1)
    case None
    then obtain cli where "f_kcpClient f1 = Some cli" using forwarder_connect_typed c by blast
    then show ?thesis
      using None c by (cases natsErr) (auto simp: forwarder_Start_def connectToNATS_def subscribeKCPQ_def
          split: prod.splits sum.splits)
  qed (use c e1 in \<open>simp add: forwarder_Start_def\<close>)
qed

end
