(* ===== verification/Relay_Programs.thy ===== *)
theory Relay_Programs
  imports H264_Relay NATS_Forwarder
begin

text \<open>
  The main functions of the two video programs, \<open>examples/h264-relay\<close> and \<open>examples/kcpq-to-nats\<close>: settings,
  start, the work of the goroutines as a list of rounds or events in the order in which they happen, and
  the shutdown after the signal.
\<close>

section \<open>The relay\<close>

text \<open>
  \<open>UDPReceiver\<close>: the argument \<open>socket\<close> is the result of resolving and opening the address, whose errors end
  the program; \<open>SetReadBuffer\<close> only logs. The loop ends when a round says so.
\<close>

fun receive_rounds :: "relay_round list \<Rightarrow> relay \<Rightarrow> relay" where
  "receive_rounds [] r = r"
| "receive_rounds ((res, now, writeErr) # es) r =
     (case UDPReceiver_body res now writeErr r of (r', goes_on) \<Rightarrow> if goes_on then receive_rounds es r' else r')"

definition UDPReceiver :: "string + unit \<Rightarrow> relay_round list \<Rightarrow> relay \<Rightarrow> string + relay" where
  "UDPReceiver socket es r =
     (case socket of
        Inl err \<Rightarrow> Inl err
      | Inr _ \<Rightarrow> Inr (receive_rounds es r))"

datatype relay_exit = RelaySettings fatal | RelayStart relay_error | RelaySocket string

text \<open>\<^const>\<open>None\<close> is the panic of the statistics ticker. The final statistics are those that \<open>Stop\<close> prints.\<close>

definition relay_main :: "(string \<Rightarrow> string + bytes) \<Rightarrow> (bytes \<Rightarrow> string + relay_config_file) \<Rightarrow> string \<Rightarrow> bool \<Rightarrow>
    environment \<Rightarrow> (bytes \<Rightarrow> string + 'block) \<Rightarrow> string + unit \<Rightarrow> int \<Rightarrow> (ptr \<Rightarrow> subscription) \<Rightarrow> (ptr \<Rightarrow> subscriptionACK) \<Rightarrow>
    string + unit \<Rightarrow> relay_round list \<Rightarrow> int \<Rightarrow> string option \<Rightarrow>
    (relay_exit + relay \<times> (rates \<times> client_stats option) option) option" where
  "relay_main ReadFile Unmarshal flagPath statOk env mk dialed now sh ah socket es later closeErr =
     (case relay_settings ReadFile Unmarshal flagPath statOk env of
        Inl err \<Rightarrow> Some (Inl (RelaySettings err))
      | Inr config \<Rightarrow>
          (case relay_Start mk dialed now sh ah (NewH264Relay now config) of
             (_, Some err) \<Rightarrow> Some (Inl (RelayStart err))
           | (r, None) \<Rightarrow>
               (case relay_statsPrinter r of
                  None \<Rightarrow> None
                | Some interval \<Rightarrow>
                    (case UDPReceiver socket es r of
                       Inl err \<Rightarrow> Some (Inl (RelaySocket err))
                     | Inr r1 \<Rightarrow>
                         let r2 = relay_Stop closeErr r1
                         in Some (Inr (r2, relay_printStats later r2))))))"

section \<open>The forwarder\<close>

text \<open>
  What happens while it runs: a message arrives at its client, the goroutine of the subscription makes a
  round with its callback (the argument is the error of the publish), the goroutine that reads the channel
  makes a round, which exists in channel mode only.
\<close>

datatype forward_event = FrameArrives int message | CallbackRuns "string option" | HandlerRuns bool "string option"

fun forward_step :: "forward_event \<Rightarrow> forwarder \<Rightarrow> forwarder" where
  "forward_step (FrameArrives now m) f = f\<lparr>f_kcpClient := map_option (handleMessage now m) (f_kcpClient f)\<rparr>"
| "forward_step (CallbackRuns natsErr) f =
     (case (f_subscription f, f_kcpClient f) of
        (Some p, Some cli) \<Rightarrow>
          (case process_one (sub_obj cli p) of
             None \<Rightarrow> f
           | Some s \<Rightarrow>
               run_callbacks (\<lambda>k. natsErr) 0 (drop (length (handled (sub_obj cli p))) (handled s))
                 (f\<lparr>f_kcpClient := Some (on_sub p (\<lambda>_. s) cli)\<rparr>))
      | _ \<Rightarrow> f)"
| "forward_step (HandlerRuns preferCtx natsErr) f =
     (if fc_UseChannelMode (f_config f)
      then (case handleMessagesFromChannel_body preferCtx natsErr f of HandlerRan f' \<Rightarrow> f' | _ \<Rightarrow> f)
      else f)"

datatype forwarder_exit = ForwarderSettings fatal | ForwarderStart forwarder_error

text \<open>
  The result of a run is the state when the signal comes and the state that \<open>Stop\<close> leaves; \<^const>\<open>None\<close> is
  a panic.
\<close>

definition forwarder_main :: "(string \<Rightarrow> string + bytes) \<Rightarrow> (bytes \<Rightarrow> string + forwarder_config_file) \<Rightarrow> string \<Rightarrow> bool \<Rightarrow>
    environment \<Rightarrow> (bytes \<Rightarrow> string + 'block) \<Rightarrow> string + unit \<Rightarrow> int \<Rightarrow> (ptr \<Rightarrow> subscription) \<Rightarrow> (ptr \<Rightarrow> subscriptionACK) \<Rightarrow>
    string option \<Rightarrow> (nat \<Rightarrow> attempt_env) \<Rightarrow> forward_event list \<Rightarrow> (nat \<Rightarrow> string option) \<Rightarrow> string option \<Rightarrow> string option \<Rightarrow>
    (forwarder_exit + forwarder \<times> forwarder option) option" where
  "forwarder_main ReadFile Unmarshal flagPath statOk env mk dialed now sh ah natsErr envs es stopErrs writeErr closeErr =
     (case forwarder_settings ReadFile Unmarshal flagPath statOk env of
        Inl err \<Rightarrow> Some (Inl (ForwarderSettings err))
      | Inr config \<Rightarrow>
          (case forwarder_Start mk dialed now sh ah natsErr envs (NewForwarder now config) of
             None \<Rightarrow> None
           | Some (_, Some err) \<Rightarrow> Some (Inl (ForwarderStart err))
           | Some (f, None) \<Rightarrow>
               (case forwarder_statsPrinter f of
                  None \<Rightarrow> None
                | Some interval \<Rightarrow>
                    let f1 = fold forward_step es f
                    in Some (Inr (f1, forwarder_Stop stopErrs writeErr closeErr f1)))))"

section \<open>The relay accounts for its rounds\<close>

lemma receive_rounds_fold: "\<not> r_ctx_done r \<Longrightarrow> receive_rounds es r = fold relay_round es r"
proof (induction es r rule: receive_rounds.induct)
  case (2 res now writeErr es r)
  define r' where "r' = relay_round (res, now, writeErr) r"
  have "snd (UDPReceiver_body res now writeErr r)"
    using "2.prems" by (simp add: UDPReceiver_body_def Let_def split: udp_read.splits)
  then have b: "UDPReceiver_body res now writeErr r = (r', True)" by (simp add: r'_def relay_round_def prod_eq_iff)
  have n: "\<not> r_ctx_done r'"
    unfolding r'_def using relay_round_accounts [OF "2.prems", of "(res, now, writeErr)"] by blast
  show ?case using "2.IH" [OF b [symmetric] TrueI n] b by (simp add: r'_def)
qed simp

text \<open>
  The whole program: when it ends normally, the frames it reports are the packets it wrote, frames
  and errors together are the rounds that were not timeouts, and the client and its connection are closed.
  It panics exactly when it starts with a statistics interval that is not positive.
\<close>

lemma relay_main_accounts:
  assumes "relay_main ReadFile Unmarshal flagPath statOk env mk dialed now sh ah socket es later closeErr = Some (Inr (r, rep))"
  shows "r_TotalFrames (r_stats r) + r_ErrorCount (r_stats r) = of_nat (counted es) \<and>
    rep = relay_printStats later r \<and>
    (\<exists>cli. r_kcpClient r = Some cli \<and> client_conn_closed cli \<and> c_done cli \<and> ctx_done cli \<and> subs cli = [])"
proof -
  obtain config r0 where s: "relay_Start mk dialed now sh ah (NewH264Relay now config) = (r0, None)"
    and r: "r = relay_Stop closeErr (receive_rounds es r0)" "rep = relay_printStats later r"
    using assms by (auto simp: relay_main_def UDPReceiver_def Let_def split: sum.splits prod.splits option.splits)
  have "\<not> r_ctx_done r0" using relay_Start_state [OF s] by simp
  then have "receive_rounds es r0 = fold relay_round es r0" by (rule receive_rounds_fold)
  then have r': "r = relay_Stop closeErr (fold relay_round es r0)" using r by simp
  note run = relay_start_to_stop [OF s, of es closeErr, folded r']
  have "r_TotalFrames (r_stats r) + r_ErrorCount (r_stats r) = of_nat (counted es)"
    unfolding run [THEN conjunct2, THEN conjunct2, THEN conjunct2, THEN conjunct1] using run by blast
  then show ?thesis using run r(2) by blast
qed

lemma relay_main_panics_iff:
  "relay_main ReadFile Unmarshal flagPath statOk env mk dialed now sh ah socket es later closeErr = None \<longleftrightarrow>
     (\<exists>config r. relay_settings ReadFile Unmarshal flagPath statOk env = Inr config \<and>
        relay_Start mk dialed now sh ah (NewH264Relay now config) = (r, None) \<and> NewTicker (rc_StatsInterval (r_config r)) = None)"
  by (auto simp: relay_main_def relay_statsPrinter_def Let_def split: sum.splits prod.splits option.splits)

section \<open>The forwarder publishes what its subscription accepts\<close>

lemma deliver_handled: "handled (sub_obj (deliver_loop m ps c) p) = handled (sub_obj c p)"
  by (induction ps arbitrary: c) (auto simp: on_sub_def TryEnqueue_handled)

lemma handle_handled: "handled (sub_obj (handleMessage now m c) p) = handled (sub_obj c p)"
  by (auto simp: handleMessage_def deliver_handled Let_def split: option.splits)

lemma handle_fold_handled: "handled (sub_obj (fold (handleMessage now) ms c) p) = handled (sub_obj c p)"
  by (induction ms arbitrary: c) (simp_all add: handle_handled)

lemma subscribe_loop_handled:
  "subscribe_loop n envs t cap e c = (c', Inr p) \<Longrightarrow> handled (sub_obj c' p) = []"
proof (induction n envs t cap e c arbitrary: rule: subscribe_loop.induct)
  case (1 n envs t cap e c)
  show ?case
  proof (cases "n < maxRetries")
    case False
    then show ?thesis using "1.prems" by (simp add: subscribe_loop.simps [of n])
  next
    case True
    show ?thesis
    proof (cases "subscribe_attempt n (envs n) t cap c")
      case (Continue c1 err)
      then show ?thesis using "1.IH" [OF True Continue] "1.prems" True by (simp add: subscribe_loop.simps [of n])
    next
      case (Return c1 r)
      then have "subscribe_attempt n (envs n) t cap c = Return c' (Inr p)"
        using "1.prems" True by (simp add: subscribe_loop.simps [of n])
      then show ?thesis
        by (auto simp: subscribe_attempt_eq handle_fold_handled registered_fields new_subscription_def startProcessing_def
            Let_def split: option.splits if_splits wait_result.splits)
    qed
  qed
qed

text \<open>What a list of handled messages makes the forwarder publish when no publish fails.\<close>

definition frames :: "forwarder_config \<Rightarrow> client_message list \<Rightarrow> (string \<times> bytes) list" where
  "frames cfg ms = map (\<lambda>m. (fc_NATSSubject cfg, drop 8 (MsgData m))) (filter (\<lambda>m. 8 \<le> length (MsgData m)) ms)"

text \<open>
  The forwarder at work in callback mode: the messages handled so far are counted, those published are
  counted as frames, and all of them were published if no publish failed.
\<close>

definition forwarding :: "bool \<Rightarrow> forwarder_config \<Rightarrow> ptr \<Rightarrow> client_message list \<Rightarrow> forwarder \<Rightarrow> bool" where
  "forwarding reliable cfg p ms f \<longleftrightarrow>
     f_TotalFrames (f_stats f) + f_ErrorCount (f_stats f) = of_nat (length ms) \<and>
     f_TotalFrames (f_stats f) = of_nat (length (f_published f)) \<and>
     (reliable \<longrightarrow> f_published f = frames cfg ms)"

lemma forwarding_cong:
  "f_stats f' = f_stats f \<Longrightarrow> f_published f' = f_published f \<Longrightarrow> forwarding reliable cfg p ms f' = forwarding reliable cfg p ms f"
  by (simp only: forwarding_def)

lemma forwarding_client: "forwarding reliable cfg p ms (f\<lparr>f_kcpClient := c\<rparr>) = forwarding reliable cfg p ms f"
  by (rule forwarding_cong) simp_all

lemma run_callbacks_forwarding:
  assumes "forwarding reliable cfg p ms f" and "f_config f = cfg" and "\<not> fc_UseChannelMode cfg"
    and "reliable \<Longrightarrow> natsErr = (\<lambda>k. None)"
  shows "forwarding reliable cfg p (ms @ new) (run_callbacks natsErr 0 new f)"
proof -
  note r = run_callbacks_published [of f natsErr 0 new, unfolded assms(2), OF assms(3)]
  have sum: "f_TotalFrames (f_stats f) + f_ErrorCount (f_stats f) = of_nat (length ms)"
    using assms(1) unfolding forwarding_def by blast
  have "f_published (run_callbacks natsErr 0 new f) = frames cfg (ms @ new)" if reliable
    using r that assms(1,4) by (simp add: forwarding_def frames_def forwarded_all)
  moreover have "f_TotalFrames (f_stats (run_callbacks natsErr 0 new f)) + f_ErrorCount (f_stats (run_callbacks natsErr 0 new f)) =
      of_nat (length (ms @ new))"
    unfolding r [THEN conjunct2, THEN conjunct1] sum by simp
  moreover have "f_TotalFrames (f_stats (run_callbacks natsErr 0 new f)) = of_nat (length (f_published (run_callbacks natsErr 0 new f)))"
    using r assms(1) by (simp add: forwarding_def)
  ultimately show ?thesis unfolding forwarding_def by blast
qed

lemma run_callbacks_config:
  "f_config (run_callbacks natsErr k ms f) = f_config f \<and> f_subscription (run_callbacks natsErr k ms f) = f_subscription f \<and>
   f_natsConn (run_callbacks natsErr k ms f) = f_natsConn f \<and> f_kcpClient (run_callbacks natsErr k ms f) = f_kcpClient f"
  by (induction ms arbitrary: k f)
    (auto simp: run_callback_def forwarder_handleMessage_def Let_def split: option.splits)

definition forwarder_inv :: "bool \<Rightarrow> forwarder_config \<Rightarrow> ptr \<Rightarrow> forwarder \<Rightarrow> bool" where
  "forwarder_inv reliable cfg p f \<longleftrightarrow> f_config f = cfg \<and> f_natsConn f \<and> f_subscription f = Some p \<and>
     (\<exists>cli. f_kcpClient f = Some cli \<and> distinct (subs cli) \<and> working cli p \<and>
        forwarding reliable cfg p (handled (sub_obj cli p)) f)"

fun publishes_safely :: "forward_event \<Rightarrow> bool" where
  "publishes_safely (CallbackRuns natsErr) = (natsErr = None)"
| "publishes_safely e = True"

lemma handle_working: "distinct (subs cli) \<Longrightarrow> working cli p \<Longrightarrow> working (handleMessage now m cli) p"
proof -
  assume d: "distinct (subs cli)" and w: "working cli p"
  have "processing (sub_obj (handleMessage now m cli) p) = processing (sub_obj cli p)"
    using d by (auto simp: handleMessage_def Let_def deliver_loop_objs TryEnqueue_def split: option.splits prod.splits send_result.splits)
  then show ?thesis using w handle_sub_frame [OF d, of now m p] by (simp add: working_def)
qed

lemma forward_step_inv:
  assumes "forwarder_inv reliable cfg p f" and "\<not> fc_UseChannelMode cfg" and "reliable \<Longrightarrow> publishes_safely e"
  shows "forwarder_inv reliable cfg p (forward_step e f)"
proof -
  obtain cli where f: "f_config f = cfg" "f_natsConn f" "f_subscription f = Some p" "f_kcpClient f = Some cli"
      "distinct (subs cli)" "working cli p" "forwarding reliable cfg p (handled (sub_obj cli p)) f"
    using assms(1) by (auto simp: forwarder_inv_def)
  show ?thesis
  proof (cases e)
    case (FrameArrives now m)
    have "forwarding reliable cfg p (handled (sub_obj cli p)) (f\<lparr>f_kcpClient := Some (handleMessage now m cli)\<rparr>)"
      using f(7) by (simp only: forwarding_client)
    then show ?thesis
      using f handle_working [OF f(5,6)] by (simp add: FrameArrives forwarder_inv_def handle_handled handle_frame)
  next
    case (CallbackRuns natsErr)
    show ?thesis
    proof (cases "process_one (sub_obj cli p)")
      case None
      then show ?thesis using assms(1) f by (simp add: CallbackRuns)
    next
      case (Some s)
      obtain m where s: "handled s = handled (sub_obj cli p) @ [m]" and w: "working (on_sub p (\<lambda>_. s) cli) p"
        using Some f(6) by (auto simp: process_one_def try_recv_def working_def on_sub_def split: option.splits list.splits if_splits)
      let ?f = "f\<lparr>f_kcpClient := Some (on_sub p (\<lambda>_. s) cli)\<rparr>"
      have "forwarding reliable cfg p (handled (sub_obj cli p)) ?f" using f(7) by (simp only: forwarding_client)
      then have "forwarding reliable cfg p (handled s) (run_callbacks (\<lambda>k. natsErr) 0 [m] ?f)"
        using run_callbacks_forwarding [of reliable cfg p _ ?f "\<lambda>k. natsErr" "[m]"] f(1) assms(2,3) s CallbackRuns by simp
      then show ?thesis
        using run_callbacks_config [of "\<lambda>k. natsErr" 0 "[m]" ?f] f Some s w
        by (simp add: CallbackRuns forwarder_inv_def on_sub_def)
    qed
  next
    case (HandlerRuns b natsErr)
    then show ?thesis using assms(1,2) f(1) by simp
  qed
qed

lemma forward_steps_inv:
  assumes "forwarder_inv reliable cfg p f" and "\<not> fc_UseChannelMode cfg" and "reliable \<Longrightarrow> list_all publishes_safely es"
  shows "forwarder_inv reliable cfg p (fold forward_step es f)"
  using assms by (induction es arbitrary: f) (auto intro: forward_step_inv)

lemma forwarder_started:
  assumes "forwarder_Start mk dialed now sh ah natsErr envs (NewForwarder t0 cfg) = Some (f, None)"
    and "\<not> fc_UseChannelMode cfg"
  shows "\<exists>p. forwarder_inv reliable cfg p f"
proof -
  obtain cli p where f: "f = (NewForwarder t0 cfg)\<lparr>f_kcpClient := Some cli, f_natsConn := True, f_subscription := Some p\<rparr>"
    and t: "client_typed cli" "p < next_sub cli" "active (sub_obj cli p)"
    using forwarder_Start_working [OF assms(1)] assms(2) by (auto simp: NewForwarder_def)
  obtain f0 where f0: "forwarder_connectToKCPQ mk dialed now sh ah (NewForwarder t0 cfg) = (f0, None)"
    and sub: "subscribeKCPQ envs (f0\<lparr>f_natsConn := True\<rparr>) = Some (f, None)"
    using assms(1) by (auto simp: forwarder_Start_def connectToNATS_def split: prod.splits option.splits)
  obtain cli0 where c: "f0 = (NewForwarder t0 cfg)\<lparr>f_kcpClient := Some cli0\<rparr>"
    using forwarder_connect_typed [OF f0] by blast
  have "\<exists>cap. subscribe_loop 0 envs (fc_KCPQSubject cfg) cap None cli0 = (cli, Inr p)"
    using sub f assms(2)
    by (auto simp: c NewForwarder_def subscribeKCPQ_def SubscribeWithContext_def SubscribeWithOptionsContext_def
        split: prod.splits sum.splits option.splits if_splits)
  then have "handled (sub_obj cli p) = []" using subscribe_loop_handled by blast
  moreover have "distinct (subs cli)" using t(1) by (simp add: client_typed_def client_ok_def)
  ultimately show ?thesis
    using typed_working [OF t] by (auto simp: f forwarder_inv_def forwarding_def NewForwarder_def frames_def)
qed

lemma forwarder_stopped:
  assumes "forwarder_inv reliable cfg p f" and "\<not> fc_UseChannelMode cfg" and "reliable \<Longrightarrow> stopErrs = (\<lambda>k. None)"
  shows "\<exists>cli f'. f_kcpClient f = Some cli \<and> forwarder_Stop stopErrs writeErr closeErr f = Some f' \<and> f_nats_closed f' \<and>
    forwarding reliable cfg p (handled (sub_obj cli p) @ waiting (sub_obj cli p)) f'"
proof -
  obtain cli where f: "f_config f = cfg" "f_natsConn f" "f_subscription f = Some p" "f_kcpClient f = Some cli"
      "working cli p" "forwarding reliable cfg p (handled (sub_obj cli p)) f"
    using assms(1) by (auto simp: forwarder_inv_def)
  obtain cli' where stop: "forwarder_Stop stopErrs writeErr closeErr f =
    (let f2 = run_callbacks stopErrs 0 (waiting (sub_obj cli p)) (f\<lparr>f_ctx_done := True, f_kcpClient := Some cli'\<rparr>);
         f3 = f2\<lparr>f_kcpClient := map_option (\<lambda>c. fst (client_Close closeErr c)) (f_kcpClient f2)\<rparr>
     in Some (if f_natsConn f3 then f3\<lparr>f_nats_closed := True\<rparr> else f3))"
    using stop_eq [OF f(3-5)] by blast
  let ?f = "f\<lparr>f_ctx_done := True, f_kcpClient := Some cli'\<rparr>"
  have "forwarding reliable cfg p (handled (sub_obj cli p)) ?f"
    by (rule forwarding_cong [THEN iffD2, OF _ _ f(6)]) simp_all
  then have "forwarding reliable cfg p (handled (sub_obj cli p) @ waiting (sub_obj cli p))
      (run_callbacks stopErrs 0 (waiting (sub_obj cli p)) ?f)"
    using f(1) assms(2,3) by (intro run_callbacks_forwarding) simp_all
  then show ?thesis
    using f run_callbacks_config [of stopErrs 0 "waiting (sub_obj cli p)" ?f]
    by (auto simp: stop Let_def forwarding_def)
qed

section \<open>Properties\<close>


text \<open>A run of the program: a configuration file for callback mode, a frame that arrives, and the signal.\<close>

definition callback_file :: forwarder_config_file where
  "callback_file = \<lparr>ff_KCPQServer = ''s'', ff_KCPQSubject = ''x'', ff_NATSServer = ''n'', ff_NATSSubject = ''y'',
     ff_AES256KeyHex = EncodeToString (replicate 32 0), ff_StatsInterval = 10, ff_AutoReconnect = False,
     ff_ReconnectInterval = 5, ff_UseChannelMode = False\<rparr>"

definition callback_settings :: forwarder_config where
  "callback_settings = (ToForwarderConfig callback_file)\<lparr>fc_AES256Key := replicate 32 0\<rparr>"

definition one_frame :: "forward_event list" where
  "one_frame = [FrameArrives 1 (NewMessageCmd CmdMsg ''x'' [0, 0, 0, 0, 0, 0, 0, 1, 7])]"

lemma callback_settings_read:
  "forwarder_settings (\<lambda>path. Inr []) (\<lambda>b. Inr callback_file) ''c'' True (\<lambda>k. []) = Inr callback_settings"
proof -
  have "EncodeToString (replicate 32 0) \<noteq> []" using length_EncodeToString [of "replicate 32 0"] by force
  then have k: "load_key (EncodeToString (replicate 32 0)) = Inr (replicate 32 0)"
    unfolding load_key_def Decode_Encode by simp
  show ?thesis
    by (simp add: forwarder_settings_def config_path_def forwarder_LoadConfig_def read_config_def override_def
        callback_settings_def callback_file_def ToForwarderConfig_def k)
qed

lemma callback_start:
  "\<exists>f. forwarder_Start (Inr :: bytes \<Rightarrow> string + bytes) (Inr ()) 0 sh ah None (\<lambda>k. ack_env)
     (NewForwarder 0 callback_settings) = Some (f, None) \<and> f_config f = callback_settings"
proof -
  have k: "fc_AES256Key callback_settings = replicate 32 0" "\<not> fc_AutoReconnect callback_settings"
    "\<not> fc_UseChannelMode callback_settings" "fc_KCPQSubject callback_settings = ''x''"
    by (simp_all add: callback_settings_def callback_file_def ToForwarderConfig_def)
  obtain cli where c: "ConnectWithContext None (Inr :: bytes \<Rightarrow> string + bytes) (Inr ()) 0 sh ah (fc_KCPQServer callback_settings)
     (replicate 32 0) = Inr cli" and cli: "client_conn cli" "pendingSubs cli = []" "next_sub cli = 0" "next_ack cli = 0"
    by (simp add: ConnectWithContext_def newAES256BlockCrypt_def)
  obtain cli' where s: "SubscribeWithOptionsContext (\<lambda>k. ack_env) ''x'' 100 cli = (cli', Inr 0)"
    using ack_env_subscribes [OF cli] by blast
  show ?thesis
    by (simp add: forwarder_Start_def forwarder_connectToKCPQ_def NewForwarder_def k ctx_err_def connectToNATS_def
        subscribeKCPQ_def SubscribeWithContext_def c s Let_def)
qed


end
