(* ===== verification/Server_System.thy ===== *)
theory Server_System
  imports Server
begin

text \<open>
  The running server as a transition system. Each session has a reader (the loop of
  \<open>Session.Start\<close> with the handlers), a write loop and, once, a run of \<open>Session.Close\<close>; the
  server has its accept loop. The steps are the critical sections of the code, so that the
  handlers of different sessions and the closing of sessions interleave between them: a
  publisher looks up the subscribers in one step and sends to each of them in later ones, an
  UNSUB changes the list and the router in two steps, and \<open>Close\<close> sets its flags, cleans the
  router, cleans the table and closes the connection one after the other. A send is one step
  here; theory \<open>Backpressure\<close> splits it further. The second \<open>removeSession\<close>, in the accept loop's
  goroutine after \<open>Start\<close> has returned, finds nothing left to delete and is no step of its own.
  \<open>Server.Close\<close> is not a step: theory
  \<open>Server\<close> shows that it never returns while sessions are open.
\<close>

section \<open>State\<close>

datatype reader =
    NotStarted
  | LoopTop
  | Reading
  | Handling message
  | AckSub string
  | UnsubRouter string
  | AckUnsub string
  | Publishing bytes "sid list"
  | Pinging
  | Replying string
  | Touching
  | Stopped

datatype closer = CloseIdle | Flagged | RouterCleaned | TableCleaned | CloseDone

text \<open>The stages of \<open>Close\<close> are ordered.\<close>

fun stage :: "closer \<Rightarrow> nat" where
  "stage CloseIdle = 0" | "stage Flagged = 1" | "stage RouterCleaned = 2" | "stage TableCleaned = 3"
| "stage CloseDone = 4"

lemma stage_inject: "stage a = stage b \<longleftrightarrow> a = b"
  by (cases a; cases b) simp_all

instantiation closer :: linorder
begin

definition less_eq_closer :: "closer \<Rightarrow> closer \<Rightarrow> bool" where
  "less_eq_closer a b \<longleftrightarrow> stage a \<le> stage b"

definition less_closer :: "closer \<Rightarrow> closer \<Rightarrow> bool" where
  "less_closer a b \<longleftrightarrow> stage a < stage b"

instance
  by standard (auto simp: less_eq_closer_def less_closer_def stage_inject)

end

lemma closer_stages [simp]:
  "(c::closer) < TableCleaned \<longleftrightarrow> c \<notin> {TableCleaned, CloseDone}"
  "RouterCleaned \<le> c \<longleftrightarrow> c \<in> {RouterCleaned, TableCleaned, CloseDone}"
  "CloseIdle < c \<longleftrightarrow> c \<noteq> CloseIdle"
  by (cases c; simp add: less_closer_def less_eq_closer_def)+

text \<open>\<open>taken\<close> records the packets that the write loop of a session has taken from its queue.\<close>

record system =
  srv :: server
  readers :: "sid \<Rightarrow> reader"
  closers :: "sid \<Rightarrow> closer"
  writing :: "sid \<Rightarrow> bool"
  taken :: "sid \<Rightarrow> bytes list"

section \<open>Steps\<close>

text \<open>The steps of a reader while it handles one message; they never wait for anything.\<close>

definition dispatch :: "sid \<Rightarrow> message \<Rightarrow> server \<Rightarrow> reader \<times> server" where
  "dispatch i msg v =
     (let subject = Subject msg; s = objects v i in
      if Command msg = CmdSub then
        (AckSub subject,
         if \<not> subject_exists subject (subjects s)
         then v\<lparr>objects := (objects v)(i := s\<lparr>subjects := subjects s @ [subject]\<rparr>),
                router := Subscribe subject i (router v)\<rparr>
         else v)
      else if Command msg = CmdUnsub then
        (UnsubRouter subject,
         v\<lparr>objects := (objects v)(i := s\<lparr>subjects :=
             filter_in_place (\<lambda>sub. sub \<noteq> subject) (subjects s)\<rparr>)\<rparr>)
      else if Command msg = CmdPub then
        (Publishing (Encode (NewMessageCmd CmdMsg subject (Payload msg)))
           (FindSubscribers (router v) subject), v)
      else if Command msg = CmdPing then (Pinging, v)
      else (Replying (''handle error: '' @ session_error_text (UnknownCommand (Command msg))), v))"

fun reader_step :: "int \<Rightarrow> sid \<Rightarrow> reader \<Rightarrow> server \<Rightarrow> reader \<times> server" where
  "reader_step now i (Handling msg) v = dispatch i msg v"
| "reader_step now i (AckSub p) v =
     (Touching, fst (on_session i (SendOK (''subscribed to '' @ p)) v))"
| "reader_step now i (UnsubRouter p) v =
     (AckUnsub p, v\<lparr>router := Unsubscribe p i (router v)\<rparr>)"
| "reader_step now i (AckUnsub p) v =
     (Touching, fst (on_session i (SendOK (''unsubscribed from '' @ p)) v))"
| "reader_step now i (Publishing e []) v = (Touching, v)"
| "reader_step now i (Publishing e (j # js)) v =
     (Publishing e js, fst (on_session j (SendEncoded e) v))"
| "reader_step now i Pinging v =
     (case on_session i SendPong v of
        (v', None) \<Rightarrow> (Touching, v')
      | (v', Some err) \<Rightarrow> (Replying (''handle error: '' @ session_error_text err), v'))"
| "reader_step now i (Replying t) v = (Touching, fst (on_session i (SendError t) v))"
| "reader_step now i Touching v =
     (LoopTop, v\<lparr>objects := (objects v)(i := (objects v i)\<lparr>lastPing := now\<rparr>)\<rparr>)"
| "reader_step now i pc v = (pc, v)"

fun busy :: "reader \<Rightarrow> bool" where
  "busy NotStarted = False" | "busy LoopTop = False" | "busy Reading = False"
| "busy Stopped = False" | "busy _ = True"

text \<open>The steps of \<open>Close\<close> after the flags are set.\<close>

definition flag_closed :: "sid \<Rightarrow> server \<Rightarrow> server" where
  "flag_closed i v =
     v\<lparr>objects := (objects v)(i := (objects v i)\<lparr>closeOnce := True, closed := True,
        done_closed := True\<rparr>)\<rparr>"

fun close_step :: "sid \<Rightarrow> closer \<Rightarrow> server \<Rightarrow> (closer \<times> server) option" where
  "close_step i Flagged v = Some (RouterCleaned, v\<lparr>router := RemoveSession i (router v)\<rparr>)"
| "close_step i RouterCleaned v = do { v' \<leftarrow> removeSession i v; Some (TableCleaned, v') }"
| "close_step i TableCleaned v =
     Some (CloseDone,
       if has_conn (objects v i)
       then v\<lparr>objects := (objects v)(i := (objects v i)\<lparr>conn_closed := True\<rparr>)\<rparr> else v)"
| "close_step i _ v = None"

text \<open>
  The transitions. A reader that is inside \<open>ParseFromReader\<close> may still return a message after the
  session was closed; at the top of its loop it sees \<open>done\<close>. \<open>Close\<close> is begun by a stopped reader,
  by a goroutine that a failed send started, or by the write loop after a failed write; the last
  two are counted by \<open>pendingClose\<close>.
  The configured budget is at most \<open>2 ^ 62\<close>.
\<close>

inductive sys_step :: "system \<Rightarrow> system \<Rightarrow> bool" where
  s_accept: "acceptLoop_body now (Inr ()) (srv st) = (v, True) \<Longrightarrow> i = next_sid (srv st) \<Longrightarrow>
    sys_step st (st\<lparr>srv := v, readers := (readers st)(i := LoopTop),
                    writing := (writing st)(i := True)\<rparr>)"
| s_config: "maxQueued \<le> 2 ^ 62 \<Longrightarrow>
    sys_step st (st\<lparr>srv := SetSessionBackpressure maxQueued cap (srv st)\<rparr>)"
| s_timeout: "sys_step st (st\<lparr>srv := SetSessionWriteTimeout d (srv st)\<rparr>)"
| s_top: "readers st i = LoopTop \<Longrightarrow>
    sys_step st (st\<lparr>readers := (readers st)
      (i := if done_closed (objects (srv st) i) then Stopped else Reading)\<rparr>)"
| s_read: "readers st i = Reading \<Longrightarrow> valid_message msg \<Longrightarrow>
    sys_step st (st\<lparr>readers := (readers st)(i := Handling msg)\<rparr>)"
| s_read_error: "readers st i = Reading \<Longrightarrow>
    sys_step st (st\<lparr>readers := (readers st)(i := Stopped)\<rparr>)"
| s_handle: "busy (readers st i) \<Longrightarrow> reader_step now i (readers st i) (srv st) = (pc, v) \<Longrightarrow>
    sys_step st (st\<lparr>srv := v, readers := (readers st)(i := pc)\<rparr>)"
| s_write: "writing st i \<Longrightarrow> dequeue (objects (srv st) i) = Some (p, s) \<Longrightarrow>
    sys_step st (st\<lparr>srv := (srv st)\<lparr>objects := (objects (srv st))(i := s)\<rparr>,
                    taken := (taken st)(i := taken st i @ [p])\<rparr>)"
| s_write_fail: "writing st i \<Longrightarrow> dequeue (objects (srv st) i) = Some (p, s) \<Longrightarrow>
    sys_step st (st\<lparr>srv := (srv st)\<lparr>objects := (objects (srv st))
                               (i := s\<lparr>pendingClose := pendingClose s + 1\<rparr>)\<rparr>,
                    taken := (taken st)(i := taken st i @ [p]),
                    writing := (writing st)(i := False)\<rparr>)"
| s_write_done: "writing st i \<Longrightarrow> done_closed (objects (srv st) i) \<Longrightarrow>
    sys_step st (st\<lparr>writing := (writing st)(i := False)\<rparr>)"
| s_close: "closers st i = CloseIdle \<Longrightarrow> i < next_sid (srv st) \<Longrightarrow>
    readers st i = Stopped \<or> 0 < pendingClose (objects (srv st) i) \<Longrightarrow>
    sys_step st (st\<lparr>srv := flag_closed i (srv st), closers := (closers st)(i := Flagged)\<rparr>)"
| s_closing: "close_step i (closers st i) (srv st) = Some (c, v) \<Longrightarrow>
    sys_step st (st\<lparr>srv := v, closers := (closers st)(i := c)\<rparr>)"

inductive_cases sys_stepE: "sys_step st st'"

definition sys_start :: "system \<Rightarrow> bool" where
  "sys_start st \<longleftrightarrow>
     (\<exists>(mk :: bytes \<Rightarrow> string + bytes) address key objs. NewServer mk address key objs = Inr (srv st)) \<and>
     readers st = (\<lambda>i. NotStarted) \<and> closers st = (\<lambda>i. CloseIdle) \<and>
     writing st = (\<lambda>i. False) \<and> taken st = (\<lambda>i. [])"

section \<open>What a handler leaves alone\<close>

definition same_frame :: "server \<Rightarrow> server \<Rightarrow> bool" where
  "same_frame v v' \<longleftrightarrow> sessions v' = sessions v \<and> next_sid v' = next_sid v \<and>
     config v' = config v \<and> mu_held v' = mu_held v \<and>
     (\<forall>j. closed (objects v' j) = closed (objects v j) \<and>
          closeOnce (objects v' j) = closeOnce (objects v j) \<and>
          done_closed (objects v' j) = done_closed (objects v j) \<and>
          (session_ok (objects v j) \<longrightarrow> session_ok (objects v' j)) \<and>
          prefix (queue (objects v j)) (queue (objects v' j)))"

lemmas same_frame_defs = same_frame_def send_ok send_prefix

lemma same_frame_refl [simp]: "same_frame v v"
  by (simp add: same_frame_def)

lemma same_frame_send [simp]:
  "same_frame v (fst (on_session i (SendOK t) v))"
  "same_frame v (fst (on_session i (SendError t) v))"
  "same_frame v (fst (on_session i (SendEncoded e) v))"
  "same_frame v (fst (on_session i SendPong v))"
  by (simp_all add: same_frame_defs on_session_fst)

text \<open>The sends change neither the router nor the list of subjects.\<close>

lemma send_subs [simp]:
  "router (fst (on_session i f v)) = router v"
  "subjects (objects (fst (on_session i (SendOK t) v)) j) = subjects (objects v j)"
  "subjects (objects (fst (on_session i (SendError t) v)) j) = subjects (objects v j)"
  "subjects (objects (fst (on_session i (SendEncoded e) v)) j) = subjects (objects v j)"
  "subjects (objects (fst (on_session i SendPong v)) j) = subjects (objects v j)"
  by (simp_all add: on_session_fst)

lemma pinging_step:
  "\<exists>pc. reader_step now i Pinging v = (pc, fst (on_session i SendPong v)) \<and>
     (pc = Touching \<or> (\<exists>t. pc = Replying t))"
  by (cases "on_session i SendPong v") (auto split: option.splits)

lemma dispatch_frame: "same_frame v (snd (dispatch i msg v))"
  by (simp add: dispatch_def same_frame_def Let_def)

lemma reader_step_frame:
  assumes "reader_step now i pc v = (pc', v')"
  shows "same_frame v v'"
proof (cases pc)
  case (Handling msg)
  then show ?thesis using assms dispatch_frame [of v i msg] by simp
next
  case Pinging
  then show ?thesis using assms pinging_step [of now i v] by auto
next
  case (Publishing e js)
  then show ?thesis using assms by (cases js) auto
next
  case Touching
  then show ?thesis using assms by (auto simp: same_frame_def split: if_splits)
next
  case (UnsubRouter p)
  then show ?thesis using assms by (auto simp: same_frame_def)
qed (use assms in auto)

text \<open>How the subscriptions of the sessions change, in the four cases that matter.\<close>

lemma reader_step_subs:
  assumes "reader_step now i pc v = (pc', v')" and "busy pc"
  obtains
    (sub) p where "pc' = AckSub p" "p \<notin> set (subjects (objects v i))"
      "router v' = Subscribe p i (router v)" "\<exists>m. pc = Handling m"
      "\<forall>j. subjects (objects v' j) = (if j = i then subjects (objects v i) @ [p] else subjects (objects v j))"
  | (unsub_list) p where "pc' = UnsubRouter p" "router v' = router v" "\<exists>m. pc = Handling m"
      "\<forall>j. subjects (objects v' j) =
         (if j = i then filter (\<lambda>q. q \<noteq> p) (subjects (objects v i)) else subjects (objects v j))"
  | (unsub_router) p where "pc = UnsubRouter p" "pc' = AckUnsub p"
      "router v' = Unsubscribe p i (router v)"
      "\<forall>j. subjects (objects v' j) = subjects (objects v j)"
  | (same) "router v' = router v" "\<forall>j. subjects (objects v' j) = subjects (objects v j)"
      "\<forall>p. pc' \<noteq> UnsubRouter p" "\<forall>p. pc \<noteq> UnsubRouter p" "pc' \<noteq> Reading" "\<forall>m. pc' \<noteq> Handling m"
proof (cases pc)
  case (Handling m)
  show ?thesis
  proof (cases "Command m = CmdSub \<and> Subject m \<notin> set (subjects (objects v i))")
    case True
    then show ?thesis
      using assms Handling by (intro sub [of "Subject m"]) (auto simp: dispatch_def Let_def)
  next
    case f: False
    show ?thesis
    proof (cases "Command m = CmdUnsub")
      case True
      then show ?thesis
        using assms Handling
        by (intro unsub_list [of "Subject m"]) (auto simp: dispatch_def cmd_defs Let_def)
    next
      case False
      then show ?thesis
        using assms Handling f
        by (intro same) (auto simp: dispatch_def Let_def split: if_splits)
    qed
  qed
next
  case Pinging
  then show ?thesis using assms pinging_step [of now i v] by (intro same) auto
next
  case (Publishing e js)
  then show ?thesis using assms by (cases js) (auto intro!: same)
next
  case (UnsubRouter p)
  then show ?thesis using assms by (intro unsub_router) auto
qed (use assms in \<open>auto intro!: same\<close>)

section \<open>Invariant\<close>

text \<open>
  The parts of the invariant. \<open>base_inv\<close>: identities not yet given out are unused, every session
  keeps its queue invariant, nobody blocks on the mutex. \<open>flags_inv\<close>: the flags of a session say
  whether \<open>Close\<close> has begun. \<open>table_inv\<close>: the table holds the sessions that \<open>Close\<close> has not yet
  taken out. \<open>subs_inv\<close>: the router agrees with the lists of the sessions, up to an UNSUB under way
  and to what \<open>Close\<close> removed. \<open>leak_inv\<close>: what can remain after \<open>Close\<close> cleaned the router.
\<close>

definition base_inv :: "system \<Rightarrow> bool" where
  "base_inv st \<longleftrightarrow> \<not> mu_held (srv st) \<and> maxSessionQueuedBytes (config (srv st)) \<le> 2 ^ 62 \<and>
     (\<forall>i < next_sid (srv st). session_ok (objects (srv st) i)) \<and>
     (\<forall>i. next_sid (srv st) \<le> i \<longrightarrow>
        readers st i = NotStarted \<and> closers st i = CloseIdle \<and> \<not> writing st i \<and> taken st i = [])"

definition flags_inv :: "system \<Rightarrow> bool" where
  "flags_inv st \<longleftrightarrow> (\<forall>i < next_sid (srv st).
     closed (objects (srv st) i) = (closers st i \<noteq> CloseIdle) \<and>
     done_closed (objects (srv st) i) = (closers st i \<noteq> CloseIdle) \<and>
     closeOnce (objects (srv st) i) = (closers st i \<noteq> CloseIdle))"

definition table_inv :: "system \<Rightarrow> bool" where
  "table_inv st \<longleftrightarrow> distinct (sessions (srv st)) \<and>
     (\<forall>i. i \<in> set (sessions (srv st)) \<longleftrightarrow>
        i < next_sid (srv st) \<and> closers st i \<notin> {TableCleaned, CloseDone})"

definition unsubscribing :: "system \<Rightarrow> sid \<Rightarrow> string \<Rightarrow> bool" where
  "unsubscribing st i p \<longleftrightarrow> readers st i = UnsubRouter p"

definition subs_inv :: "system \<Rightarrow> bool" where
  "subs_inv st \<longleftrightarrow> router_ok (router (srv st)) \<and>
     (\<forall>p i. (p, i) \<in> subs_rel (router (srv st)) \<longrightarrow> i < next_sid (srv st) \<and>
        (p \<in> set (subjects (objects (srv st) i)) \<or> unsubscribing st i p)) \<and>
     (\<forall>p i. i < next_sid (srv st) \<and> closers st i \<in> {CloseIdle, Flagged} \<and>
        p \<in> set (subjects (objects (srv st) i)) \<longrightarrow> (p, i) \<in> subs_rel (router (srv st))) \<and>
     (\<forall>p i. unsubscribing st i p \<longrightarrow> p \<notin> set (subjects (objects (srv st) i)))"

text \<open>The patterns of a session in the router; the readers that may still handle a message.\<close>

definition patterns :: "server \<Rightarrow> sid \<Rightarrow> string set" where
  "patterns v i = {p. (p, i) \<in> subs_rel (router v)}"

fun may_handle :: "reader \<Rightarrow> bool" where
  "may_handle Reading = True" | "may_handle (Handling m) = True" | "may_handle _ = False"

fun cleaned :: "closer \<Rightarrow> bool" where
  "cleaned CloseIdle = False" | "cleaned Flagged = False" | "cleaned _ = True"

definition leak_bound :: "reader \<Rightarrow> string set \<Rightarrow> bool" where
  "leak_bound pc P \<longleftrightarrow> (if may_handle pc then P = {} else \<exists>p. P \<subseteq> {p})"

definition leak_inv :: "system \<Rightarrow> bool" where
  "leak_inv st \<longleftrightarrow> (\<forall>i. cleaned (closers st i) \<longrightarrow> leak_bound (readers st i) (patterns (srv st) i))"

lemma leak_bound_mono: "leak_bound pc P \<Longrightarrow> Q \<subseteq> P \<Longrightarrow> \<not> may_handle pc' \<or> may_handle pc \<Longrightarrow> leak_bound pc' Q"
  by (auto simp: leak_bound_def split: if_splits)

lemma leak_bound_empty [simp]: "leak_bound pc {}"
  by (simp add: leak_bound_def)

lemmas inv_defs = base_inv_def flags_inv_def table_inv_def

lemma accept_fields:
  assumes "acceptLoop_body now (Inr ()) v = (v', True)" and "next_sid v \<notin> set (sessions v)"
  shows "next_sid v' = Suc (next_sid v)" "sessions v' = sessions v @ [next_sid v]"
    "router v' = router v" "config v' = config v" "mu_held v' = mu_held v"
    "objects v' = (objects v)(next_sid v := NewSession True (Some (config v)) now)"
  using assms by (auto simp: acceptLoop_body_def accept_session_def Let_def split: if_splits)

lemma config_fields:
  "next_sid (SetSessionBackpressure m c v) = next_sid v"
  "sessions (SetSessionBackpressure m c v) = sessions v"
  "router (SetSessionBackpressure m c v) = router v"
  "mu_held (SetSessionBackpressure m c v) = mu_held v"
  "objects (SetSessionBackpressure m c v) = objects v"
  "m \<le> b \<Longrightarrow> maxSessionQueuedBytes (config v) \<le> b \<Longrightarrow>
     maxSessionQueuedBytes (config (SetSessionBackpressure m c v)) \<le> b"
  by (simp_all add: SetSessionBackpressure_def Let_def)

lemma timeout_fields:
  "next_sid (SetSessionWriteTimeout d v) = next_sid v"
  "sessions (SetSessionWriteTimeout d v) = sessions v"
  "router (SetSessionWriteTimeout d v) = router v"
  "mu_held (SetSessionWriteTimeout d v) = mu_held v"
  "objects (SetSessionWriteTimeout d v) = objects v"
  "maxSessionQueuedBytes (config (SetSessionWriteTimeout d v)) = maxSessionQueuedBytes (config v)"
  by (simp_all add: SetSessionWriteTimeout_def)

lemma dequeue_frame:
  assumes "dequeue s = Some (p, s')"
  shows "subjects s' = subjects s" "closed s' = closed s" "done_closed s' = done_closed s"
    "closeOnce s' = closeOnce s" "queue s = p # queue s'"
  using assms by (auto simp: dequeue_def try_recv_def split: option.splits list.splits)

lemma flag_fields [simp]:
  "next_sid (flag_closed i v) = next_sid v" "sessions (flag_closed i v) = sessions v"
  "router (flag_closed i v) = router v" "mu_held (flag_closed i v) = mu_held v"
  "config (flag_closed i v) = config v"
  "session_ok (objects (flag_closed i v) j) = session_ok (objects v j)"
  "subjects (objects (flag_closed i v) j) = subjects (objects v j)"
  "queue (objects (flag_closed i v) j) = queue (objects v j)"
  by (simp_all add: flag_closed_def session_ok_def)

text \<open>One step of \<open>Close\<close>, with everything it changes.\<close>

lemma close_step_cases:
  assumes "close_step i c v = Some (c', v')"
  obtains
    (clean_router) "c = Flagged" "c' = RouterCleaned" "v' = v\<lparr>router := RemoveSession i (router v)\<rparr>"
  | (clean_table) "c = RouterCleaned" "c' = TableCleaned"
      "v' = v\<lparr>sessions := filter (\<lambda>j. j \<noteq> i) (sessions v)\<rparr>"
  | (close_conn) b where "c = TableCleaned" "c' = CloseDone"
      "v' = v\<lparr>objects := (objects v)(i := (objects v i)\<lparr>conn_closed := b\<rparr>)\<rparr>"
proof (cases c)
  case TableCleaned
  then show ?thesis
    using assms close_conn [of "has_conn (objects v i) \<or> conn_closed (objects v i)"]
    by (cases "has_conn (objects v i)") auto
qed (use assms clean_router clean_table in \<open>auto simp: removeSession_def split: if_splits\<close>)

lemma session_ok_close [simp]:
  "session_ok (s\<lparr>conn_closed := b\<rparr>) = session_ok s" "session_ok (s\<lparr>pendingClose := n\<rparr>) = session_ok s"
  by (simp_all add: session_ok_def)

text \<open>Steps that only move a reader that is started and not about to leave the router.\<close>

lemma base_inv_pc:
  assumes "base_inv st" and "readers st i \<noteq> NotStarted"
  shows "base_inv (st\<lparr>readers := (readers st)(i := pc)\<rparr>)"
  using assms by (auto simp: base_inv_def)

lemma subs_inv_pc:
  assumes "subs_inv st" and "\<forall>p. readers st i \<noteq> UnsubRouter p" and "\<forall>p. pc \<noteq> UnsubRouter p"
  shows "subs_inv (st\<lparr>readers := (readers st)(i := pc)\<rparr>)"
proof -
  have "unsubscribing (st\<lparr>readers := (readers st)(i := pc)\<rparr>) j p = unsubscribing st j p" for j p
    using assms(2,3) by (simp add: unsubscribing_def)
  then show ?thesis using assms(1) by (simp add: subs_inv_def)
qed

lemma base_inv_step:
  assumes "sys_step st st'" and "base_inv st" and "table_inv st"
  shows "base_inv st'"
  using assms
proof (induction rule: sys_step.induct)
  case (s_accept now st v i)
  have n: "next_sid (srv st) \<notin> set (sessions (srv st))"
    using s_accept by (simp add: table_inv_def)
  show ?case
    using s_accept accept_fields [OF s_accept(1) n]
    by (auto simp: base_inv_def NewSession_ok less_Suc_eq)
next
  case (s_config m st c)
  then show ?case
    using config_fields(6) [OF s_config(1), of "srv st" c]
    by (simp add: base_inv_def config_fields(1-5))
next
  case (s_handle st i now pc v)
  have "i < next_sid (srv st)"
    using s_handle by (force simp: base_inv_def not_le [symmetric])
  then show ?case
    using s_handle reader_step_frame [OF s_handle(2)] by (simp add: base_inv_def same_frame_def)
next
  case (s_write st i p s)
  then show ?case
    by (auto simp: base_inv_def dest: dequeue_ok)
next
  case (s_write_fail st i p s)
  then show ?case
    by (auto simp: base_inv_def dest: dequeue_ok)
next
  case (s_closing i st c v)
  show ?case
    using s_closing by (cases rule: close_step_cases [OF s_closing(1)]) (auto simp: base_inv_def)
next
  case (s_close st i)
  then show ?case
    by (simp add: base_inv_def leD)
qed (simp_all add: base_inv_pc, simp_all add: base_inv_def timeout_fields)

lemma flags_inv_step:
  assumes "sys_step st st'" and "base_inv st" and "table_inv st" and "flags_inv st"
  shows "flags_inv st'"
  using assms
proof (induction rule: sys_step.induct)
  case (s_accept now st v i)
  have n: "next_sid (srv st) \<notin> set (sessions (srv st))"
    using s_accept by (simp add: table_inv_def)
  show ?case
    using s_accept accept_fields [OF s_accept(1) n]
    by (auto simp: base_inv_def flags_inv_def less_Suc_eq)
next
  case (s_handle st i now pc v)
  then show ?case
    using reader_step_frame [OF s_handle(2)] by (simp add: flags_inv_def same_frame_def)
next
  case (s_write st i p s)
  then show ?case
    using dequeue_frame [OF s_write(2)] by (simp add: flags_inv_def)
next
  case (s_write_fail st i p s)
  then show ?case
    using dequeue_frame [OF s_write_fail(2)] by (simp add: flags_inv_def)
next
  case (s_close st i)
  then show ?case
    by (simp add: flags_inv_def flag_closed_def)
next
  case (s_closing i st c v)
  show ?case
    using s_closing by (cases rule: close_step_cases [OF s_closing(1)]) (auto simp: flags_inv_def)
qed (simp_all add: flags_inv_def timeout_fields config_fields)

lemma table_inv_step:
  assumes "sys_step st st'" and "base_inv st" and "table_inv st"
  shows "table_inv st'"
  using assms
proof (induction rule: sys_step.induct)
  case (s_accept now st v i)
  have n: "next_sid (srv st) \<notin> set (sessions (srv st))"
    using s_accept by (simp add: table_inv_def)
  show ?case
    using s_accept accept_fields [OF s_accept(1) n] n
    by (auto simp: base_inv_def table_inv_def less_Suc_eq)
next
  case (s_handle st i now pc v)
  then show ?case
    using reader_step_frame [OF s_handle(2)] by (simp add: table_inv_def same_frame_def)
next
  case (s_close st i)
  then show ?case
    by (auto simp: table_inv_def)
next
  case (s_closing i st c v)
  show ?case
    using s_closing by (cases rule: close_step_cases [OF s_closing(1)]) (auto simp: table_inv_def)
qed (simp_all add: table_inv_def timeout_fields config_fields)

text \<open>The parts about subscriptions; \<open>Unsubscribe\<close> and \<open>RemoveSession\<close> only take away.\<close>

lemma subs_handle:
  assumes i: "subs_inv st" and b: "busy (readers st i)" "i < next_sid (srv st)"
    and r: "reader_step now i (readers st i) (srv st) = (pc, v)"
  shows "subs_inv (st\<lparr>srv := v, readers := (readers st)(i := pc)\<rparr>)"
proof -
  have n: "next_sid v = next_sid (srv st)"
    using reader_step_frame [OF r] by (simp add: same_frame_def)
  have ok: "router_ok (router (srv st))" using i by (simp add: subs_inv_def)
  show ?thesis
  proof (cases rule: reader_step_subs [OF r b(1), case_names sub unsub_list unsub_router same])
    case (sub p)
    then show ?thesis
      using i n b Subscribe_spec [OF ok, of p i] by (fastforce simp: subs_inv_def unsubscribing_def)
  next
    case (unsub_list p)
    then show ?thesis
      using i n b by (fastforce simp: subs_inv_def unsubscribing_def)
  next
    case (unsub_router p)
    then show ?thesis
      using i n b Unsubscribe_spec [OF ok, of p i]
      by (fastforce simp: subs_inv_def unsubscribing_def)
  next
    case same
    then show ?thesis
      using i n b by (fastforce simp: subs_inv_def unsubscribing_def)
  qed
qed

lemma subs_inv_step:
  assumes "sys_step st st'" and "base_inv st" and "table_inv st" and "subs_inv st"
  shows "subs_inv st'"
  using assms
proof (induction rule: sys_step.induct)
  case (s_accept now st v i)
  have n: "next_sid (srv st) \<notin> set (sessions (srv st))"
    using s_accept by (simp add: table_inv_def)
  show ?case
    using s_accept accept_fields [OF s_accept(1) n]
    by (fastforce simp: subs_inv_def unsubscribing_def less_Suc_eq)
next
  case (s_handle st i now pc v)
  then have "i < next_sid (srv st)"
    by (force simp: base_inv_def not_le [symmetric])
  then show ?case
    using s_handle subs_handle by blast
next
  case (s_write st i p s)
  then show ?case
    using dequeue_frame(1) [OF s_write(2)]
    by (auto simp: subs_inv_def unsubscribing_def)
next
  case (s_write_fail st i p s)
  then show ?case
    using dequeue_frame(1) [OF s_write_fail(2)]
    by (auto simp: subs_inv_def unsubscribing_def)
next
  case (s_close st i)
  then show ?case
    by (auto simp: subs_inv_def unsubscribing_def)
next
  case (s_closing i st c v)
  have ok: "router_ok (router (srv st))" using s_closing by (simp add: subs_inv_def)
  show ?case
    using s_closing RemoveSession_spec [OF ok, of i]
    by (cases rule: close_step_cases [OF s_closing(1)])
      (auto simp: subs_inv_def unsubscribing_def)
qed (simp_all add: subs_inv_pc, simp_all add: subs_inv_def unsubscribing_def timeout_fields
    config_fields)

lemma handle_patterns:
  assumes "reader_step now i pc v = (pc', v')" and "busy pc" and "router_ok (router v)"
  shows "\<not> may_handle pc' \<and> (\<forall>j. j \<noteq> i \<longrightarrow> patterns v' j = patterns v j) \<and>
    (patterns v' i \<subseteq> patterns v i \<or> may_handle pc \<and> (\<exists>p. patterns v' i \<subseteq> insert p (patterns v i)))"
proof (cases rule: reader_step_subs [OF assms(1,2), case_names sub unsub_list unsub_router same])
  case (sub p)
  have "subs_rel (router v') = insert (p, i) (subs_rel (router v))"
    using sub Subscribe_spec [OF assms(3), of p i] by simp
  then show ?thesis using sub by (auto simp: patterns_def)
next
  case (unsub_router p)
  then show ?thesis
    using Unsubscribe_spec [OF assms(3), of p i] by (auto simp: patterns_def)
next
  case same
  then have "\<not> may_handle pc'" by (cases pc') auto
  then show ?thesis using same by (simp add: patterns_def)
qed (simp add: patterns_def)

lemma leak_handle:
  assumes "leak_inv st" and "router_ok (router (srv st))" and "busy (readers st i)"
    and "reader_step now i (readers st i) (srv st) = (pc, v)"
  shows "leak_inv (st\<lparr>srv := v, readers := (readers st)(i := pc)\<rparr>)"
proof -
  note k = handle_patterns [OF assms(4,3,2)]
  have "leak_bound pc (patterns v i)" if "cleaned (closers st i)"
  proof -
    have l: "leak_bound (readers st i) (patterns (srv st) i)"
      using assms(1) that by (simp add: leak_inv_def)
    show ?thesis
    proof (cases "patterns v i \<subseteq> patterns (srv st) i")
      case True
      then show ?thesis using l k leak_bound_mono by blast
    next
      case False
      then show ?thesis using l k by (auto simp: leak_bound_def)
    qed
  qed
  then show ?thesis
    using assms(1) k by (simp add: leak_inv_def)
qed

lemma leak_top:
  assumes "leak_inv st" and "flags_inv st" and "base_inv st" and "readers st i = LoopTop"
  shows "leak_inv (st\<lparr>readers := (readers st)
      (i := if done_closed (objects (srv st) i) then Stopped else Reading)\<rparr>)"
proof -
  have "i < next_sid (srv st)"
    using assms(3,4) by (force simp: base_inv_def not_le [symmetric])
  then have "cleaned (closers st i) \<Longrightarrow> done_closed (objects (srv st) i)"
    using assms(2) by (auto simp: flags_inv_def)
  moreover have "cleaned (closers st i) \<Longrightarrow> leak_bound Stopped (patterns (srv st) i)"
    using assms(1,4) leak_bound_mono [of LoopTop "patterns (srv st) i" _ Stopped]
    by (auto simp: leak_inv_def)
  ultimately show ?thesis
    using assms(1) by (auto simp: leak_inv_def)
qed

lemma leak_inv_step:
  assumes "sys_step st st'" and "base_inv st" and "table_inv st" and "flags_inv st"
    and "subs_inv st" and "leak_inv st"
  shows "leak_inv st'"
  using assms
proof (induction rule: sys_step.induct)
  case (s_accept now st v i)
  have n: "next_sid (srv st) \<notin> set (sessions (srv st))"
    using s_accept by (simp add: table_inv_def)
  show ?case
    using s_accept accept_fields [OF s_accept(1) n]
    by (simp add: leak_inv_def base_inv_def patterns_def)
next
  case (s_top st i)
  then show ?case by (simp add: leak_top)
next
  case (s_handle st i now pc v)
  then show ?case
    by (intro leak_handle) (simp_all add: subs_inv_def)
next
  case (s_closing i st c v)
  have ok: "router_ok (router (srv st))" using s_closing by (simp add: subs_inv_def)
  have r: "patterns ((srv st)\<lparr>router := RemoveSession i (router (srv st))\<rparr>) j =
      (if j = i then {} else patterns (srv st) j)" for j
    using RemoveSession_spec [OF ok, of i] by (auto simp: patterns_def)
  show ?case
  proof (cases rule: close_step_cases [OF s_closing(1)])
    case 1
    then show ?thesis using s_closing(6) by (simp add: leak_inv_def r)
  next
    case 2
    then show ?thesis
      using s_closing(6) by (auto simp: leak_inv_def patterns_def)
  next
    case (3 b)
    then show ?thesis
      using s_closing(6) by (auto simp: leak_inv_def patterns_def)
  qed
qed (auto simp: leak_inv_def patterns_def timeout_fields config_fields leak_bound_def
    split: if_splits)

definition sys_inv :: "system \<Rightarrow> bool" where
  "sys_inv st \<longleftrightarrow> base_inv st \<and> flags_inv st \<and> table_inv st \<and> subs_inv st \<and> leak_inv st"

lemma sys_inv_start:
  assumes "sys_start st"
  shows "sys_inv st"
proof -
  obtain mk :: "bytes \<Rightarrow> string + bytes" and address key objs
    where "NewServer mk address key objs = Inr (srv st)"
    using assms by (auto simp: sys_start_def)
  from NewServer_fields [OF this] show ?thesis
    using assms
    by (simp add: sys_start_def sys_inv_def base_inv_def flags_inv_def table_inv_def subs_inv_def
        leak_inv_def unsubscribing_def)
qed

interpretation ss: invariant_system sys_start sys_step sys_inv
proof unfold_locales
  show "sys_start st \<Longrightarrow> sys_inv st" for st by (rule sys_inv_start)
  show "sys_inv st \<Longrightarrow> sys_step st st' \<Longrightarrow> sys_inv st'" for st st'
    unfolding sys_inv_def
    by (blast intro: base_inv_step flags_inv_step table_inv_step subs_inv_step leak_inv_step)
qed

section \<open>Executable steps\<close>

text \<open>A transition with the choices it makes, and its execution.\<close>

datatype action =
    Accept int
  | Configure int int
  | Timeout duration
  | Top sid
  | Read sid message
  | ReadError sid
  | Handle int sid
  | Write sid
  | WriteFail sid
  | WriteDone sid
  | BeginClose sid
  | Closing sid

fun exec_action :: "action \<Rightarrow> system \<Rightarrow> system option" where
  "exec_action (Accept now) st =
     (case acceptLoop_body now (Inr ()) (srv st) of
        (v, True) \<Rightarrow> Some (st\<lparr>srv := v, readers := (readers st)(next_sid (srv st) := LoopTop),
                            writing := (writing st)(next_sid (srv st) := True)\<rparr>)
      | (v, False) \<Rightarrow> None)"
| "exec_action (Configure m c) st =
     (if m \<le> 2 ^ 62 then Some (st\<lparr>srv := SetSessionBackpressure m c (srv st)\<rparr>) else None)"
| "exec_action (Timeout d) st = Some (st\<lparr>srv := SetSessionWriteTimeout d (srv st)\<rparr>)"
| "exec_action (Top i) st =
     (if readers st i = LoopTop
      then Some (st\<lparr>readers := (readers st)
             (i := if done_closed (objects (srv st) i) then Stopped else Reading)\<rparr>) else None)"
| "exec_action (Read i msg) st =
     (if readers st i = Reading \<and> valid_message msg
      then Some (st\<lparr>readers := (readers st)(i := Handling msg)\<rparr>) else None)"
| "exec_action (ReadError i) st =
     (if readers st i = Reading then Some (st\<lparr>readers := (readers st)(i := Stopped)\<rparr>) else None)"
| "exec_action (Handle now i) st =
     (if busy (readers st i)
      then case reader_step now i (readers st i) (srv st) of
          (pc, v) \<Rightarrow> Some (st\<lparr>srv := v, readers := (readers st)(i := pc)\<rparr>)
      else None)"
| "exec_action (Write i) st =
     (if writing st i
      then case dequeue (objects (srv st) i) of
          Some (p, s) \<Rightarrow> Some (st\<lparr>srv := (srv st)\<lparr>objects := (objects (srv st))(i := s)\<rparr>,
                                 taken := (taken st)(i := taken st i @ [p])\<rparr>)
        | None \<Rightarrow> None
      else None)"
| "exec_action (WriteFail i) st =
     (if writing st i
      then case dequeue (objects (srv st) i) of
          Some (p, s) \<Rightarrow> Some (st\<lparr>srv := (srv st)\<lparr>objects := (objects (srv st))
                                   (i := s\<lparr>pendingClose := pendingClose s + 1\<rparr>)\<rparr>,
                                 taken := (taken st)(i := taken st i @ [p]),
                                 writing := (writing st)(i := False)\<rparr>)
        | None \<Rightarrow> None
      else None)"
| "exec_action (WriteDone i) st =
     (if writing st i \<and> done_closed (objects (srv st) i)
      then Some (st\<lparr>writing := (writing st)(i := False)\<rparr>) else None)"
| "exec_action (BeginClose i) st =
     (if closers st i = CloseIdle \<and> i < next_sid (srv st) \<and>
         (readers st i = Stopped \<or> 0 < pendingClose (objects (srv st) i))
      then Some (st\<lparr>srv := flag_closed i (srv st), closers := (closers st)(i := Flagged)\<rparr>) else None)"
| "exec_action (Closing i) st =
     (case close_step i (closers st i) (srv st) of
        Some (c, v) \<Rightarrow> Some (st\<lparr>srv := v, closers := (closers st)(i := c)\<rparr>)
      | None \<Rightarrow> None)"

fun exec_all :: "action list \<Rightarrow> system \<Rightarrow> system option" where
  "exec_all [] st = Some st"
| "exec_all (a # as) st = do { st' \<leftarrow> exec_action a st; exec_all as st' }"

lemma exec_action_step: "exec_action a st = Some st' \<Longrightarrow> sys_step st st'"
proof (cases a)
  case (Top i)
  then show "exec_action a st = Some st' \<Longrightarrow> sys_step st st'"
    using s_top [of st i] by (simp split: if_splits)
next
  case (WriteFail i)
  then show "exec_action a st = Some st' \<Longrightarrow> sys_step st st'"
    using s_write_fail [of st i] by (auto split: if_splits option.splits)
qed (auto split: if_splits prod.splits bool.splits option.splits intro: sys_step.intros)

lemma step_exec_action: "sys_step st st' \<Longrightarrow> \<exists>a. exec_action a st = Some st'"
proof (induction rule: sys_step.induct)
  case (s_accept now st v i)
  then show ?case by (intro exI [of _ "Accept now"]) simp
next
  case (s_config m st c)
  then show ?case by (intro exI [of _ "Configure m c"]) simp
next
  case (s_timeout st d)
  show ?case by (intro exI [of _ "Timeout d"]) simp
next
  case (s_top st i)
  then show ?case by (intro exI [of _ "Top i"]) simp
next
  case (s_read st i m)
  then show ?case by (intro exI [of _ "Read i m"]) simp
next
  case (s_read_error st i)
  then show ?case by (intro exI [of _ "ReadError i"]) simp
next
  case (s_handle st i now pc v)
  then show ?case by (intro exI [of _ "Handle now i"]) simp
next
  case (s_write st i p s)
  then show ?case by (intro exI [of _ "Write i"]) simp
next
  case (s_write_fail st i p s)
  then show ?case by (intro exI [of _ "WriteFail i"]) simp
next
  case (s_write_done st i)
  then show ?case by (intro exI [of _ "WriteDone i"]) simp
next
  case (s_close st i)
  then show ?case by (intro exI [of _ "BeginClose i"]) simp
next
  case (s_closing i st c v)
  then show ?case by (intro exI [of _ "Closing i"]) simp
qed

lemma exec_all_steps: "exec_all as st = Some st' \<Longrightarrow> sys_step\<^sup>*\<^sup>* st st'"
  by (induction "as" arbitrary: st)
    (auto split: bind_splits intro: converse_rtranclp_into_rtranclp exec_action_step)

lemma steps_exec_all:
  assumes "sys_step\<^sup>*\<^sup>* st st'"
  shows "\<exists>as. exec_all as st = Some st'"
  using assms
proof (induction rule: converse_rtranclp_induct)
  case base
  show ?case by (intro exI [of _ "[]"]) simp
next
  case (step st st1)
  then obtain a "as" where "exec_action a st = Some st1" "exec_all as st1 = Some st'"
    using step_exec_action by blast
  then show ?case by (intro exI [of _ "a # as"]) simp
qed

section \<open>Queues only grow\<close>

text \<open>The packets that entered a session's queue, in order: those taken by the writer, then the rest.\<close>

definition history :: "system \<Rightarrow> sid \<Rightarrow> bytes list" where
  "history st j = taken st j @ queue (objects (srv st) j)"

lemma history_step:
  assumes "sys_step st st'" and "base_inv st" and "table_inv st" and "j < next_sid (srv st)"
  shows "prefix (history st j) (history st' j) \<and> j < next_sid (srv st')"
  using assms
proof (induction rule: sys_step.induct)
  case (s_accept now st v i)
  have n: "next_sid (srv st) \<notin> set (sessions (srv st))"
    using s_accept by (simp add: table_inv_def)
  show ?case
    using s_accept accept_fields [OF s_accept(1) n] by (simp add: history_def)
next
  case (s_handle st i now pc v)
  then show ?case
    using reader_step_frame [OF s_handle(2)] by (simp add: history_def same_frame_def)
next
  case (s_write st i p s)
  then show ?case
    using dequeue_frame(5) [OF s_write(2)] by (simp add: history_def)
next
  case (s_write_fail st i p s)
  then show ?case
    using dequeue_frame(5) [OF s_write_fail(2)] by (simp add: history_def)
next
  case (s_closing i st c v)
  show ?case
    using s_closing by (cases rule: close_step_cases [OF s_closing(1)]) (auto simp: history_def)
qed (simp_all add: history_def timeout_fields config_fields)

section \<open>Properties\<close>

text \<open>C2: In every reachable state of the running server, under every interleaving, the router agrees
  with the sessions: for a session whose Close has not begun, the patterns that the router holds
  are those in the session's own list, plus the one pattern of an UNSUB whose router step is still
  to come; every session the router holds has been accepted, and the router's map has no empty and
  no repeated entry.\<close>

theorem router_agrees_with_sessions:
  assumes "reach sys_start sys_step st"
  shows "router_ok (router (srv st)) \<and>
    (\<forall>i. i < next_sid (srv st) \<and> closers st i = CloseIdle \<longrightarrow>
       set (subjects (objects (srv st) i)) \<subseteq> patterns (srv st) i \<and>
       patterns (srv st) i \<subseteq>
         set (subjects (objects (srv st) i)) \<union> {p. readers st i = UnsubRouter p}) \<and>
    (\<forall>i. patterns (srv st) i \<noteq> {} \<longrightarrow> i < next_sid (srv st))"
proof -
  have inv: "subs_inv st" using ss.reach_inv [OF assms] by (simp add: sys_inv_def)
  have up: "patterns (srv st) i \<subseteq>
      set (subjects (objects (srv st) i)) \<union> {p. readers st i = UnsubRouter p}" for i
    using inv by (auto simp: subs_inv_def patterns_def unsubscribing_def)
  have low: "i < next_sid (srv st) \<Longrightarrow> closers st i = CloseIdle \<Longrightarrow>
      set (subjects (objects (srv st) i)) \<subseteq> patterns (srv st) i" for i
    using inv by (auto simp: subs_inv_def patterns_def)
  have acc: "patterns (srv st) i \<noteq> {} \<Longrightarrow> i < next_sid (srv st)" for i
    using inv by (auto simp: subs_inv_def patterns_def)
  show ?thesis
    using inv up low acc unfolding subs_inv_def by blast
qed

text \<open>C12: In every reachable state the session table lists, without repetition, exactly the accepted
  sessions that Close has not yet taken out; every session keeps its byte counter exact and within
  its budget; and a session is marked closed exactly when its Close has begun.\<close>

theorem sessions_consistent:
  assumes "reach sys_start sys_step st"
  shows "distinct (sessions (srv st)) \<and>
    set (sessions (srv st)) = {i. i < next_sid (srv st) \<and> closers st i < TableCleaned} \<and>
    Connections (GetStats (srv st)) =
      card {i. i < next_sid (srv st) \<and> closers st i < TableCleaned} \<and>
    (\<forall>i < next_sid (srv st). session_ok (objects (srv st) i) \<and>
       (closed (objects (srv st) i) \<longleftrightarrow> CloseIdle < closers st i))"
proof -
  have inv: "sys_inv st" by (rule ss.reach_inv [OF assms])
  have d: "distinct (sessions (srv st))" using inv by (simp add: sys_inv_def table_inv_def)
  have s: "set (sessions (srv st)) = {i. i < next_sid (srv st) \<and> closers st i < TableCleaned}"
    using inv by (auto simp: sys_inv_def table_inv_def)
  show ?thesis
    using inv d s distinct_card [OF d]
    by (simp add: sys_inv_def base_inv_def flags_inv_def GetStats_def)
qed

text \<open>After Close has cleaned the router, at most one subscription of that session can reappear:
  the reader may be past its check of \<open>done\<close> and handle one more message.\<close>

lemma closed_session_leak_bounded:
  assumes "reach sys_start sys_step st" and "RouterCleaned \<le> closers st i"
  shows "\<exists>p. patterns (srv st) i \<subseteq> {p}"
proof -
  have "leak_inv st" "cleaned (closers st i)"
    using ss.reach_inv [OF assms(1)] assms(2) by (auto simp: sys_inv_def)
  then have "leak_bound (readers st i) (patterns (srv st) i)"
    by (simp add: leak_inv_def)
  then show ?thesis by (auto simp: leak_bound_def split: if_splits)
qed

text \<open>The packets that entered a session's queue are never reordered, dropped or rewritten by
  later steps: what the writer has taken followed by what is queued only grows at its end.\<close>

lemma history_grows:
  assumes "reach sys_start sys_step st" and "sys_step\<^sup>*\<^sup>* st st'" and "j < next_sid (srv st)"
  shows "prefix (history st j) (history st' j)"
proof -
  have "prefix (history st j) (history st' j) \<and> j < next_sid (srv st') \<and> sys_inv st'"
    using assms(2)
  proof (induction rule: rtranclp_induct)
    case base
    then show ?case using ss.reach_inv [OF assms(1)] assms(3) by simp
  next
    case (step t u)
    then have "prefix (history t j) (history u j) \<and> j < next_sid (srv u)"
      using history_step by (simp add: sys_inv_def)
    with step show ?case
      using ss.inv_step by (meson prefix_order.trans)
  qed
  then show ?thesis by simp
qed

text \<open>\<open>Close\<close> never goes back, and its stages follow one another without waiting.\<close>

lemma close_progress: "sys_step st st' \<Longrightarrow> closers st i \<le> closers st' i"
proof (induction rule: sys_step.induct)
  case (s_close st j)
  then show ?case by (simp add: less_eq_closer_def)
next
  case (s_closing j st c v)
  then show ?case
    by (cases rule: close_step_cases [OF s_closing(1)]) (auto simp: less_eq_closer_def)
qed simp_all

lemma close_finishes:
  assumes "\<not> mu_held (srv st)" and "CloseIdle < closers st i"
  shows "\<exists>st'. sys_step\<^sup>*\<^sup>* st st' \<and> closers st' i = CloseDone \<and> next_sid (srv st') = next_sid (srv st) \<and>
    conn_closed (objects (srv st') i) =
      (conn_closed (objects (srv st) i) \<or> closers st i < CloseDone \<and> has_conn (objects (srv st) i))"
proof -
  have last: "\<exists>st'. sys_step\<^sup>*\<^sup>* st st' \<and> closers st' i = CloseDone \<and> next_sid (srv st') = next_sid (srv st) \<and>
      conn_closed (objects (srv st') i) = (conn_closed (objects (srv st) i) \<or> has_conn (objects (srv st) i))"
    if "closers st i = TableCleaned" for st
    using that r_into_rtranclp [of sys_step, OF s_closing, of i st CloseDone] by fastforce
  have middle: "\<exists>st'. sys_step\<^sup>*\<^sup>* st st' \<and> closers st' i = CloseDone \<and> next_sid (srv st') = next_sid (srv st) \<and>
      conn_closed (objects (srv st') i) = (conn_closed (objects (srv st) i) \<or> has_conn (objects (srv st) i))"
    if c: "closers st i = RouterCleaned" and mu: "\<not> mu_held (srv st)" for st
  proof -
    let ?v = "(srv st)\<lparr>sessions := filter (\<lambda>j. j \<noteq> i) (sessions (srv st))\<rparr>"
    let ?t = "st\<lparr>srv := ?v, closers := (closers st)(i := TableCleaned)\<rparr>"
    have "sys_step st ?t"
      by (rule s_closing) (simp add: c mu removeSession_def)
    then show ?thesis
      using last [of ?t] by (auto intro: converse_rtranclp_into_rtranclp)
  qed
  show ?thesis
  proof (cases "closers st i")
    case Flagged
    let ?t = "st\<lparr>srv := (srv st)\<lparr>router := RemoveSession i (router (srv st))\<rparr>,
        closers := (closers st)(i := RouterCleaned)\<rparr>"
    have "sys_step st ?t"
      by (rule s_closing) (simp add: Flagged)
    then show ?thesis
      using middle [of ?t] assms(1) Flagged
      by (auto simp: less_closer_def intro: converse_rtranclp_into_rtranclp)
  next
    case RouterCleaned
    then show ?thesis using middle [OF _ assms(1)] by (simp add: less_closer_def)
  next
    case TableCleaned
    then show ?thesis using last [of st] by (simp add: less_closer_def)
  next
    case CloseDone
    then show ?thesis by (intro exI [of _ st]) (simp add: less_closer_def)
  qed (use assms(2) in simp)
qed


section \<open>Example runs\<close>

definition start_server :: server where
  "start_server =
     \<lparr>addr = '':4000'', listener = NilListener, router = NewRouter, sessions = [],
      mu_held = False, srv_done = False, srv_closeOnce = False,
      config = \<lparr>sessionOutChanCap = 1024, maxSessionQueuedBytes = 32 * 1024 * 1024,
                sessionWriteTimeout = 5 * 1000000000\<rparr>,
      objects = (\<lambda>i. NewSession True None 0), next_sid = 0\<rparr>"

definition start_system :: system where
  "start_system = \<lparr>srv = start_server, readers = (\<lambda>i. NotStarted), closers = (\<lambda>i. CloseIdle),
     writing = (\<lambda>i. False), taken = (\<lambda>i. [])\<rparr>"

lemma start_system_start: "sys_start start_system"
proof -
  have "NewServer (Inr :: bytes \<Rightarrow> string + bytes) '':4000'' (replicate 32 0)
      (\<lambda>i. NewSession True None 0) = Inr start_server"
    by (simp add: NewServer_def newAES256BlockCrypt_def start_server_def)
  then show ?thesis
    by (auto simp: sys_start_def start_system_def)
qed

text \<open>
  A session whose budget is too small for a PONG is being closed while its reader has already
  read a SUB.
\<close>

abbreviation ping_message :: message where
  "ping_message \<equiv> NewMessageCmd CmdPing [] []"

abbreviation sub_message :: message where
  "sub_message \<equiv> NewMessageCmd CmdSub ''a'' []"

definition before_close :: "action list" where
  "before_close = [Configure 1 1, Accept 0, Top 0, Read 0 ping_message, Handle 0 0, Handle 0 0,
     Handle 0 0, Handle 0 0, Top 0, Read 0 sub_message]"

definition racing_close :: "action list" where
  "racing_close = [BeginClose 0, Closing 0, Closing 0, Closing 0, Handle 0 0, Handle 0 0,
     Handle 0 0, Top 0]"

lemma valid_small: "length t \<le> 100 \<Longrightarrow> valid_message (NewMessageCmd c t [])"
  by (simp add: valid_message_def NewMessageCmd_def body_len_def max_lens)

lemmas run_defs = before_close_def racing_close_def start_system_def start_server_def
  SetSessionBackpressure_def acceptLoop_body_def accept_session_def Let_def valid_small dispatch_def
  NewSession_def NewMessageCmd_def cmd_defs on_session_def SendPong_def SendError_def SendOK_def
  enqueueEncoded_def body_len_def truncateUTF8_def max_lens flag_closed_def removeSession_def
  RemoveSession_def NewRouter_def Subscribe_def map_index_def valid_message_def

lemma exec_reach: "exec_all as start_system = Some st \<Longrightarrow> reach sys_start sys_step st"
  by (rule reach_steps [OF exec_all_steps]) (auto intro: reach_start start_system_start)

lemma before_close_runs:
  "\<exists>st. exec_all before_close start_system = Some st \<and> next_sid (srv st) = 1 \<and>
     closers st 0 = CloseIdle \<and> subjects (objects (srv st) 0) = [] \<and>
     readers st 0 = Handling sub_message \<and> 0 < pendingClose (objects (srv st) 0)"
  by (simp add: run_defs)

lemma racing_close_runs:
  "\<exists>st. exec_all (before_close @ racing_close) start_system = Some st \<and> closers st 0 = CloseDone \<and>
     readers st 0 = Stopped \<and> sessions (srv st) = [] \<and> subscriptions (router (srv st)) = [(''a'', [0])]"
  by (simp add: run_defs)

theorem router_agrees_with_sessions_witness:
  "\<exists>st. exec_all before_close start_system = Some st \<and> next_sid (srv st) = 1 \<and>
     patterns (srv st) 0 = {}"
proof -
  obtain st where st: "exec_all before_close start_system = Some st" "next_sid (srv st) = 1"
    "closers st 0 = CloseIdle" "subjects (objects (srv st) 0) = []" "readers st 0 = Handling sub_message"
    using before_close_runs by blast
  have "patterns (srv st) 0 \<subseteq> set (subjects (objects (srv st) 0)) \<union> {p. readers st 0 = UnsubRouter p}"
    using router_agrees_with_sessions [OF exec_reach [OF st(1)]] st by simp
  with st show ?thesis by auto
qed

theorem sessions_consistent_witness:
  "\<exists>st. exec_all before_close start_system = Some st \<and> sessions (srv st) = [0]"
proof -
  obtain st where st: "exec_all before_close start_system = Some st" "next_sid (srv st) = 1"
    "closers st 0 = CloseIdle"
    using before_close_runs by blast
  have e: "{i. i < next_sid (srv st) \<and> closers st i < TableCleaned} = {0}"
    using st by auto
  have "set (sessions (srv st)) = {0}" "distinct (sessions (srv st))"
    using sessions_consistent [OF exec_reach [OF st(1)]] unfolding e by simp_all
  then have "sessions (srv st) = [0]"
    by (cases "sessions (srv st)") (auto simp: subset_singleton_iff)
  with st show ?thesis by blast
qed


text \<open>C20: A closed session can stay in the router for good: there is a reachable state in which
  Close has finished and the reader has stopped, no session is in the table, and the router still
  counts a subscription of the closed session and returns it to every publisher, because nothing
  makes \<open>handleSubscribe\<close> and Close exclude each other.\<close>

theorem closed_session_leaks:
  "\<exists>st. reach sys_start sys_step st \<and> closers st 0 = CloseDone \<and> readers st 0 = Stopped \<and>
     Connections (GetStats (srv st)) = 0 \<and> TotalSubscriptions (GetStats (srv st)) = 1 \<and>
     FindSubscribers (router (srv st)) ''a'' = [0]"
proof -
  obtain st where st: "exec_all (before_close @ racing_close) start_system = Some st"
    "closers st 0 = CloseDone" "readers st 0 = Stopped" "sessions (srv st) = []"
    "subscriptions (router (srv st)) = [(''a'', [0])]"
    using racing_close_runs by blast
  have "Match ''a'' ''a''" by code_simp
  then show ?thesis
    using exec_reach [OF st(1)] st
    by (auto simp: GetStats_def GetTotalSubscriptions_def FindSubscribers_def)
qed

section \<open>The handlers as one step\<close>

text \<open>Iterating a step function some number of times.\<close>

definition runs_to :: "('s \<Rightarrow> 's) \<Rightarrow> 's \<Rightarrow> 's \<Rightarrow> bool" where
  "runs_to f x y \<longleftrightarrow> (\<exists>n. (f ^^ n) x = y)"

lemma runs_to_refl: "runs_to f x x"
  unfolding runs_to_def by (intro exI [of _ 0]) simp

lemma runs_to_step: "f x = x' \<Longrightarrow> runs_to f x' y \<Longrightarrow> runs_to f x y"
  unfolding runs_to_def by (metis funpow_Suc_right o_apply)

abbreviation reader_run :: "int \<Rightarrow> sid \<Rightarrow> reader \<times> server \<Rightarrow> reader \<times> server" where
  "reader_run now i \<equiv> \<lambda>(pc, v). reader_step now i pc v"

definition touch :: "int \<Rightarrow> sid \<Rightarrow> server \<Rightarrow> server" where
  "touch now i v = v\<lparr>objects := (objects v)(i := (objects v i)\<lparr>lastPing := now\<rparr>)\<rparr>"

lemma publish_runs:
  "runs_to (reader_run now i) (Touching, publish_loop e js v) y \<Longrightarrow>
   runs_to (reader_run now i) (Publishing e js, v) y"
  by (induction js arbitrary: v) (auto intro: runs_to_step)

lemma touching_runs: "runs_to (reader_run now i) (Touching, v) (LoopTop, touch now i v)"
  by (rule runs_to_step [OF _ runs_to_refl]) (simp add: touch_def)

lemma reply_runs:
  "runs_to (reader_run now i) (Replying t, v) (LoopTop, touch now i (fst (on_session i (SendError t) v)))"
  "runs_to (reader_run now i) (AckSub p, v)
     (LoopTop, touch now i (fst (on_session i (SendOK (''subscribed to '' @ p)) v)))"
  "runs_to (reader_run now i) (AckUnsub p, v)
     (LoopTop, touch now i (fst (on_session i (SendOK (''unsubscribed from '' @ p)) v)))"
  by (rule runs_to_step [OF _ touching_runs], simp)+

lemma unsub_runs:
  "runs_to (reader_run now i) (UnsubRouter p, v) (LoopTop, touch now i (fst (on_session i
     (SendOK (''unsubscribed from '' @ p)) (v\<lparr>router := Unsubscribe p i (router v)\<rparr>))))"
  by (rule runs_to_step [OF _ reply_runs(3)]) simp

lemma process_touch:
  "process_message now i m v = touch now i (case HandleMessage i m v of
     (v1, None) \<Rightarrow> v1
   | (v1, Some err) \<Rightarrow> fst (on_session i (SendError (''handle error: '' @ session_error_text err)) v1))"
  by (simp add: process_message_def touch_def Let_def split: prod.splits option.splits)

lemma ping_runs:
  assumes "Command m = CmdPing"
  shows "runs_to (reader_run now i) (Pinging, v) (LoopTop, process_message now i m v)"
proof (cases "on_session i SendPong v")
  case (Pair v' e)
  then show ?thesis
    using assms touching_runs [of now i v'] reply_runs(1) [of now i _ v']
    by (cases e) (auto intro!: runs_to_step [of "reader_run now i" "(Pinging, v)"]
        simp: process_touch HandleMessage_def handlePing_def cmd_defs)
qed


end
