(* ===== verification/Backpressure.thy ===== *)
theory Backpressure
  imports Session
begin

text \<open>
  The send queue under concurrency. Any number of goroutines (the readers of other sessions that
  publish, and the session's own reader that replies) run \<open>enqueueEncoded\<close> of
  \<open>src/server/session.go\<close> on one session while its write loop drains the queue. Here every
  atomic access is a step of its own: the load of \<open>closed\<close>, the load of the counter with the
  comparison against the budget, the compare-and-swap, the channel send, the undo, and in the
  write loop the receive, the subtraction and the write. The invariant shows that the counter
  stays exact and within the budget whatever the interleaving; the sequential
  \<^const>\<open>enqueueEncoded\<close> of theory \<open>Session\<close> is what one goroutine computes when no other one
  interferes.
\<close>

section \<open>State\<close>

text \<open>
  Where a goroutine stands in \<open>enqueueEncoded\<close>. \<open>Swapping p current\<close> holds the loaded value;
  from \<open>Sending\<close> on the bytes of the packet are reserved.
\<close>

datatype sender =
    Entering bytes
  | Loading bytes
  | Swapping bytes int
  | Sending bytes
  | Undoing bytes
  | Returned "session_error option"

text \<open>Where the write loop stands.\<close>

datatype writer =
    Selecting
  | Subtracting bytes
  | Writing bytes
  | WriterReturned

text \<open>
  The session, its senders and its writer. \<open>sent\<close> and \<open>written\<close> record the packets that went
  into the channel and onto the connection.
\<close>

record queue_state =
  sess :: session
  senders :: "sender list"
  writer :: writer
  sent :: "bytes list"
  written :: "bytes list"

section \<open>Steps\<close>

definition sender_step :: "sender \<Rightarrow> session \<Rightarrow> sender \<times> session" where
  "sender_step pc s =
     (case pc of
        Entering p \<Rightarrow> (if closed s then Returned (Some SessionClosed) else Loading p, s)
      | Loading p \<Rightarrow>
          let current = queuedBytes s; nxt = wrap64 (current + int (length p)) in
          if maxQueuedBytes s > 0 \<and> nxt > maxQueuedBytes s
          then (Returned (Some BackpressureLimitExceeded), s\<lparr>pendingClose := pendingClose s + 1\<rparr>)
          else (Swapping p current, s)
      | Swapping p current \<Rightarrow>
          if queuedBytes s = current
          then (Sending p, s\<lparr>queuedBytes := wrap64 (current + int (length p))\<rparr>)
          else (Loading p, s)
      | Sending p \<Rightarrow>
          (case try_send p (outChan s) of
             (c, Sent) \<Rightarrow> (Returned None, s\<lparr>outChan := c\<rparr>)
           | (c, _) \<Rightarrow> (Undoing p, s))
      | Undoing p \<Rightarrow>
          (Returned (Some SendQueueFull),
           s\<lparr>queuedBytes := wrap64 (queuedBytes s - int (length p)),
             pendingClose := pendingClose s + 1\<rparr>)
      | Returned r \<Rightarrow> (Returned r, s))"

text \<open>
  The write loop: \<open>select\<close> picks any ready case, so the receive may happen even when \<open>done\<close> is
  closed.
\<close>

inductive writer_step :: "writer \<Rightarrow> session \<Rightarrow> writer \<Rightarrow> session \<Rightarrow> bytes list \<Rightarrow> bool" where
  w_done: "done_closed s \<Longrightarrow> writer_step Selecting s WriterReturned s []"
| w_receive: "try_recv (outChan s) = Some (p, c) \<Longrightarrow>
    writer_step Selecting s (Subtracting p) (s\<lparr>outChan := c\<rparr>) []"
| w_subtract: "writer_step (Subtracting p) s (Writing p)
    (s\<lparr>queuedBytes := wrap64 (queuedBytes s - int (length p))\<rparr>) []"
| w_write: "writer_step (Writing p) s Selecting s [p]"
| w_fail: "writer_step (Writing p) s WriterReturned (s\<lparr>closed := True, done_closed := True\<rparr>) []"

text \<open>
  One step of the whole: a new call of \<open>enqueueEncoded\<close>, a step of one sender, a step of the
  writer, or \<open>Close\<close> run by another goroutine.
\<close>

inductive queue_step :: "queue_state \<Rightarrow> queue_state \<Rightarrow> bool" where
  q_call: "length p \<le> MaxBodyLen + 4 \<Longrightarrow> queue_step q (q\<lparr>senders := senders q @ [Entering p]\<rparr>)"
| q_sender: "t < length (senders q) \<Longrightarrow> sender_step (senders q ! t) (sess q) = (pc, s) \<Longrightarrow>
    queue_step q (q\<lparr>sess := s, senders := (senders q)[t := pc],
                    sent := sent q @ drop (length (queue (sess q))) (queue s)\<rparr>)"
| q_writer: "writer_step (writer q) (sess q) w s out \<Longrightarrow>
    queue_step q (q\<lparr>sess := s, writer := w, written := written q @ out\<rparr>)"
| q_close: "queue_step q (q\<lparr>sess := (sess q)\<lparr>closed := True, done_closed := True\<rparr>\<rparr>)"

inductive_cases writer_stepE: "writer_step w s w' s' out"
inductive_cases queue_stepE: "queue_step q q'"

definition queue_start :: "queue_state \<Rightarrow> bool" where
  "queue_start q \<longleftrightarrow> session_ok (sess q) \<and> queue (sess q) = [] \<and> senders q = [] \<and>
     writer q = Selecting \<and> sent q = [] \<and> written q = []"

section \<open>Invariant\<close>

text \<open>Bytes that are counted but not in the channel.\<close>

fun reserved :: "sender \<Rightarrow> int" where
  "reserved (Sending p) = int (length p)"
| "reserved (Undoing p) = int (length p)"
| "reserved _ = 0"

fun packet_of :: "sender \<Rightarrow> bytes" where
  "packet_of (Entering p) = p"
| "packet_of (Loading p) = p"
| "packet_of (Swapping p _) = p"
| "packet_of (Sending p) = p"
| "packet_of (Undoing p) = p"
| "packet_of (Returned _) = []"

fun uncounted :: "writer \<Rightarrow> int" where
  "uncounted (Subtracting p) = int (length p)"
| "uncounted _ = 0"

definition all_reserved :: "sender list \<Rightarrow> int" where
  "all_reserved ts = sum_list (map reserved ts)"

text \<open>The packets between the channel and the connection; one is lost if the write fails.\<close>

fun in_hand :: "writer \<Rightarrow> bytes list" where
  "in_hand (Subtracting p) = [p]"
| "in_hand (Writing p) = [p]"
| "in_hand _ = []"

fun swap_ok :: "int \<Rightarrow> sender \<Rightarrow> bool" where
  "swap_ok m (Swapping p current) \<longleftrightarrow> wrap64 (current + int (length p)) \<le> m"
| "swap_ok m _ \<longleftrightarrow> True"

definition queue_inv :: "queue_state \<Rightarrow> bool" where
  "queue_inv q \<longleftrightarrow>
     \<not> chan_closed (outChan (sess q)) \<and> chan_ok (outChan (sess q)) \<and>
     0 < maxQueuedBytes (sess q) \<and> maxQueuedBytes (sess q) \<le> 2 ^ 62 \<and>
     queuedBytes (sess q) =
       bytes_in (queue (sess q)) + all_reserved (senders q) + uncounted (writer q) \<and>
     queuedBytes (sess q) \<le> maxQueuedBytes (sess q) \<and>
     list_all (\<lambda>pc. swap_ok (maxQueuedBytes (sess q)) pc \<and> length (packet_of pc) \<le> MaxBodyLen + 4)
       (senders q)"

lemma reserved_nonneg [simp]: "0 \<le> reserved pc"
  by (cases pc) simp_all

lemma uncounted_nonneg [simp]: "0 \<le> uncounted w"
  by (cases w) simp_all

lemma all_reserved_simps [simp]:
  "all_reserved [] = 0" "all_reserved (pc # ts) = reserved pc + all_reserved ts"
  "all_reserved (ts @ us) = all_reserved ts + all_reserved us"
  by (simp_all add: all_reserved_def)

lemma all_reserved_nonneg [simp]: "0 \<le> all_reserved ts"
  by (induction ts) simp_all

lemma all_reserved_update:
  "t < length ts \<Longrightarrow> all_reserved (ts[t := pc]) = all_reserved ts - reserved (ts ! t) + reserved pc"
  by (induction ts arbitrary: t) (auto split: nat.splits)

lemma all_reserved_ge: "t < length ts \<Longrightarrow> reserved (ts ! t) \<le> all_reserved ts"
  by (induction ts arbitrary: t) (auto simp: nth_Cons split: nat.splits intro: add_increasing)

lemma queue_inv_start: "queue_start q \<Longrightarrow> queue_inv q"
  by (simp add: queue_start_def queue_inv_def session_ok_def)

text \<open>
  What one step of a sender keeps, with \<open>R\<close> standing for everything else that is counted.
\<close>

definition counted :: "session \<Rightarrow> int \<Rightarrow> bool" where
  "counted s R \<longleftrightarrow> queuedBytes s = bytes_in (queue s) + R \<and> queuedBytes s \<le> maxQueuedBytes s \<and>
     0 < maxQueuedBytes s \<and> maxQueuedBytes s \<le> 2 ^ 62 \<and> chan_ok (outChan s) \<and>
     \<not> chan_closed (outChan s)"

lemma give_back:
  assumes "counted s (R + n)" and "0 \<le> R" and "0 \<le> n"
  shows "wrap64 (queuedBytes s - n) = queuedBytes s - n"
proof -
  have b: "0 \<le> bytes_in (queue s)" by simp
  have "0 \<le> queuedBytes s - n" "queuedBytes s - n \<le> 2 ^ 62"
    using assms b unfolding counted_def by linarith+
  then show ?thesis by (simp add: wrap64_id)
qed

lemma sender_step_counted:
  assumes "counted s (R + reserved pc)" and "0 \<le> R" and "swap_ok (maxQueuedBytes s) pc"
    and "length (packet_of pc) \<le> MaxBodyLen + 4" and "sender_step pc s = (pc', s')"
  shows "counted s' (R + reserved pc') \<and> swap_ok (maxQueuedBytes s') pc' \<and>
    length (packet_of pc') \<le> MaxBodyLen + 4 \<and> maxQueuedBytes s' = maxQueuedBytes s"
proof (cases pc)
  case (Swapping p current)
  have b: "0 \<le> bytes_in (queue s)" "int (length p) \<le> 8388612"
    using assms(4) Swapping by (simp_all add: max_lens)
  then have "queuedBytes s = current \<Longrightarrow> wrap64 (current + int (length p)) = current + int (length p)"
    using assms(1,2) Swapping by (simp add: counted_def wrap64_id)
  then show ?thesis
    using assms Swapping by (auto simp: sender_step_def counted_def split: if_splits)
next
  case (Undoing p)
  have "wrap64 (queuedBytes s - int (length p)) = queuedBytes s - int (length p)"
    by (rule give_back [of s R]) (use assms Undoing in simp_all)
  then show ?thesis
    using assms Undoing by (auto simp: sender_step_def counted_def)
next
  case (Sending p)
  then show ?thesis
    using assms
    by (auto simp: sender_step_def counted_def try_send_def chan_ok_def split: if_splits)
qed (use assms in \<open>auto simp: sender_step_def counted_def Let_def split: if_splits\<close>)

lemma writer_step_counted:
  assumes "writer_step w s w' s' out" and "counted s (R + uncounted w)" and "0 \<le> R"
  shows "counted s' (R + uncounted w') \<and> maxQueuedBytes s' = maxQueuedBytes s"
  using assms
proof (induction rule: writer_step.induct)
  case (w_receive s p c)
  have "chan_ok (outChan s)" using w_receive by (simp add: counted_def)
  moreover have "chan_closed c = chan_closed (outChan s)"
    using w_receive(1) by (auto simp: try_recv_def split: list.splits)
  ultimately show ?case
    using w_receive ch.recv_some [OF w_receive(1)] ch.recv_ok [OF _ w_receive(1)]
    by (auto simp: counted_def)
next
  case (w_subtract p s)
  have "wrap64 (queuedBytes s - int (length p)) = queuedBytes s - int (length p)"
    by (rule give_back [of s R]) (use w_subtract in simp_all)
  then show ?case
    using w_subtract by (simp add: counted_def)
qed (simp_all add: counted_def)

lemma queue_inv_counted:
  "queue_inv q \<longleftrightarrow> counted (sess q) (all_reserved (senders q) + uncounted (writer q)) \<and>
     list_all (\<lambda>pc. swap_ok (maxQueuedBytes (sess q)) pc \<and> length (packet_of pc) \<le> MaxBodyLen + 4)
       (senders q)"
  by (auto simp: queue_inv_def counted_def)

lemma queue_inv_step:
  assumes "queue_inv q" and "queue_step q q'"
  shows "queue_inv q'"
  using assms(2,1)
proof (cases rule: queue_step.cases)
  case (q_call p)
  then show ?thesis
    using assms(1) by (simp add: queue_inv_counted)
next
  case (q_sender t pc s)
  let ?R = "all_reserved (senders q) - reserved (senders q ! t) + uncounted (writer q)"
  have la: "swap_ok (maxQueuedBytes (sess q)) (senders q ! t)"
    "length (packet_of (senders q ! t)) \<le> MaxBodyLen + 4"
    using assms(1) q_sender(2) by (simp_all add: queue_inv_counted list_all_length)
  have R: "0 \<le> ?R" using all_reserved_ge [OF q_sender(2)] by simp
  have c: "counted (sess q) (?R + reserved (senders q ! t))"
    using assms(1) by (simp add: queue_inv_counted algebra_simps)
  note k = sender_step_counted [OF c R la q_sender(3)]
  show ?thesis
    using assms(1) k q_sender(1,2)
    by (auto simp: queue_inv_counted all_reserved_update list_all_length nth_list_update
        algebra_simps)
next
  case (q_writer w s out)
  have "0 \<le> all_reserved (senders q)" by simp
  then show ?thesis
    using assms(1) q_writer(1) writer_step_counted [OF q_writer(2), of "all_reserved (senders q)"]
    by (simp add: queue_inv_counted)
next
  case q_close
  then show ?thesis
    using assms(1) by (simp add: queue_inv_counted counted_def)
qed

interpretation bq: invariant_system queue_start queue_step queue_inv
  by unfold_locales (auto intro: queue_inv_start queue_inv_step)

section \<open>Order\<close>

text \<open>What was sent and is neither written nor in the channel: at most the packet in hand.\<close>

definition fifo_inv :: "queue_state \<Rightarrow> bool" where
  "fifo_inv q \<longleftrightarrow>
     (if writer q = WriterReturned
      then \<exists>lost. length lost \<le> 1 \<and> sent q = written q @ lost @ queue (sess q)
      else sent q = written q @ in_hand (writer q) @ queue (sess q))"

lemma sender_step_queue:
  "sender_step pc s = (pc', s') \<Longrightarrow> queue s' = queue s @ drop (length (queue s)) (queue s')"
  by (auto simp: sender_step_def try_send_def Let_def split: sender.splits if_splits)

lemma writer_step_fifo:
  assumes "writer_step w s w' s' out"
  shows "w \<noteq> WriterReturned \<and>
    (if w' = WriterReturned then out = [] \<and> queue s' = queue s \<and> length (in_hand w) \<le> 1
     else in_hand w @ queue s = out @ in_hand w' @ queue s')"
  using assms
  by (induction rule: writer_step.induct) (auto dest: ch.recv_some)

lemma fifo_inv_step:
  assumes "fifo_inv q" and "queue_step q q'"
  shows "fifo_inv q'"
  using assms(2)
proof (cases rule: queue_step.cases)
  case (q_sender t pc s)
  have a: "queue s = queue (sess q) @ drop (length (queue (sess q))) (queue s)"
    by (rule sender_step_queue [OF q_sender(3)])
  obtain new where n: "drop (length (queue (sess q))) (queue s) = new"
    "queue s = queue (sess q) @ new"
    using a by blast
  show ?thesis
    using assms(1) n(2) unfolding q_sender(1) n(1) by (auto simp: fifo_inv_def)
next
  case (q_writer w s out)
  note k = writer_step_fifo [OF q_writer(2)]
  show ?thesis
    using assms(1) k unfolding q_writer(1) fifo_inv_def
    by (auto split: if_splits)
qed (use assms(1) in \<open>simp_all add: fifo_inv_def split: if_splits\<close>)

interpretation bf: invariant_system queue_start queue_step fifo_inv
proof unfold_locales
  show "queue_start q \<Longrightarrow> fifo_inv q" for q
    by (simp add: queue_start_def fifo_inv_def)
qed (rule fifo_inv_step)

section \<open>Properties\<close>

text \<open>C3: Under every interleaving of any number of senders with the write loop and with Close, the
  byte counter is exactly the bytes in the channel plus the bytes reserved by senders between
  their compare-and-swap and their channel send or undo, plus those the writer has taken but not
  yet subtracted; it never exceeds the budget, and the channel never exceeds its capacity.\<close>

theorem counter_exact_concurrent:
  assumes "reach queue_start queue_step q"
  shows "queuedBytes (sess q) =
      bytes_in (queue (sess q)) + all_reserved (senders q) + uncounted (writer q) \<and>
    bytes_in (queue (sess q)) \<le> maxQueuedBytes (sess q) \<and>
    queuedBytes (sess q) \<le> maxQueuedBytes (sess q) \<and>
    length (queue (sess q)) \<le> chan_cap (outChan (sess q))"
proof -
  have "0 \<le> all_reserved (senders q)" "0 \<le> uncounted (writer q)" by simp_all
  then show ?thesis
    using bq.reach_inv [OF assms] unfolding queue_inv_def chan_ok_def by linarith
qed

definition example_queue :: queue_state where
  "example_queue = \<lparr>sess = NewSession True None 0, senders = [], writer = Selecting, sent = [],
     written = []\<rparr>"

lemma example_queue_start: "reach queue_start queue_step example_queue"
  by (rule reach_start)
    (simp add: queue_start_def example_queue_def session_ok_def NewSession_def make_chan_def
      chan_ok_def)

lemma example_queue_reach:
  "reach queue_start queue_step (example_queue\<lparr>senders := [Entering [1, 2, 3]]\<rparr>)"
  using reach_step [OF example_queue_start q_call [of "[1, 2, 3]" example_queue]]
  by (simp add: example_queue_def max_lens)

theorem counter_exact_concurrent_witness:
  "queuedBytes (sess (example_queue\<lparr>senders := [Entering [1, 2, 3]]\<rparr>)) = 0"
  using counter_exact_concurrent [OF example_queue_reach]
  by (simp add: example_queue_def NewSession_def make_chan_def)

text \<open>C11: The queue is first-in first-out under every interleaving: the packets written to the
  connection are, in order, a prefix of the packets that entered the channel, and the only packet
  that can be missing between the written ones and the queued ones is the one whose write failed
  or is under way.\<close>

theorem queue_order_concurrent:
  assumes "reach queue_start queue_step q"
  shows "\<exists>mid. length mid \<le> 1 \<and> sent q = written q @ mid @ queue (sess q) \<and>
    (writer q = Selecting \<longrightarrow> mid = [])"
proof (cases "writer q = WriterReturned")
  case True
  then show ?thesis
    using bf.reach_inv [OF assms] by (auto simp: fifo_inv_def)
next
  case False
  then have "sent q = written q @ in_hand (writer q) @ queue (sess q)"
    using bf.reach_inv [OF assms] by (simp add: fifo_inv_def)
  moreover have "length (in_hand (writer q)) \<le> 1" by (cases "writer q") simp_all
  ultimately show ?thesis by fastforce
qed

theorem queue_order_concurrent_witness:
  "\<exists>mid. length mid \<le> 1 \<and> sent (example_queue\<lparr>senders := [Entering [1, 2, 3]]\<rparr>) =
     written (example_queue\<lparr>senders := [Entering [1, 2, 3]]\<rparr>) @ mid @
     queue (sess (example_queue\<lparr>senders := [Entering [1, 2, 3]]\<rparr>))"
  using queue_order_concurrent [OF example_queue_reach] by blast

text \<open>A call of \<open>enqueueEncoded\<close> that runs without interference returns within five atomic steps,
  with the result and the session that the sequential definition computes.\<close>

lemma enqueue_solo_run:
  "((\<lambda>(pc, s). sender_step pc s) ^^ 5) (Entering p, s) =
     (Returned (snd (enqueueEncoded p s)), fst (enqueueEncoded p s))"
proof -
  obtain c r where t: "try_send p (outChan s) = (c, r)" by fastforce
  have f: "(f ^^ 5) x = f (f (f (f (f x))))" for f :: "sender \<times> session \<Rightarrow> sender \<times> session" and x
    by (simp add: numeral_eq_Suc)
  show ?thesis
    unfolding f
    by (cases r) (simp_all add: sender_step_def enqueueEncoded_def Let_def t)
qed

text \<open>When no call is in progress and the writer waits, the session satisfies the invariant of
  the sequential model again.\<close>

lemma quiescent_session_ok:
  assumes "reach queue_start queue_step q" and "writer q = Selecting"
    and "\<forall>pc \<in> set (senders q). \<exists>r. pc = Returned r"
  shows "session_ok (sess q)"
proof -
  have "all_reserved ts = 0" if "\<forall>pc \<in> set ts. \<exists>r. pc = Returned r" for ts
    using that by (induction ts) auto
  then show ?thesis
    using bq.reach_inv [OF assms(1)] assms(2,3) by (simp add: queue_inv_def session_ok_def)
qed

end
