(* ===== verification/Optimized_Router.thy ===== *)
theory Optimized_Router
  imports Router
begin

text \<open>
  The optimised router, \<open>src/server/router_optimized.go\<close>: exact subjects and wildcard patterns
  in two maps, patterns compiled once and cached. The package-level cache is a field of the
  state. Its operations implement the router interface for sessions that never repeat a
  standing subscription; a repeated one is stored twice.
\<close>

section \<open>State and operations\<close>

record opt_router =
  exactMatches :: "(string, sid list) gomap"
  wildcardPatterns :: "(string, sid list) gomap"
  compiledPatternCache :: pattern_cache

definition NewOptimizedRouter :: "pattern_cache \<Rightarrow> opt_router" where
  "NewOptimizedRouter cache =
     \<lparr>exactMatches = [], wildcardPatterns = [], compiledPatternCache = cache\<rparr>"

definition append_session :: "string \<Rightarrow> sid \<Rightarrow> (string, sid list) gomap \<Rightarrow> (string, sid list) gomap" where
  "append_session subject session m = AList.update subject (map_index [] m subject @ [session]) m"

definition opt_Subscribe :: "string \<Rightarrow> sid \<Rightarrow> opt_router \<Rightarrow> opt_router" where
  "opt_Subscribe subject session r =
     (let r' = (if isWildcardPattern subject
                then r\<lparr>wildcardPatterns := append_session subject session (wildcardPatterns r)\<rparr>
                else r\<lparr>exactMatches := append_session subject session (exactMatches r)\<rparr>)
      in r'\<lparr>compiledPatternCache := snd (compilePattern subject (compiledPatternCache r'))\<rparr>)"

text \<open>
  Removing the first occurrence of a session from one entry, and the entry when it becomes
  empty. A missing key indexes as a nil slice.
\<close>

definition unsubscribe_in :: "string \<Rightarrow> sid \<Rightarrow> (string, sid list) gomap \<Rightarrow> (string, sid list) gomap" where
  "unsubscribe_in subject session targetMap =
     (case map_of targetMap subject of
        None \<Rightarrow> targetMap
      | Some sessions \<Rightarrow>
          if contains_session session sessions
          then store_filtered subject (delete_first 0 session sessions sessions) targetMap
          else targetMap)"

definition opt_Unsubscribe :: "string \<Rightarrow> sid \<Rightarrow> opt_router \<Rightarrow> opt_router" where
  "opt_Unsubscribe subject session r =
     (if isWildcardPattern subject
      then r\<lparr>wildcardPatterns := unsubscribe_in subject session (wildcardPatterns r)\<rparr>
      else r\<lparr>exactMatches := unsubscribe_in subject session (exactMatches r)\<rparr>)"

text \<open>The loop over the wildcard patterns, threading the cache.\<close>

fun opt_find_loop :: "string \<Rightarrow> sid list \<Rightarrow> (string, sid list) gomap \<Rightarrow> pattern_cache \<Rightarrow>
    sid list \<times> pattern_cache" where
  "opt_find_loop subject result [] cache = (result, cache)"
| "opt_find_loop subject result ((pattern, sessions) # entries) cache =
     (let (compiled, cache') = compilePattern pattern cache in
      opt_find_loop subject
        (if matches compiled subject then add_unique result sessions else result) entries cache')"

text \<open>The set \<open>seen\<close> holds exactly the sessions of \<open>result\<close>.\<close>

definition opt_FindSubscribers :: "opt_router \<Rightarrow> string \<Rightarrow> sid list \<times> opt_router" where
  "opt_FindSubscribers r subject =
     (let result = (case map_of (exactMatches r) subject of
                      Some sessions \<Rightarrow> add_unique [] sessions
                    | None \<Rightarrow> []);
          (result', cache) =
            opt_find_loop subject result (wildcardPatterns r) (compiledPatternCache r)
      in (result', r\<lparr>compiledPatternCache := cache\<rparr>))"

definition opt_Match :: "string \<Rightarrow> string \<Rightarrow> opt_router \<Rightarrow> bool \<times> opt_router" where
  "opt_Match pattern subject r =
     (let (compiled, cache) = compilePattern pattern (compiledPatternCache r)
      in (matches compiled subject, r\<lparr>compiledPatternCache := cache\<rparr>))"

fun opt_remove_loop :: "sid \<Rightarrow> (string, sid list) gomap \<Rightarrow> (string, sid list) gomap \<Rightarrow>
    (string, sid list) gomap" where
  "opt_remove_loop session [] m = m"
| "opt_remove_loop session ((subject, sessions) # entries) m =
     opt_remove_loop session entries
       (if contains_session session sessions
        then store_filtered subject (delete_first 0 session sessions sessions) m else m)"

definition opt_RemoveSession :: "sid \<Rightarrow> opt_router \<Rightarrow> opt_router" where
  "opt_RemoveSession session r =
     (let r1 = r\<lparr>exactMatches := opt_remove_loop session (exactMatches r) (exactMatches r)\<rparr>
      in r1\<lparr>wildcardPatterns :=
            opt_remove_loop session (wildcardPatterns r1) (wildcardPatterns r1)\<rparr>)"

definition opt_GetSubjectCount :: "opt_router \<Rightarrow> nat" where
  "opt_GetSubjectCount r = length (exactMatches r) + length (wildcardPatterns r)"

definition opt_GetTotalSubscriptions :: "opt_router \<Rightarrow> nat" where
  "opt_GetTotalSubscriptions r = total_loop (total_loop 0 (exactMatches r)) (wildcardPatterns r)"

section \<open>Abstraction and invariant\<close>

text \<open>The same reading of one map as for the plain router.\<close>

abbreviation map_rel :: "(string, sid list) gomap \<Rightarrow> (string \<times> sid) set" where
  "map_rel m \<equiv> subs_rel \<lparr>subscriptions = m\<rparr>"

abbreviation map_ok :: "(string, sid list) gomap \<Rightarrow> bool" where
  "map_ok m \<equiv> router_ok \<lparr>subscriptions = m\<rparr>"

definition opt_rel :: "opt_router \<Rightarrow> (string \<times> sid) set" where
  "opt_rel r = map_rel (exactMatches r) \<union> map_rel (wildcardPatterns r)"

definition opt_ok :: "opt_router \<Rightarrow> bool" where
  "opt_ok r \<longleftrightarrow> map_ok (exactMatches r) \<and> map_ok (wildcardPatterns r) \<and>
     cache_ok (compiledPatternCache r) \<and>
     (\<forall>(p, s) \<in> map_rel (exactMatches r). \<not> isWildcardPattern p) \<and>
     (\<forall>(p, s) \<in> map_rel (wildcardPatterns r). isWildcardPattern p)"

definition opt_mtch :: "string \<Rightarrow> string \<Rightarrow> bool" where
  "opt_mtch p subject = (if isWildcardPattern p then matches (compile p) subject else p = subject)"

lemma append_session_spec:
  assumes "map_ok m" and "(p, s) \<notin> map_rel m"
  shows "map_ok (append_session p s m) \<and> map_rel (append_session p s m) = insert (p, s) (map_rel m)"
  using Subscribe_new [OF assms] assms(2)
  by (auto simp: Subscribe_def append_session_def subs_rel_def map_index_def Let_def
      split: option.splits if_splits)

lemma unsubscribe_in_spec:
  assumes "map_ok m"
  shows "map_ok (unsubscribe_in p s m) \<and> map_rel (unsubscribe_in p s m) = map_rel m - {(p, s)}"
proof -
  show ?thesis
  proof (cases "(p, s) \<in> map_rel m")
    case True
    then obtain ss where ss: "map_of m p = Some ss" "s \<in> set ss"
      by (auto simp: subs_rel_def)
    then have "remove1 s ss = filter (\<lambda>x. x \<noteq> s) ss"
      using assms by (simp add: router_ok_def remove1_filter_neq)
    with ss have "\<lparr>subscriptions = unsubscribe_in p s m\<rparr> = Unsubscribe p s \<lparr>subscriptions = m\<rparr>"
      by (simp add: unsubscribe_in_def Unsubscribe_def)
    then show ?thesis
      using Unsubscribe_spec [OF assms, of p s] by simp
  next
    case False
    then have "unsubscribe_in p s m = m"
      by (auto simp: unsubscribe_in_def subs_rel_def split: option.splits)
    with False assms show ?thesis by simp
  qed
qed

lemma map_of_opt_remove_loop:
  assumes "distinct (keys es)"
  shows "map_of (opt_remove_loop s es m) k =
    (case map_of es k of
       None \<Rightarrow> map_of m k
     | Some ss \<Rightarrow> if s \<in> set ss then (if remove1 s ss = [] then None else Some (remove1 s ss))
                  else map_of m k)"
  using assms
proof (induction es arbitrary: m)
  case Nil
  then show ?case by simp
next
  case (Cons e es)
  obtain p ss where e: "e = (p, ss)" by fastforce
  have "map_of es p = None"
    using Cons.prems e by (auto simp: map_of_eq_None_iff)
  then show ?case
    using Cons e by (auto split: option.splits)
qed

lemma distinct_opt_remove_loop:
  "distinct (keys m) \<Longrightarrow> distinct (keys (opt_remove_loop s es m))"
  by (induction s es m rule: opt_remove_loop.induct) simp_all

lemma opt_remove_loop_spec:
  assumes "map_ok m"
  shows "map_ok (opt_remove_loop s m m) \<and>
    map_rel (opt_remove_loop s m m) = {(p, x). (p, x) \<in> map_rel m \<and> x \<noteq> s}"
proof -
  have d: "distinct (keys m)" and e: "\<And>p ss. map_of m p = Some ss \<Longrightarrow> ss \<noteq> [] \<and> distinct ss"
    using assms by (auto simp: router_ok_def)
  have mo: "map_of (opt_remove_loop s m m) p = Some ts \<longleftrightarrow>
      ts \<noteq> [] \<and> (\<exists>ss. map_of m p = Some ss \<and> ts = filter (\<lambda>x. x \<noteq> s) ss)" for p ts
  proof -
    have "remove1 s ss = filter (\<lambda>x. x \<noteq> s) ss" if "map_of m p = Some ss" for ss
      using e [OF that] by (simp add: remove1_filter_neq)
    then show ?thesis
      using e [of p] d
      by (auto simp: map_of_opt_remove_loop filter_neq_id split: option.splits if_splits)
  qed
  show ?thesis
    using d e by (auto simp: router_ok_def subs_rel_def mo distinct_opt_remove_loop filter_empty_conv)
qed

lemma opt_find_loop_spec:
  assumes "cache_ok cache"
  shows "set (fst (opt_find_loop subj u es cache)) =
      set u \<union> {s. \<exists>p ss. (p, ss) \<in> set es \<and> matches (compile p) subj \<and> s \<in> set ss}"
    and "distinct u \<Longrightarrow> distinct (fst (opt_find_loop subj u es cache))"
    and "cache_ok (snd (opt_find_loop subj u es cache))"
proof -
  have "set (fst (opt_find_loop subj u es cache)) =
      set u \<union> {s. \<exists>p ss. (p, ss) \<in> set es \<and> matches (compile p) subj \<and> s \<in> set ss} \<and>
    (distinct u \<longrightarrow> distinct (fst (opt_find_loop subj u es cache))) \<and>
    cache_ok (snd (opt_find_loop subj u es cache))"
    using assms
  proof (induction es arbitrary: u cache)
    case Nil
    then show ?case by simp
  next
    case (Cons e es)
    obtain p ss where e: "e = (p, ss)" by fastforce
    obtain c cache' where c: "compilePattern p cache = (c, cache')" by fastforce
    then have c': "c = compile p" "cache_ok cache'"
      using compilePattern_correct [OF Cons.prems, of p] by simp_all
    show ?case
      using Cons.IH [OF c'(2), of "if matches c subj then add_unique u ss else u"] e c c'(1)
      by (auto simp: set_add_unique distinct_add_unique)
  qed
  then show "set (fst (opt_find_loop subj u es cache)) =
      set u \<union> {s. \<exists>p ss. (p, ss) \<in> set es \<and> matches (compile p) subj \<and> s \<in> set ss}"
    and "distinct u \<Longrightarrow> distinct (fst (opt_find_loop subj u es cache))"
    and "cache_ok (snd (opt_find_loop subj u es cache))"
    by simp_all
qed

section \<open>The operations implement the interface\<close>

lemma map_rel_disjoint:
  "opt_ok r \<Longrightarrow> map_rel (exactMatches r) \<inter> map_rel (wildcardPatterns r) = {}"
  by (auto simp: opt_ok_def)

lemma opt_Subscribe_spec:
  assumes "opt_ok r" and "(p, s) \<notin> opt_rel r"
  shows "opt_ok (opt_Subscribe p s r) \<and> opt_rel (opt_Subscribe p s r) = insert (p, s) (opt_rel r)"
  using assms append_session_spec [of "exactMatches r" p s]
    append_session_spec [of "wildcardPatterns r" p s]
    compilePattern_correct(2) [of "compiledPatternCache r" p]
  by (auto simp: opt_Subscribe_def opt_ok_def opt_rel_def Let_def)

lemma opt_Unsubscribe_spec:
  assumes "opt_ok r"
  shows "opt_ok (opt_Unsubscribe p s r) \<and> opt_rel (opt_Unsubscribe p s r) = opt_rel r - {(p, s)}"
  using assms unsubscribe_in_spec [of "exactMatches r" p s]
    unsubscribe_in_spec [of "wildcardPatterns r" p s]
  by (auto simp: opt_Unsubscribe_def opt_ok_def opt_rel_def)

lemma opt_RemoveSession_spec:
  assumes "opt_ok r"
  shows "opt_ok (opt_RemoveSession s r) \<and>
    opt_rel (opt_RemoveSession s r) = {(p, x). (p, x) \<in> opt_rel r \<and> x \<noteq> s}"
  using assms opt_remove_loop_spec [of "exactMatches r" s]
    opt_remove_loop_spec [of "wildcardPatterns r" s]
  by (auto simp: opt_RemoveSession_def opt_ok_def opt_rel_def Let_def)

lemma map_rel_entries: "map_ok m \<Longrightarrow> (p, s) \<in> map_rel m \<longleftrightarrow> (\<exists>ss. (p, ss) \<in> set m \<and> s \<in> set ss)"
  by (auto simp: subs_rel_def router_ok_def map_of_eq_Some_iff)

lemma opt_FindSubscribers_spec:
  assumes "opt_ok r"
  shows "distinct (fst (opt_FindSubscribers r subj))"
    and "set (fst (opt_FindSubscribers r subj)) = {s. \<exists>p. (p, s) \<in> opt_rel r \<and> opt_mtch p subj}"
    and "opt_ok (snd (opt_FindSubscribers r subj))"
proof -
  let ?u = "case map_of (exactMatches r) subj of Some ss \<Rightarrow> add_unique [] ss | None \<Rightarrow> []"
  have co: "cache_ok (compiledPatternCache r)"
    using assms by (simp add: opt_ok_def)
  have eq: "opt_FindSubscribers r subj =
      (fst (opt_find_loop subj ?u (wildcardPatterns r) (compiledPatternCache r)),
       r\<lparr>compiledPatternCache := snd (opt_find_loop subj ?u (wildcardPatterns r) (compiledPatternCache r))\<rparr>)"
    by (simp add: opt_FindSubscribers_def split_beta Let_def)
  note spec = opt_find_loop_spec [OF co, where subj = subj and u = ?u and es = "wildcardPatterns r"]
  have du: "distinct ?u"
    by (auto simp: distinct_add_unique split: option.splits)
  have su: "set ?u = {s. (subj, s) \<in> map_rel (exactMatches r)}"
    by (cases "map_of (exactMatches r) subj") (auto simp: set_add_unique subs_rel_def)
  have "map_ok (wildcardPatterns r)"
    using assms by (simp add: opt_ok_def)
  then have "{s. \<exists>p ss. (p, ss) \<in> set (wildcardPatterns r) \<and> matches (compile p) subj \<and> s \<in> set ss}
      = {s. \<exists>p. (p, s) \<in> map_rel (wildcardPatterns r) \<and> matches (compile p) subj}"
    by (auto simp: map_rel_entries)
  then show "set (fst (opt_FindSubscribers r subj)) = {s. \<exists>p. (p, s) \<in> opt_rel r \<and> opt_mtch p subj}"
    using assms spec(1) su by (auto simp: eq opt_ok_def opt_rel_def opt_mtch_def)
  show "distinct (fst (opt_FindSubscribers r subj))"
    using spec(2) [OF du] by (simp add: eq)
  show "opt_ok (snd (opt_FindSubscribers r subj))"
    using assms spec(3) by (simp add: eq opt_ok_def)
qed

lemma opt_total_card:
  assumes "opt_ok r"
  shows "opt_GetTotalSubscriptions r = card (opt_rel r)"
proof -
  have m: "map_ok (exactMatches r)" "map_ok (wildcardPatterns r)"
    using assms by (simp_all add: opt_ok_def)
  have f: "finite (map_rel m)" if "map_ok m" for m
    using that subs_rel_entries [of "\<lparr>subscriptions = m\<rparr>"] by (auto simp: router_ok_def)
  have "card (opt_rel r) = card (map_rel (exactMatches r)) + card (map_rel (wildcardPatterns r))"
    unfolding opt_rel_def by (rule card_Un_disjoint) (simp_all add: f m map_rel_disjoint assms)
  then show ?thesis
    using total_card_rel [OF m(1)] total_card_rel [OF m(2)]
    by (simp add: opt_GetTotalSubscriptions_def GetTotalSubscriptions_def total_loop_eq)
qed

lemma NewOptimizedRouter_ok [simp]:
  "opt_ok (NewOptimizedRouter [])" "opt_rel (NewOptimizedRouter []) = {}"
  using NewRouter_ok by (simp_all add: NewOptimizedRouter_def NewRouter_def opt_ok_def opt_rel_def)

interpretation ort: subject_router "NewOptimizedRouter []" opt_Subscribe opt_Unsubscribe
  opt_RemoveSession "\<lambda>r subject. fst (opt_FindSubscribers r subject)"
  opt_GetTotalSubscriptions opt_rel opt_ok opt_mtch
  by unfold_locales
    (simp_all add: opt_Subscribe_spec opt_Unsubscribe_spec opt_RemoveSession_spec
      opt_FindSubscribers_spec opt_total_card)

section \<open>Properties\<close>

text \<open>C40: For sessions that never repeat a standing subscription, the optimised router refines the
  same relation as the plain router does: after the same operations both represent the same
  subscriptions and count them alike.\<close>

theorem optimized_refines_router:
  assumes "fresh_ops ops {}"
  shows "opt_rel (fold ort.exec ops (NewOptimizedRouter [])) =
      subs_rel (fold rt.exec ops NewRouter) \<and>
    opt_GetTotalSubscriptions (fold ort.exec ops (NewOptimizedRouter [])) =
      GetTotalSubscriptions (fold rt.exec ops NewRouter)"
  using ort.run_refines [of "NewOptimizedRouter []" ops] rt.run_refines_any [of NewRouter ops] assms
  by (simp add: ort.total_card rt.total_card)

theorem optimized_refines_router_witness:
  "opt_rel (fold ort.exec [OpSubscribe ''a.*'' 1, OpSubscribe ''b'' 2, OpRemove 1] (NewOptimizedRouter [])) =
      subs_rel (fold rt.exec [OpSubscribe ''a.*'' 1, OpSubscribe ''b'' 2, OpRemove 1] NewRouter) \<and>
    opt_GetTotalSubscriptions (fold ort.exec [OpSubscribe ''a.*'' 1, OpSubscribe ''b'' 2, OpRemove 1] (NewOptimizedRouter [])) =
      GetTotalSubscriptions (fold rt.exec [OpSubscribe ''a.*'' 1, OpSubscribe ''b'' 2, OpRemove 1] NewRouter)"
  by (rule optimized_refines_router) simp

text \<open>The optimised router does not remove a session that had subscribed twice to the same
  subject: after the removal the session is still found.\<close>

lemma optimized_remove_incomplete:
  "fst (opt_FindSubscribers (opt_RemoveSession 1
     (opt_Subscribe ''a'' 1 (opt_Subscribe ''a'' 1 (NewOptimizedRouter [])))) ''a'') = [1] \<and>
   FindSubscribers (RemoveSession 1 (Subscribe ''a'' 1 (Subscribe ''a'' 1 NewRouter))) ''a'' = []"
proof -
  have w: "\<not> isWildcardPattern ''a''"
    by (simp add: isWildcardPattern_def Contains_char)
  have "exactMatches (opt_Subscribe ''a'' 1 (opt_Subscribe ''a'' 1 (NewOptimizedRouter []))) = [(''a'', [1, 1])]"
    "wildcardPatterns (opt_Subscribe ''a'' 1 (opt_Subscribe ''a'' 1 (NewOptimizedRouter []))) = []"
    using w by (simp_all add: opt_Subscribe_def NewOptimizedRouter_def append_session_def
        map_index_def Let_def)
  moreover have "Subscribe ''a'' 1 (Subscribe ''a'' 1 NewRouter) = \<lparr>subscriptions = [(''a'', [1])]\<rparr>"
    by (simp add: Subscribe_def NewRouter_def map_index_def)
  ultimately show ?thesis
    by (simp add: opt_RemoveSession_def opt_FindSubscribers_def RemoveSession_def
        FindSubscribers_def store_filtered_def map_index_def Let_def)
qed

end
