(* ===== verification/Buffer_Pool.thy ===== *)
theory Buffer_Pool
  imports KCPQ_Prelude
begin

text \<open>
  The two buffer pools of \<open>src/server/pool.go\<close>: \<open>bufferPool\<close> with \<open>getBuffer\<close> and \<open>putBuffer\<close>, and
  \<open>bytesPool\<close> with \<open>getBytes\<close> and \<open>putBytes\<close>. Both hand out pointers to growable byte buffers, and
  both refuse to take back a buffer that has grown too large. What a user of such a pool relies on
  is stated once, as a locale over the two operations, and holds for both.
\<close>

section \<open>Objects and sync.Pool\<close>

text \<open>A \<open>bytes.Buffer\<close> or a byte slice behind a pointer: its contents and its capacity.\<close>

record buffer =
  contents :: bytes
  capacity :: nat

text \<open>\<open>sync.Pool\<close>: the pooled pointers, with the memory they point to.\<close>

record pool_state =
  pooled :: "nat list"
  buf_at :: "nat \<Rightarrow> buffer"
  next_buf :: nat

text \<open>
  \<open>Get\<close> removes any one of the pooled objects and returns it, or calls \<open>New\<close>; which of the two, and
  which object, is up to the pool (the argument \<open>choice\<close>). \<open>Put\<close> adds an object. The garbage
  collector may remove pooled objects at any time.
\<close>

definition Pool_Get :: "buffer \<Rightarrow> nat option \<Rightarrow> pool_state \<Rightarrow> nat \<times> pool_state" where
  "Pool_Get new choice st =
     (case choice of
        Some i \<Rightarrow>
          if i < length (pooled st)
          then (pooled st ! i, st\<lparr>pooled := take i (pooled st) @ drop (Suc i) (pooled st)\<rparr>)
          else (next_buf st, st\<lparr>buf_at := (buf_at st)(next_buf st := new), next_buf := next_buf st + 1\<rparr>)
      | None \<Rightarrow> (next_buf st, st\<lparr>buf_at := (buf_at st)(next_buf st := new), next_buf := next_buf st + 1\<rparr>))"

definition Pool_Put :: "nat \<Rightarrow> pool_state \<Rightarrow> pool_state" where
  "Pool_Put p st = st\<lparr>pooled := pooled st @ [p]\<rparr>"

section \<open>The pools of the server\<close>

definition bufferPool_New :: buffer where
  "bufferPool_New = \<lparr>contents = [], capacity = 0\<rparr>"

text \<open>\<open>Reset\<close> empties a buffer and keeps its storage.\<close>

definition Reset :: "nat \<Rightarrow> pool_state \<Rightarrow> pool_state" where
  "Reset p st = st\<lparr>buf_at := (buf_at st)(p := (buf_at st p)\<lparr>contents := []\<rparr>)\<rparr>"

definition getBuffer :: "nat option \<Rightarrow> pool_state \<Rightarrow> nat \<times> pool_state" where
  "getBuffer choice st = (case Pool_Get bufferPool_New choice st of (buf, st1) \<Rightarrow> (buf, Reset buf st1))"

definition putBuffer :: "nat \<Rightarrow> pool_state \<Rightarrow> pool_state" where
  "putBuffer buf st = (if capacity (buf_at st buf) < 2 ^ 20 then Pool_Put buf st else st)"

definition bytesPool_New :: buffer where
  "bytesPool_New = \<lparr>contents = [], capacity = 4096\<rparr>"

text \<open>\<open>*p = ( *p)[:0]\<close> keeps the array of the slice.\<close>

definition getBytes :: "nat option \<Rightarrow> pool_state \<Rightarrow> nat \<times> pool_state" where
  "getBytes choice st = (case Pool_Get bytesPool_New choice st of (p, st1) \<Rightarrow> (p, Reset p st1))"

definition putBytes :: "nat \<Rightarrow> pool_state \<Rightarrow> pool_state" where
  "putBytes b st = (if capacity (buf_at st b) < 2 ^ 16 then Pool_Put b st else st)"

section \<open>Users of a pool\<close>

text \<open>
  The users hold the buffers they got and have not put back. \<open>PoolWrite\<close> appends to a held buffer,
  which may grow to any capacity that holds the contents; the users touch only what they hold.
\<close>

record pool_use =
  pst :: pool_state
  held :: "nat list"

datatype pool_event = PoolGet "nat option" | PoolPut nat | PoolWrite nat bytes nat | PoolCollect nat

text \<open>A well-formed pool: pooled and held buffers are different objects, and pooled ones are small.\<close>

definition pool_ok :: "nat \<Rightarrow> pool_use \<Rightarrow> bool" where
  "pool_ok limit u \<longleftrightarrow> distinct (pooled (pst u) @ held u) \<and>
     (\<forall>p \<in> set (pooled (pst u) @ held u). p < next_buf (pst u)) \<and>
     (\<forall>p \<in> set (pooled (pst u)). capacity (buf_at (pst u) p) < limit)"

fun pool_use_step :: "(nat option \<Rightarrow> pool_state \<Rightarrow> nat \<times> pool_state) \<Rightarrow> (nat \<Rightarrow> pool_state \<Rightarrow> pool_state) \<Rightarrow>
    pool_event \<Rightarrow> pool_use \<Rightarrow> pool_use" where
  "pool_use_step get put (PoolGet choice) u =
     (case get choice (pst u) of (p, st) \<Rightarrow> u\<lparr>pst := st, held := held u @ [p]\<rparr>)"
| "pool_use_step get put (PoolPut p) u =
     (if p \<in> set (held u) then u\<lparr>pst := put p (pst u), held := remove1 p (held u)\<rparr> else u)"
| "pool_use_step get put (PoolWrite p bs cap) u =
     (if p \<in> set (held u) then
        let b = buf_at (pst u) p;
            need = length (contents b @ bs)
        in u\<lparr>pst := (pst u)\<lparr>buf_at := (buf_at (pst u))(p :=
              \<lparr>contents = contents b @ bs, capacity = max need (max (capacity b) cap)\<rparr>)\<rparr>\<rparr>
      else u)"
| "pool_use_step get put (PoolCollect i) u =
     u\<lparr>pst := (pst u)\<lparr>pooled := take i (pooled (pst u)) @ drop (Suc i) (pooled (pst u))\<rparr>\<rparr>"

lemma remove_nth: "distinct xs \<Longrightarrow> i < length xs \<Longrightarrow> take i xs @ drop (Suc i) xs = remove1 (xs ! i) xs"
proof -
  assume d: "distinct xs" and i: "i < length xs"
  have xs: "xs = take i xs @ xs ! i # drop (Suc i) xs" using i by (rule id_take_nth_drop)
  have "xs ! i \<notin> set (take i xs)"
    using d xs by (metis distinct_append disjoint_iff list.set_intros(1))
  then show ?thesis by (subst xs) (simp add: remove1_append)
qed

lemma remove_nth_ok:
  assumes "distinct xs"
  shows "distinct (take i xs @ drop (Suc i) xs)" and "set (take i xs @ drop (Suc i) xs) \<subseteq> set xs"
proof -
  have "take i xs @ drop (Suc i) xs = (if i < length xs then remove1 (xs ! i) xs else xs)"
    using remove_nth [OF assms, of i] by simp
  then show "distinct (take i xs @ drop (Suc i) xs)" "set (take i xs @ drop (Suc i) xs) \<subseteq> set xs"
    using assms set_remove1_subset by (auto simp del: distinct_append set_append)
qed

text \<open>The interface of a pool.\<close>

locale buffer_pool =
  fixes get :: "nat option \<Rightarrow> pool_state \<Rightarrow> nat \<times> pool_state"
    and put :: "nat \<Rightarrow> pool_state \<Rightarrow> pool_state"
    and limit :: nat
  assumes get_empty: "get choice st = (p, st') \<Longrightarrow> contents (buf_at st' p) = []"
    and get_others: "get choice st = (p, st') \<Longrightarrow> q < next_buf st \<Longrightarrow> q \<noteq> p \<Longrightarrow> buf_at st' q = buf_at st q"
    and get_unpools: "distinct (pooled st) \<Longrightarrow> get choice st = (p, st') \<Longrightarrow>
      p \<in> set (pooled st) \<and> pooled st' = remove1 p (pooled st) \<and> next_buf st' = next_buf st \<or>
      p = next_buf st \<and> pooled st' = pooled st \<and> next_buf st' = next_buf st + 1"
    and put_small: "capacity (buf_at st p) < limit \<Longrightarrow> put p st = st\<lparr>pooled := pooled st @ [p]\<rparr>"
    and put_large: "\<not> capacity (buf_at st p) < limit \<Longrightarrow> put p st = st"
begin

lemma get_step_ok: "pool_ok limit u \<Longrightarrow> pool_ok limit (pool_use_step get put (PoolGet choice) u)"
proof -
  assume ok: "pool_ok limit u"
  obtain p st where g: "get choice (pst u) = (p, st)" by fastforce
  have d: "distinct (pooled (pst u))" using ok by (simp add: pool_ok_def)
  have o: "buf_at st q = buf_at (pst u) q" if "q \<in> set (pooled (pst u))" "q \<noteq> p" for q
    using get_others [OF g _ that(2)] ok that(1) by (auto simp: pool_ok_def)
  from get_unpools [OF d g] show ?thesis
  proof
    assume a: "p \<in> set (pooled (pst u)) \<and> pooled st = remove1 p (pooled (pst u)) \<and> next_buf st = next_buf (pst u)"
    have "q \<noteq> p" if "q \<in> set (remove1 p (pooled (pst u)))" for q
      using that d by auto
    then show ?thesis
      using ok g a o d by (auto simp: pool_ok_def dest: notin_set_remove1)
  next
    assume a: "p = next_buf (pst u) \<and> pooled st = pooled (pst u) \<and> next_buf st = next_buf (pst u) + 1"
    have "buf_at st q = buf_at (pst u) q" if "q \<in> set (pooled (pst u))" for q
      using o [OF that] ok a that by (auto simp: pool_ok_def)
    then show ?thesis
      using ok g a by (auto simp: pool_ok_def less_Suc_eq)
  qed
qed

lemma put_step_ok: "pool_ok limit u \<Longrightarrow> pool_ok limit (pool_use_step get put (PoolPut p) u)"
  by (cases "capacity (buf_at (pst u) p) < limit")
    (auto simp: pool_ok_def put_small put_large dest: notin_set_remove1)

lemma write_step_ok: "pool_ok limit u \<Longrightarrow> pool_ok limit (pool_use_step get put (PoolWrite p bs cap) u)"
  by (auto simp: pool_ok_def Let_def)

lemma collect_step_ok: "pool_ok limit u \<Longrightarrow> pool_ok limit (pool_use_step get put (PoolCollect i) u)"
proof -
  assume ok: "pool_ok limit u"
  then have d: "distinct (pooled (pst u))" by (simp add: pool_ok_def)
  from remove_nth_ok [OF d, of i] ok show ?thesis
    by (auto simp: pool_ok_def simp del: distinct_append) (auto simp: distinct_append)
qed

lemma run_ok: "pool_ok limit u \<Longrightarrow> pool_ok limit (fold (pool_use_step get put) es u)"
proof (induction es arbitrary: u)
  case (Cons e es)
  then show ?case
    using get_step_ok put_step_ok write_step_ok collect_step_ok by (cases e) (simp_all del: pool_use_step.simps)
qed simp

end

lemma Reset_simps [simp]:
  "pooled (Reset p st) = pooled st" "next_buf (Reset p st) = next_buf st"
  "contents (buf_at (Reset p st) p) = []" "q \<noteq> p \<Longrightarrow> buf_at (Reset p st) q = buf_at st q"
  by (simp_all add: Reset_def)

lemma Pool_Get_cases:
  assumes "distinct (pooled st)" and "Pool_Get new choice st = (p, st')"
  shows "p \<in> set (pooled st) \<and> pooled st' = remove1 p (pooled st) \<and> next_buf st' = next_buf st \<or>
    p = next_buf st \<and> pooled st' = pooled st \<and> next_buf st' = next_buf st + 1"
  using assms by (auto simp: Pool_Get_def remove_nth split: option.splits if_splits)

lemma Pool_Get_others:
  "Pool_Get new choice st = (p, st') \<Longrightarrow> q < next_buf st \<Longrightarrow> buf_at st' q = buf_at st q"
  by (auto simp: Pool_Get_def split: option.splits if_splits)

interpretation buffers: buffer_pool getBuffer putBuffer "2 ^ 20"
  by unfold_locales
    (auto simp: getBuffer_def putBuffer_def Pool_Put_def Pool_Get_others split: prod.splits
      dest: Pool_Get_cases)

interpretation slices: buffer_pool getBytes putBytes "2 ^ 16"
  by unfold_locales
    (auto simp: getBytes_def putBytes_def Pool_Put_def Pool_Get_others split: prod.splits
      dest: Pool_Get_cases)

section \<open>Properties\<close>

definition empty_pool :: pool_use where
  "empty_pool = \<lparr>pst = \<lparr>pooled = [], buf_at = (\<lambda>p. \<lparr>contents = [], capacity = 0\<rparr>), next_buf = 0\<rparr>, held = []\<rparr>"

lemma empty_pool_ok: "pool_ok limit empty_pool"
  by (simp add: pool_ok_def empty_pool_def)

text \<open>The storage that the pooled buffers keep alive.\<close>

definition pool_bytes :: "pool_use \<Rightarrow> nat" where
  "pool_bytes u = sum_list (map (\<lambda>p. capacity (buf_at (pst u) p)) (pooled (pst u)))"

lemma pool_bytes_bound:
  assumes "pool_ok limit u"
  shows "pool_bytes u \<le> length (pooled (pst u)) * limit"
proof -
  have "(\<Sum>p\<leftarrow>pooled (pst u). capacity (buf_at (pst u) p)) \<le> (\<Sum>p\<leftarrow>pooled (pst u). limit)"
    by (rule sum_list_mono) (use assms in \<open>auto simp: pool_ok_def intro: less_imp_le\<close>)
  then show ?thesis by (simp add: pool_bytes_def sum_list_triv)
qed

text \<open>The pools stay small and never hand out a buffer twice: whatever sequence of gets, writes, puts
  and collections the users make, the buffers in the pool and those in use are different objects,
  the next get returns an empty buffer that nobody holds, and the pool keeps at most 1 MiB alive per
  pooled buffer (64 KiB per pooled byte slice).\<close>

lemma pools_bounded_and_exclusive:
  fixes es :: "pool_event list" and choice :: "nat option"
  defines "u \<equiv> fold (pool_use_step getBuffer putBuffer) es empty_pool"
    and "v \<equiv> fold (pool_use_step getBytes putBytes) es empty_pool"
  shows "pool_bytes u \<le> length (pooled (pst u)) * 2 ^ 20 \<and> pool_bytes v \<le> length (pooled (pst v)) * 2 ^ 16 \<and>
    (case getBuffer choice (pst u) of (p, st) \<Rightarrow> contents (buf_at st p) = [] \<and> p \<notin> set (held u)) \<and>
    (case getBytes choice (pst v) of (p, st) \<Rightarrow> contents (buf_at st p) = [] \<and> p \<notin> set (held v))"
proof -
  have u: "pool_ok (2 ^ 20) u" unfolding u_def by (rule buffers.run_ok [OF empty_pool_ok])
  have v: "pool_ok (2 ^ 16) v" unfolding v_def by (rule slices.run_ok [OF empty_pool_ok])
  have "case getBuffer choice (pst u) of (p, st) \<Rightarrow> contents (buf_at st p) = [] \<and> p \<notin> set (held u)"
    using u buffers.get_unpools [of "pst u" choice] buffers.get_empty [of choice "pst u"]
    by (fastforce simp: pool_ok_def split: prod.splits)
  moreover have "case getBytes choice (pst v) of (p, st) \<Rightarrow> contents (buf_at st p) = [] \<and> p \<notin> set (held v)"
    using v slices.get_unpools [of "pst v" choice] slices.get_empty [of choice "pst v"]
    by (fastforce simp: pool_ok_def split: prod.splits)
  ultimately show ?thesis
    using pool_bytes_bound [OF u] pool_bytes_bound [OF v] by simp
qed

end
