(* ===== verification/Spec2Isabelle.thy ===== *)
theory Spec2Isabelle
  imports Echo_Test Server_Program Client_Runs Sample_Runs Relay_Programs Server_System Backpressure Optimized_Router
    Buffer_Pool
begin

text \<open>
  \<^bold>\<open>KCPQ: a verification development.\<close>

  KCPQ is a publish/subscribe message broker over KCP (reliable UDP) with a client library. A
  client connects, sends SUB, UNSUB, PUB and PING messages, and receives OK, ERR, MSG and PONG;
  the server routes every PUB to the sessions with a matching subscription. Programs around it
  relay a video stream into the broker and out to NATS, measure it, and show its use. This
  development translates the protocol, the server, the client library and these programs into HOL
  and proves what makes them correct; where the code does not do what it means to, the theorem
  says what it does.

  \<^bold>\<open>Parts and theories.\<close>
  \<^item> \<open>KCPQ_Prelude\<close> and \<open>Go_Strings\<close> hold what the code uses of Go: bytes and strings, 64-bit
    arithmetic, \<open>encoding/binary\<close>, slices filtered in place, maps, buffered channels, package
    strings and decimal printing; the interface of a bounded queue (locale \<open>bounded_fifo\<close>,
    interpreted on channels) and of a transition system with an invariant (locale
    \<open>invariant_system\<close>, interpreted on the send queue, the running server, the locked cipher, the
    reconnection, the types of the client, the running client and the statistics of the load test).
  \<^item> \<open>Protocol\<close> is \<open>src/protocol/protocol.go\<close>: \<open>Encode\<close>, \<open>ParseWithRemaining\<close> on slices with
    their backing arrays, and \<open>ParseFromReader\<close> on streams. Both parsers are interpretations of
    one framing interface; they invert the encoder, agree, never panic, and cut a stream of
    messages back into the messages wherever it is split.
  \<^item> \<open>Subject_Matching\<close> has the three matchers: \<open>Router.Match\<close>, the compiled patterns of
    \<open>src/server/router_optimized.go\<close>, and the client's \<open>matchSubject\<close>. Each is shown equivalent to
    matching of segments, and they are compared with each other.
  \<^item> \<open>Router_Interface\<close> states what a router promises over a relation of patterns and sessions;
    \<open>Router\<close> (\<open>src/server/router.go\<close>) and \<open>Optimized_Router\<close> (\<open>src/server/router_optimized.go\<close>)
    are shown to implement it.
  \<^item> \<open>Utf8\<close> is \<open>truncateUTF8\<close>; \<open>Crypto\<close> the key check and the locked cipher of the two files
    \<open>crypto.go\<close>, with the cipher of package kcp as a parameter: concurrent calls behave like calls
    one after the other. \<open>Buffer_Pool\<close> is \<open>src/server/pool.go\<close>: both pools are interpretations of
    one interface (locale \<open>buffer_pool\<close>), hand out no buffer twice and stay within their limits.
  \<^item> \<open>Session\<close> is the state of \<open>src/server/session.go\<close> and its sends with the byte budget;
    \<open>Server\<close> adds \<open>src/server/server.go\<close> and the handlers and \<open>Close\<close> of sessions as functions on
    the whole server state. Session objects live in a heap; the table and the router hold
    identities.
  \<^item> \<open>Backpressure\<close> splits \<open>enqueueEncoded\<close> and the write loop into single atomic accesses with
    any number of senders. \<open>Server_System\<close> is the running server: readers, write loops, closers
    and the accept loop, one step per critical section, with invariants over all interleavings
    and a proof that the handlers of \<open>Server\<close> are what the steps compute without interference.
  \<^item> \<open>Ring_Buffer\<close> is \<open>src/client/ringbuffer.go\<close> with the latency average; \<open>Subscription\<close> is
    \<open>src/client/subscription.go\<close>; \<open>Client\<close> and \<open>Reconnect\<close> are \<open>src/client/client.go\<close>: dispatch,
    publishing, subscribing with acknowledgement and retries, unsubscribing, closing, statistics,
    and the automatic reconnection with its goroutine as a step relation. \<open>Client_Types\<close> shows that
    every operation and every step of these keeps the client's data well typed, and what a list of
    received messages leaves in the queues. \<open>Client_API\<close> adds the channel subscriptions, whose two
    queues are followed through every interleaving, and the wrappers without a context.
  \<^item> \<open>Client_System\<close> is the running client: any number of subscribe, unsubscribe and close calls, made
    by goroutines or by callbacks, beside the receive loops, the heartbeats, the goroutines of the
    subscriptions and the reconnection, one step per access or critical section. \<open>Client_Concurrency\<close>
    has the invariants of all interleavings: what calls own, what a subscription was given and has
    handled, which loops run, why an acknowledgement is closed. \<open>Client_Runs\<close> shows that no call panics,
    that delivery is exact, when a successful subscribe call was really acknowledged, that the
    functions of \<open>Client\<close> are what the steps compute without interference, and the runs that go wrong.
  \<^item> \<open>Config\<close> is how the programs get their settings: hexadecimal keys, environment, configuration
    files. \<open>Server_Program\<close> is \<open>src/examples/server\<close> from its settings to its shutdown. \<open>H264_Relay\<close> is \<open>src/examples/h264-relay\<close>, \<open>NATS_Forwarder\<close> is
    \<open>src/examples/kcpq-to-nats\<close>, both from start to stop; \<open>Relay_Programs\<close> is their main functions:
    nothing read or accepted goes uncounted, and the forwarder has published every accepted frame
    when it ends (in callback mode).
    \<open>Ping_Pong\<close> is \<open>src/examples/ping_pong\<close> with \<open>ping_server\<close>: the report sorts the results, and
    its percentiles are in range and order. \<open>Perf_Test\<close> is \<open>src/examples/perf_test\<close>: the shared
    statistics under all interleavings of their atomic accesses, which end, and the reports.
  \<^item> \<open>Sample_Programs\<close> is the publisher and the subscriber under \<open>src/examples\<close>, alone and together;
    \<open>Feature_Tests\<close> is \<open>comprehensive_test\<close>, \<open>context_usage\<close> and \<open>debug_sub\<close>; \<open>Stream_Monitors\<close> is
    \<open>h264_subscriber\<close>, \<open>test-udp-receiver\<close> and \<open>robustness_test\<close>. \<open>Program_Runs\<close> puts the main functions
    around their loops: the load test accounts for every event, the round-trip measurement ends
    whatever the network does; \<open>Sample_Runs\<close> does the same for the small programs. \<open>Echo_Test\<close> is \<open>src/test_simple\<close>: over a reliable connection the echo
    is complete.
  \<^item> This theory joins server and client: acknowledgements and messages end to end, and a video
    frame from the relay's socket to the forwarder's NATS subject.

  \<^bold>\<open>How state and effects are modelled.\<close> Structs are records, errors are values of sum or option
  types, panics and calls that block forever are \<^const>\<open>None\<close>. Counters of type int64 wrap by
  \<open>wrap64\<close>. A Go map is an association list whose order stands for the unspecified iteration
  order. What the network, timers, contexts and other goroutines decide is an argument of the
  operation: the result of a parse, the error of a write, the messages that arrive during a wait,
  the case of a \<open>select\<close> that wins. Logging, socket options and deadlines have no effect on the
  modelled state and are left out.

  \<^bold>\<open>Bounds.\<close> No fuel is used: every loop is a total function with a measure (the retry loops stop
  after three attempts), or one round of it is the function and the runs are lists of rounds. Rates
  that the code computes in floating point are exact quotients. The byte budgets of sessions are assumed to be at most \<open>2 ^ 62\<close>, which
  keeps the 64-bit counter from overflowing by the largest packet; the delay lemma assumes a base
  of at most \<open>2 ^ 52\<close> nanoseconds.

  \<^bold>\<open>Not modelled.\<close> The KCP transport and its cipher, the NATS client and the YAML parser, which are
  third-party code and parameters here; the random factor of the reconnect delay; user callbacks,
  of which only the messages they get and the calls they make are recorded; printing, signals, sockets
  and profilers of the programs. \<open>Server.Close\<close> is modelled, but not as a step of the running server,
  since it blocks whenever a session is open. In the running client a publish call, a round of the
  heartbeat and the connection monitor are single steps, and a write lock waits only for a receive
  loop that delivers a message, the one reader that holds the lock for more than a copy of fields.

  \<^bold>\<open>Next.\<close> Running server and running client side by side over a connection that loses nothing, so
  that delivery is followed from one concurrent side to the other.
\<close>

section \<open>Acknowledgements between server and client\<close>

text \<open>The OK packet that the server sends for a subscription.\<close>

definition sub_reply :: "string \<Rightarrow> message" where
  "sub_reply t = NewMessageCmd CmdOk (truncateUTF8 (''subscribed to '' @ t) MaxSubjectLen) []"

lemma sub_reply_valid: "valid_message (sub_reply t)"
  using length_truncateUTF8 [of "''subscribed to '' @ t" MaxSubjectLen]
  by (simp add: valid_message_def sub_reply_def NewMessageCmd_def body_len_def max_lens)

lemma sub_reply_fields [simp]:
  "Command (sub_reply t) = CmdOk" "Subject (sub_reply t) = truncateUTF8 (''subscribed to '' @ t) MaxSubjectLen"
  by (simp_all add: sub_reply_def NewMessageCmd_def)

lemma server_sub_reply:
  assumes "session_ok (objects v i)" and "\<not> closed (objects v i)"
    and "has_room (objects v i) (length (Encode (sub_reply t)))"
  shows "queue (objects (fst (HandleMessage i (NewMessageCmd CmdSub t []) v)) i) =
    queue (objects v i) @ [Encode (sub_reply t)]"
proof -
  have h: "HandleMessage i (NewMessageCmd CmdSub t []) v = handleSubscribe i (NewMessageCmd CmdSub t []) v"
    by (simp add: HandleMessage_def NewMessageCmd_def)
  have s: "Subject (NewMessageCmd CmdSub t []) = t" by (simp add: NewMessageCmd_def)
  show ?thesis
    unfolding h subscribe_objects [OF assms(1)] s sub_reply_def [symmetric] Let_def
    using assms(2,3) by (simp del: length_Encode)
qed


definition waiting_client :: "string \<Rightarrow> client" where
  "waiting_client t = example_client\<lparr>pendingSubs := [(t, 0)], next_ack := 1,
     ack_obj := (\<lambda>a. \<lparr>ack_subject = t, acked = False, ackedAt = None, ack_timeout = 0\<rparr>)\<rparr>"

lemma waiting_client_fields:
  "client_ok (waiting_client t)" "map_of (pendingSubs (waiting_client t)) u = (if u = t then Some 0 else None)"
  "\<not> acked (ack_obj (waiting_client t) 0)"
  using example_client_fields(1) by (auto simp: waiting_client_def client_ok_def example_client_fields)


text \<open>A truncated reply names neither the subject nor, after its prefix, the subject.\<close>

lemma truncated_ack_differs:
  assumes "4082 < length t" and "\<not> HasPrefix t ''subscribed to ''"
  shows "truncateUTF8 (''subscribed to '' @ t) MaxSubjectLen \<noteq> t \<and>
    TrimPrefix (truncateUTF8 (''subscribed to '' @ t) MaxSubjectLen) ''subscribed to '' \<noteq> t"
proof -
  define w where "w = ''subscribed to ''"
  define u where "u = truncateUTF8 (w @ t) MaxSubjectLen"
  have lw: "length w = 14" by (simp add: w_def)
  have lu: "length u \<le> 4096"
    using length_truncateUTF8 [of "w @ t" MaxSubjectLen] by (simp add: u_def max_lens)
  have "prefix u (w @ t)" unfolding u_def by (rule truncate_prefix)
  then consider (short) "prefix u w" | (long) us where "u = w @ us" "prefix us t"
    by (auto simp: prefix_append)
  then have "u \<noteq> t \<and> TrimPrefix u w \<noteq> t"
  proof cases
    case short
    then have "length u \<le> 14" using lw prefix_length_le by fastforce
    then show ?thesis using assms(1) by (auto simp: TrimPrefix_def)
  next
    case long
    then have "length us < length t" using lu lw assms(1) by simp
    moreover have "u \<noteq> t" using assms(2) long(1) by (auto simp: w_def [symmetric])
    ultimately show ?thesis using long(1) by auto
  qed
  then show ?thesis unfolding u_def w_def .
qed

text \<open>An OK message that confirms another subject leaves an acknowledgement as it is.\<close>

lemma other_ack_kept:
  assumes "client_ok c" and "map_of (pendingSubs c) t = Some a" and "\<not> acked (ack_obj c a)"
    and "Command m = CmdOk" and "confirmed c (Subject m) \<noteq> Some t"
  shows "map_of (pendingSubs (handleMessage now m c)) t = Some a \<and>
    \<not> acked (ack_obj (handleMessage now m c) a)"
proof (cases "confirmed c (Subject m)")
  case None
  then show ?thesis using assms by (simp add: handle_ok_eq)
next
  case (Some t')
  then obtain b where b: "map_of (pendingSubs c) t' = Some b"
    by (auto simp: confirmed_def split: if_splits)
  have "t' \<noteq> t" using Some assms(5) by simp
  moreover have "b \<noteq> a"
    using assms(1,2) b \<open>t' \<noteq> t\<close> unfolding client_ok_def by metis
  ultimately show ?thesis
    using Some b assms by (simp add: handle_ok_eq)
qed


definition long_subject :: string where
  "long_subject = replicate 4090 CHR ''a''"

lemma long_subject_facts:
  "length long_subject = 4090" "\<not> HasPrefix long_subject ''subscribed to ''"
proof -
  show "length long_subject = 4090" unfolding long_subject_def by (rule length_replicate)
  have "CHR ''s'' \<notin> set long_subject" by (simp only: long_subject_def set_replicate_conv_if) simp
  then have "long_subject \<noteq> CHR ''s'' # r" for r by (metis list.set_intros(1))
  then show "\<not> HasPrefix long_subject ''subscribed to ''"
    unfolding HasPrefix_iff by simp
qed


section \<open>Messages from publisher to subscriber\<close>

text \<open>The way of a message through the server and into a client.\<close>

lemma delivered:
  assumes "router_ok (router v)" and "session_ok (objects v j)" and "valid_message m"
    and "Command m = CmdPub" and "(p, j) \<in> subs_rel (router v)" and "Match p (Subject m)"
    and "\<not> closed (objects v j)"
    and "has_room (objects v j) (length (Encode (NewMessageCmd CmdMsg (Subject m) (Payload m))))"
    and "client_ok c" and "q \<in> set (subs c)" and "active (sub_obj c q)"
    and "sub_subject (sub_obj c q) = p" and "\<not> chan_closed (msgChan (sub_obj c q))"
    and "length (waiting (sub_obj c q)) < chan_cap (msgChan (sub_obj c q))"
  defines "msg \<equiv> NewMessageCmd CmdMsg (Subject m) (Payload m)"
  shows "queue (objects (fst (HandleMessage i m v)) j) = queue (objects v j) @ [Encode msg] \<and>
    ParseFromReader \<lparr>avail = Encode msg @ rest, ending = e\<rparr> = (Inr msg, \<lparr>avail = rest, ending = e\<rparr>) \<and>
    waiting (sub_obj (handleMessage now msg c) q) =
      waiting (sub_obj c q) @ [\<lparr>MsgSubject = Subject m, MsgData = Payload m\<rparr>]"
proof -
  have h: "HandleMessage i m v = handlePublish i m v"
    using assms(4) by (simp add: HandleMessage_def cmd_defs)
  have "j \<in> set (FindSubscribers (router v) (Subject m))"
    using assms(5,6) FindSubscribers_set [OF assms(1)] by blast
  then have q: "queue (objects (fst (HandleMessage i m v)) j) = queue (objects v j) @ [Encode msg]"
    using send_encoded_queue [OF assms(2) msg_packet_length [OF assms(3), of CmdMsg]] assms(7,8)
    by (simp add: h msg_def publish_objects del: length_Encode)
  have v: "valid_message msg"
    using assms(3) by (simp add: msg_def valid_message_def body_len_def NewMessageCmd_def)
  have p: "ParseFromReader \<lparr>avail = Encode msg @ rest, ending = e\<rparr> = (Inr msg, \<lparr>avail = rest, ending = e\<rparr>)"
    using ParseFromReader_encode [OF v, of "\<lparr>avail = Encode msg @ rest, ending = e\<rparr>" rest] by simp
  have "distinct (subs c)" using assms(9) by (simp add: client_ok_def)
  then have "waiting (sub_obj (handleMessage now msg c) q) =
      waiting (sub_obj c q) @ [\<lparr>MsgSubject = Subject m, MsgData = Payload m\<rparr>]"
    using assms(10-14) Match_client [OF assms(6)]
    by (simp add: msg_def handleMessage_def deliver_loop_objs NewMessageCmd_def TryEnqueue_def try_send_def)
  with q p show ?thesis by blast
qed

text \<open>C1: A message is delivered end to end: when a session publishes, a subscriber's session that
  holds a matching pattern, is open and has room queues one packet; the subscriber's client parses
  that packet and, handling it, appends the published subject and payload to the queue of every
  active subscription on that pattern with room.\<close>

theorem end_to_end_delivery:
  assumes "router_ok (router v)" and "session_ok (objects v j)" and "valid_message m"
    and "Command m = CmdPub" and "(p, j) \<in> subs_rel (router v)" and "Match p (Subject m)"
    and "\<not> closed (objects v j)"
    and "has_room (objects v j) (length (Encode (NewMessageCmd CmdMsg (Subject m) (Payload m))))"
    and "client_ok c" and "q \<in> set (subs c)" and "active (sub_obj c q)"
    and "sub_subject (sub_obj c q) = p" and "\<not> chan_closed (msgChan (sub_obj c q))"
    and "length (waiting (sub_obj c q)) < chan_cap (msgChan (sub_obj c q))"
  shows "\<exists>packet msg.
    queue (objects (fst (HandleMessage i m v)) j) = queue (objects v j) @ [packet] \<and>
    ParseFromReader \<lparr>avail = packet @ rest, ending = e\<rparr> = (Inr msg, \<lparr>avail = rest, ending = e\<rparr>) \<and>
    waiting (sub_obj (handleMessage now msg c) q) =
      waiting (sub_obj c q) @ [\<lparr>MsgSubject = Subject m, MsgData = Payload m\<rparr>]"
  using delivered [OF assms, of i rest e now] by blast

definition listening_client :: client where
  "listening_client = one_sub_client\<lparr>sub_obj := (\<lambda>p. new_subscription ''a.*'' 1)\<rparr>"

theorem end_to_end_delivery_witness:
  "\<exists>packet msg.
    queue (objects (fst (HandleMessage 0 example_message example_server)) 1) = [packet] \<and>
    ParseFromReader \<lparr>avail = packet @ [], ending = EOF\<rparr> = (Inr msg, \<lparr>avail = [], ending = EOF\<rparr>) \<and>
    waiting (sub_obj (handleMessage 0 msg listening_client) 0) = [\<lparr>MsgSubject = ''a.b'', MsgData = [42]\<rparr>]"
proof -
  have v: "valid_message example_message" "Command example_message = CmdPub"
    by (simp_all add: valid_message_def NewMessageCmd_def body_len_def max_lens)
  have m: "Match ''a.*'' (Subject example_message)"
    by (simp add: NewMessageCmd_def) code_simp
  have f: "Subject example_message = ''a.b''" "Payload example_message = [42]"
    by (simp_all add: NewMessageCmd_def)
  have l: "has_room (objects example_server 1)
      (length (Encode (NewMessageCmd CmdMsg (Subject example_message) (Payload example_message))))"
    by (simp add: example_server_ok body_len_def NewMessageCmd_def)
  have c: "client_ok listening_client" "0 \<in> set (subs listening_client)"
    "active (sub_obj listening_client 0)" "sub_subject (sub_obj listening_client 0) = ''a.*''"
    "\<not> chan_closed (msgChan (sub_obj listening_client 0))"
    "length (waiting (sub_obj listening_client 0)) < chan_cap (msgChan (sub_obj listening_client 0))"
    "waiting (sub_obj listening_client 0) = []"
    using one_sub_client_ok
    by (simp_all add: listening_client_def client_ok_def new_subscription_def startProcessing_def
        make_chan_def)
  show ?thesis
    using end_to_end_delivery [OF example_server_ok(1,2) v example_server_ok(3) m
        example_server_ok(4) l c(1-6), of 0 "[]" EOF 0]
    unfolding f c(7) example_server_ok(5) append_Nil .
qed

text \<open>C32: Two subscriptions of one client on the same subject share one entry on the server: when one
  of them unsubscribes, its UNSUB removes the entry, and the other one, although still listed and
  active in the client, receives nothing published on that subject any more.\<close>

theorem unsubscribe_silences_twin:
  assumes "router_ok (router v)" and "patterns v i = {t}"
    and "client_ok c" and "client_conn c" and "p \<noteq> q" and "{p, q} \<subseteq> set (subs c)"
    and "sub_subject (sub_obj c p) = t" and "sub_subject (sub_obj c q) = t"
    and "active (sub_obj c p)" and "active (sub_obj c q)"
    and "\<not> sub_closeOnce (sub_obj c p)" and "\<not> chan_closed (msgChan (sub_obj c p))"
  shows "\<exists>c'. Subscription_Unsubscribe None p c = Some (c', None) \<and>
    outgoing c' = outgoing c @ [Encode (NewMessageCmd CmdUnsub t [])] \<and>
    q \<in> set (subs c') \<and> active (sub_obj c' q) \<and>
    patterns (fst (HandleMessage i (NewMessageCmd CmdUnsub t []) v)) i = {} \<and>
    i \<notin> set (FindSubscribers (router (fst (HandleMessage i (NewMessageCmd CmdUnsub t []) v))) s)"
proof -
  let ?v = "fst (HandleMessage i (NewMessageCmd CmdUnsub t []) v)"
  have r: "router ?v = Unsubscribe t i (router v)"
    using unsubscribe_router [of i "NewMessageCmd CmdUnsub t []" v]
    by (simp add: HandleMessage_def NewMessageCmd_def cmd_defs)
  note u = Unsubscribe_spec [OF assms(1), of t i]
  have e: "patterns ?v i = {}"
    using assms(2) u unfolding patterns_def r by auto
  then have f: "i \<notin> set (FindSubscribers (router ?v) s)"
    using u FindSubscribers_set [of "router ?v" s] unfolding r patterns_def by auto
  show ?thesis
    using assms(3-12) e f
    by (auto simp: Subscription_Unsubscribe_def on_sub_def removeSubscription_def client_ok_def Let_def)
qed

definition twin_client :: client where
  "twin_client = example_client\<lparr>subs := [0, 1], next_sub := 2,
     sub_obj := (\<lambda>p. new_subscription ''a.*'' 1)\<rparr>"

theorem unsubscribe_silences_twin_witness:
  "\<exists>c'. Subscription_Unsubscribe None 0 twin_client = Some (c', None) \<and> active (sub_obj c' 1) \<and>
     1 \<notin> set (FindSubscribers (router
        (fst (HandleMessage 1 (NewMessageCmd CmdUnsub ''a.*'' []) example_server))) ''a.b'')"
proof -
  have p: "patterns example_server 1 = {''a.*''}"
    by (auto simp: patterns_def subs_rel_def example_server_def split: if_splits)
  have c: "client_ok twin_client" "client_conn twin_client" "(0::nat) \<noteq> 1"
    "{0, 1} \<subseteq> set (subs twin_client)" "sub_subject (sub_obj twin_client 0) = ''a.*''"
    "sub_subject (sub_obj twin_client 1) = ''a.*''" "active (sub_obj twin_client 0)"
    "active (sub_obj twin_client 1)" "\<not> sub_closeOnce (sub_obj twin_client 0)"
    "\<not> chan_closed (msgChan (sub_obj twin_client 0))"
    using example_client_fields(1)
    by (auto simp: twin_client_def client_ok_def new_subscription_def startProcessing_def
        make_chan_def example_client_fields)
  from unsubscribe_silences_twin [OF example_server_ok(1) p c, of "''a.b''"] show ?thesis by blast
qed

section \<open>From the relay to the forwarder\<close>


definition relay_for_a :: relay where
  "relay_for_a = example_relay\<lparr>r_config := relay_defaults\<lparr>rc_Subject := ''a.b''\<rparr>\<rparr>"


end
